(* ===== verification/Kush_Prelude.thy ===== *)
theory Kush_Prelude
  imports Main "HOL-Library.Word" "HOL-Library.Multiset"
begin

text \<open>
  Shared vocabulary of the development: the machine integers of the kernel's only complete
  target (amd64, so \<^verbatim>\<open>uintptr_t\<close>, \<^verbatim>\<open>size_t\<close> and \<^verbatim>\<open>uint64_t\<close> are 64 bits wide), the
  outcome of code that can stop the machine, and generic lemmas on lists and words which the
  component theories share.
\<close>

unbundle bit_operations_syntax

type_synonym u8 = "8 word"
type_synonym u16 = "16 word"
type_synonym u32 = "32 word"
type_synonym u64 = "64 word"

text \<open>Object identities: what a \<^verbatim>\<open>T *\<close> to a kernel object is compared by.\<close>

type_synonym objid = nat

section \<open>Outcomes\<close>

text \<open>
  \<^verbatim>\<open>panic\<close> does not return and \<^verbatim>\<open>REQUIRE(cond, ...)\<close> panics when its condition is false
  (\<^verbatim>\<open>kernel/include/log.h\<close>). Code that may do so returns a sum whose left side says how
  it stopped: a panic with its message, a null pointer dereference, an access to memory that
  does not belong to the object (freed, or outside of a raw array), or an overflow of a signed
  integer, which the language leaves undefined.
\<close>

datatype fault = Panic string | NullDeref | BadAccess | SignedOverflow

type_synonym 'a outcome = "fault + 'a"

definition require :: "bool \<Rightarrow> string \<Rightarrow> 'a outcome \<Rightarrow> 'a outcome" where
  "require cond msg k = (if cond then k else Inl (Panic msg))"

definition obind :: "'a outcome \<Rightarrow> ('a \<Rightarrow> 'b outcome) \<Rightarrow> 'b outcome" where
  "obind r k = (case r of Inl f \<Rightarrow> Inl f | Inr x \<Rightarrow> k x)"

lemma require_simps [simp]:
  "require True msg k = k"
  "require False msg k = Inl (Panic msg)"
  by (simp_all add: require_def)

lemma require_Inr_iff [simp]: "require c msg k = Inr x \<longleftrightarrow> c \<and> k = Inr x"
  by (simp add: require_def)

lemma obind_simps [simp]:
  "obind (Inl f) k = Inl f"
  "obind (Inr x) k = k x"
  by (simp_all add: obind_def)

lemma obind_Inr_iff [simp]: "obind r k = Inr y \<longleftrightarrow> (\<exists>x. r = Inr x \<and> k x = Inr y)"
  by (cases r) auto

lemma obind_cong [fundef_cong]:
  "r = r' \<Longrightarrow> (\<And>x. r' = Inr x \<Longrightarrow> k x = k' x) \<Longrightarrow> obind r k = obind r' k'"
  by (cases r') auto

lemma require_cong [fundef_cong]:
  "c = c' \<Longrightarrow> msg = msg' \<Longrightarrow> (c' \<Longrightarrow> k = k') \<Longrightarrow> require c msg k = require c' msg' k'"
  by (simp add: require_def)

text \<open>Putting a list of items into a container, one after the other.\<close>

fun put_all :: "('a \<Rightarrow> 'v \<Rightarrow> 'v outcome) \<Rightarrow> 'a list \<Rightarrow> 'v \<Rightarrow> 'v outcome" where
  "put_all put [] v = Inr v"
| "put_all put (x # xs) v = obind (put x v) (put_all put xs)"

text \<open>
  Heaps of nodes that code reaches through pointers: a null pointer and a node that was freed are
  faults.
\<close>

type_synonym addr = nat

definition deref :: "(addr \<rightharpoonup> 'n) \<Rightarrow> addr option \<Rightarrow> 'n outcome" where
  "deref h p = (case p of None \<Rightarrow> Inl NullDeref
     | Some a \<Rightarrow> (case h a of None \<Rightarrow> Inl BadAccess | Some e \<Rightarrow> Inr e))"

lemma deref_node [simp]: "h a = Some n \<Longrightarrow> deref h (Some a) = Inr n"
  by (simp add: deref_def)

section \<open>Loops and recursion through pointers\<close>

text \<open>
  Code that follows pointers need not return. Its model has a value of type \<open>outcome option\<close>, in
  which \<^term>\<open>None\<close> is a run that does not end; \<open>dbind\<close> runs one such computation after another.
\<close>

definition dbind :: "'a outcome option \<Rightarrow> ('a \<Rightarrow> 'b outcome option) \<Rightarrow> 'b outcome option" where
  "dbind r k = Option.bind r (\<lambda>res. case res of Inl f \<Rightarrow> Some (Inl f) | Inr x \<Rightarrow> k x)"

lemma dbind_simps [simp]:
  "dbind None k = None"
  "dbind (Some (Inl f)) k = Some (Inl f)"
  "dbind (Some (Inr x)) k = k x"
  by (simp_all add: dbind_def)

lemma sum_case_mono:
  assumes "\<And>x. mono_option (\<lambda>f. C x f)"
  shows "mono_option (\<lambda>f. case res of Inl e \<Rightarrow> Some (Inl e) | Inr x \<Rightarrow> C x f)"
  using assms by (cases res) (simp_all add: monotone_on_def flat_ord_def)

lemma dbind_mono [partial_function_mono]:
  assumes "mono_option B" "\<And>x. mono_option (\<lambda>f. C x f)"
  shows "mono_option (\<lambda>f. dbind (B f) (\<lambda>x. C x f))"
  unfolding dbind_def by (intro bind_mono assms sum_case_mono)

definition arch_page_size :: u64 where
  "arch_page_size = 4096"

section \<open>Lists\<close>

lemma take_update_ge [simp]: "n \<le> i \<Longrightarrow> take n (xs[i := x]) = take n xs"
  by (simp add: take_update_swap list_update_beyond)

lemma nth_list_update_if:
  "j < length xs \<Longrightarrow> xs[i := x] ! j = (if i = j then x else xs ! j)"
  by (simp add: nth_list_update)

lemma take_Suc_update: "n < length xs \<Longrightarrow> take (Suc n) (xs[n := x]) = take n xs @ [x]"
  by (simp add: take_Suc_conv_app_nth)

section \<open>Words\<close>

named_theorems mask_numerals

lemma mask_lits [mask_numerals]:
  "(0xFFFFFFFF :: u64) = mask 32" "(0xFFFFF :: u64) = mask 20" "(0xF :: u64) = mask 4"
  "(0xFFF :: u64) = mask 12" "(0x1FF :: u64) = mask 9" "(0xFFFFFFFFFFFF :: u64) = mask 48"
  "(0x3FFFFFFF :: u64) = mask 30" "(0x1FFFFF :: u64) = mask 21"
  by (simp_all add: mask_eq_exp_minus_1)

lemma unat_u64_less: "unat (w :: u64) < 2 ^ 64"
  using unsigned_less [of w] by simp

lemma unat_of_nat_u64: "n < 2 ^ 64 \<Longrightarrow> unat (word_of_nat n :: u64) = n"
  by (simp add: unat_of_nat take_bit_nat_eq_self)

lemma and_mask_of_nat:
  "n < 2 ^ k \<Longrightarrow> k < 64 \<Longrightarrow> (word_of_nat n :: u64) AND mask k = word_of_nat n"
  by (simp add: take_bit_eq_mask [symmetric] of_nat_take_bit [symmetric] take_bit_nat_eq_self)

end
