(* ===== verification/Handle_Manager.thy ===== *)
theory Handle_Manager
  imports Kush_Prelude
begin

text \<open>
  The handle manager, \<^verbatim>\<open>kernel/src/handle/Manager.h\<close>: kernel objects are named to
  userspace by 64-bit handles that pack a type code, an epoch and an index into one of five
  tables of weak references. The theory holds the packing and unpacking, the three table
  operations \<^verbatim>\<open>allocate\<close>, \<^verbatim>\<open>get\<close> and \<^verbatim>\<open>release\<close>, the fifteen public entry points,
  the contract of a handle table as a locale with its interpretations, and the theorems that a
  handle resolves to its object while that is alive and to nothing afterwards.

  A weak reference is the identity of its object; whether that object still has strong
  references is a predicate \<open>live\<close> that every operation which looks takes as an argument, since
  it changes between any two calls. The read-write locks around the tables make each operation
  atomic.
\<close>

section \<open>Handles\<close>

datatype handle_type = TypeTask | TypeThread | TypePort | TypeVmRegion | TypeIrqHandler

fun type_code :: "handle_type \<Rightarrow> u8" where
  "type_code TypeTask = 0x01"
| "type_code TypeThread = 0x02"
| "type_code TypePort = 0x03"
| "type_code TypeVmRegion = 0x04"
| "type_code TypeIrqHandler = 0x05"

definition kIndexMask :: u64 where "kIndexMask = 0xFFFFFFFF"
definition kEpochMask :: u64 where "kEpochMask = 0xFFFFF"
definition kEpochPos :: nat where "kEpochPos = 32"
definition kTypeMask :: u64 where "kTypeMask = 0xF"
definition kTypePos :: nat where "kTypePos = 52"

definition getIndex :: "u64 \<Rightarrow> u64" where
  "getIndex h = h AND kIndexMask"

definition getEpoch :: "u64 \<Rightarrow> u64" where
  "getEpoch h = drop_bit kEpochPos (h AND push_bit kEpochPos kEpochMask)"

definition getType :: "u64 \<Rightarrow> u8" where
  "getType h = ucast (drop_bit kTypePos (h AND push_bit kTypePos kTypeMask))"

definition makeHandle :: "handle_type \<Rightarrow> u64 \<Rightarrow> u64 \<Rightarrow> u64" where
  "makeHandle t index epoch =
     (index AND kIndexMask)
     OR push_bit kEpochPos (epoch AND kEpochMask)
     OR push_bit kTypePos (ucast (type_code t) AND kTypeMask)"

section \<open>Tables\<close>

record handle_info =
  hobject :: "objid option"
  hepoch :: u64

type_synonym handle_table = "handle_info list"

text \<open>\<^verbatim>\<open>WeakPtr::expired\<close> and \<^verbatim>\<open>WeakPtr::lock\<close> as the tables use them.\<close>

definition slot_expired :: "(objid \<Rightarrow> bool) \<Rightarrow> handle_info \<Rightarrow> bool" where
  "slot_expired live slot = (case hobject slot of None \<Rightarrow> True | Some p \<Rightarrow> \<not> live p)"

definition slot_lock :: "(objid \<Rightarrow> bool) \<Rightarrow> handle_info \<Rightarrow> objid option" where
  "slot_lock live slot =
     (case hobject slot of None \<Rightarrow> None | Some p \<Rightarrow> if live p then Some p else None)"

function allocate_from ::
  "(objid \<Rightarrow> bool) \<Rightarrow> objid \<Rightarrow> handle_table \<Rightarrow> handle_type \<Rightarrow> nat \<Rightarrow> u64 \<times> handle_table" where
  "allocate_from live obj handles t i =
     (if i < length handles then
        (let slot = handles ! i in
         if hobject slot \<noteq> None \<and> \<not> slot_expired live slot
         then allocate_from live obj handles t (Suc i)
         else
           (let slot = (if slot_expired live slot then slot\<lparr>hepoch := hepoch slot + 1\<rparr> else slot);
                slot = slot\<lparr>hobject := Some obj\<rparr>
            in (makeHandle t (word_of_nat i) (hepoch slot), handles[i := slot])))
      else
        (let info = \<lparr>hobject = Some obj, hepoch = 0\<rparr>; index = length handles
         in (makeHandle t (word_of_nat index) (hepoch info), handles @ [info])))"
  by pat_completeness auto
termination
  by (relation "measure (\<lambda>(live, obj, handles, t, i). length handles - i)") auto

declare allocate_from.simps [simp del]

definition allocate ::
  "(objid \<Rightarrow> bool) \<Rightarrow> objid \<Rightarrow> handle_table \<Rightarrow> handle_type \<Rightarrow> u64 \<times> handle_table" where
  "allocate live obj handles t = allocate_from live obj handles t 0"

definition get :: "(objid \<Rightarrow> bool) \<Rightarrow> u64 \<Rightarrow> handle_table \<Rightarrow> objid option" where
  "get live h handles =
     (let index = unat (getIndex h) in
      if index \<ge> length handles then None
      else
        let epoch = getEpoch h; info = handles ! index in
        if (hepoch info AND kEpochMask) \<noteq> epoch then None
        else slot_lock live info)"

definition release :: "u64 \<Rightarrow> handle_table \<Rightarrow> bool \<times> handle_table" where
  "release h handles =
     (let index = unat (getIndex h) in
      if index \<ge> length handles then (False, handles)
      else
        let epoch = getEpoch h; info = handles ! index in
        if (hepoch info AND kEpochMask) \<noteq> epoch then (False, handles)
        else (True, handles[index := info\<lparr>hobject := None, hepoch := hepoch info + 1\<rparr>]))"

section \<open>The manager\<close>

record manager =
  taskHandles :: handle_table
  threadHandles :: handle_table
  vmObjectHandles :: handle_table
  portHandles :: handle_table
  irqHandles :: handle_table

definition manager_init :: manager where
  "manager_init = \<lparr>taskHandles = [], threadHandles = [], vmObjectHandles = [],
                   portHandles = [], irqHandles = []\<rparr>"

definition makeTaskHandle :: "(objid \<Rightarrow> bool) \<Rightarrow> objid \<Rightarrow> manager \<Rightarrow> u64 \<times> manager" where
  "makeTaskHandle live task m =
     (let (h, tbl) = allocate live task (taskHandles m) TypeTask in (h, m\<lparr>taskHandles := tbl\<rparr>))"

definition releaseTaskHandle :: "u64 \<Rightarrow> manager \<Rightarrow> bool \<times> manager" where
  "releaseTaskHandle h m =
     (if getType h \<noteq> type_code TypeTask then (False, m)
      else let (ok, tbl) = release h (taskHandles m) in (ok, m\<lparr>taskHandles := tbl\<rparr>))"

definition getTask :: "(objid \<Rightarrow> bool) \<Rightarrow> u64 \<Rightarrow> manager \<Rightarrow> objid option" where
  "getTask live h m =
     (if getType h \<noteq> type_code TypeTask then None else get live h (taskHandles m))"

definition makeThreadHandle :: "(objid \<Rightarrow> bool) \<Rightarrow> objid \<Rightarrow> manager \<Rightarrow> u64 \<times> manager" where
  "makeThreadHandle live thread m =
     (let (h, tbl) = allocate live thread (threadHandles m) TypeThread
      in (h, m\<lparr>threadHandles := tbl\<rparr>))"

definition releaseThreadHandle :: "u64 \<Rightarrow> manager \<Rightarrow> bool \<times> manager" where
  "releaseThreadHandle h m =
     (if getType h \<noteq> type_code TypeThread then (False, m)
      else let (ok, tbl) = release h (threadHandles m) in (ok, m\<lparr>threadHandles := tbl\<rparr>))"

definition getThread :: "(objid \<Rightarrow> bool) \<Rightarrow> u64 \<Rightarrow> manager \<Rightarrow> objid option" where
  "getThread live h m =
     (if getType h \<noteq> type_code TypeThread then None else get live h (threadHandles m))"

definition makeVmObjectHandle :: "(objid \<Rightarrow> bool) \<Rightarrow> objid \<Rightarrow> manager \<Rightarrow> u64 \<times> manager" where
  "makeVmObjectHandle live vmObject m =
     (let (h, tbl) = allocate live vmObject (vmObjectHandles m) TypeVmRegion
      in (h, m\<lparr>vmObjectHandles := tbl\<rparr>))"

definition releaseVmObjectHandle :: "u64 \<Rightarrow> manager \<Rightarrow> bool \<times> manager" where
  "releaseVmObjectHandle h m =
     (if getType h \<noteq> type_code TypeVmRegion then (False, m)
      else let (ok, tbl) = release h (vmObjectHandles m) in (ok, m\<lparr>vmObjectHandles := tbl\<rparr>))"

definition getVmObject :: "(objid \<Rightarrow> bool) \<Rightarrow> u64 \<Rightarrow> manager \<Rightarrow> objid option" where
  "getVmObject live h m =
     (if getType h \<noteq> type_code TypeVmRegion then None else get live h (vmObjectHandles m))"

definition makePortHandle :: "(objid \<Rightarrow> bool) \<Rightarrow> objid \<Rightarrow> manager \<Rightarrow> u64 \<times> manager" where
  "makePortHandle live port m =
     (let (h, tbl) = allocate live port (portHandles m) TypePort in (h, m\<lparr>portHandles := tbl\<rparr>))"

definition releasePortHandle :: "u64 \<Rightarrow> manager \<Rightarrow> bool \<times> manager" where
  "releasePortHandle h m =
     (if getType h \<noteq> type_code TypePort then (False, m)
      else let (ok, tbl) = release h (portHandles m) in (ok, m\<lparr>portHandles := tbl\<rparr>))"

definition getPort :: "(objid \<Rightarrow> bool) \<Rightarrow> u64 \<Rightarrow> manager \<Rightarrow> objid option" where
  "getPort live h m =
     (if getType h \<noteq> type_code TypePort then None else get live h (portHandles m))"

definition makeIrqHandle :: "(objid \<Rightarrow> bool) \<Rightarrow> objid \<Rightarrow> manager \<Rightarrow> u64 \<times> manager" where
  "makeIrqHandle live handler m =
     (let (h, tbl) = allocate live handler (irqHandles m) TypeIrqHandler
      in (h, m\<lparr>irqHandles := tbl\<rparr>))"

text \<open>The source compares with \<^verbatim>\<open>Type::Port\<close> here, and so does the model.\<close>

definition releaseIrqHandle :: "u64 \<Rightarrow> manager \<Rightarrow> bool \<times> manager" where
  "releaseIrqHandle h m =
     (if getType h \<noteq> type_code TypePort then (False, m)
      else let (ok, tbl) = release h (irqHandles m) in (ok, m\<lparr>irqHandles := tbl\<rparr>))"

definition getIrq :: "(objid \<Rightarrow> bool) \<Rightarrow> u64 \<Rightarrow> manager \<Rightarrow> objid option" where
  "getIrq live h m =
     (if getType h \<noteq> type_code TypeIrqHandler then None else get live h (irqHandles m))"

section \<open>Packing and unpacking\<close>

lemmas handle_layout = kIndexMask_def kEpochMask_def kEpochPos_def kTypeMask_def kTypePos_def
lemmas handle_fields = getIndex_def getEpoch_def getType_def makeHandle_def handle_layout

lemma getIndex_makeHandle: "getIndex (makeHandle t i e) = i AND kIndexMask"
  unfolding handle_fields mask_numerals by (intro bit_word_eqI) (auto simp: bit_simps)

lemma getEpoch_makeHandle [simp]: "getEpoch (makeHandle t i e) = e AND kEpochMask"
  unfolding handle_fields mask_numerals by (intro bit_word_eqI) (auto simp: bit_simps)

lemma getType_makeHandle [simp]: "getType (makeHandle t i e) = type_code t"
proof -
  have "getType (makeHandle t i e) = ucast (ucast (type_code t) AND kTypeMask)"
    unfolding handle_fields mask_numerals by (intro bit_word_eqI) (auto simp: bit_simps)
  also have "\<dots> = type_code t"
    by (cases t) (simp_all add: kTypeMask_def)
  finally show ?thesis .
qed

lemma type_code_inj [simp]: "type_code s = type_code t \<longleftrightarrow> s = t"
  by (cases s; cases t) simp_all

lemma unat_getIndex_makeHandle [simp]:
  "i < 2 ^ 32 \<Longrightarrow> unat (getIndex (makeHandle t (word_of_nat i) e)) = i"
  by (simp add: getIndex_makeHandle kIndexMask_def mask_numerals and_mask_of_nat unat_of_nat_u64)

lemma makeHandle_msb: "0 \<le> sint (makeHandle t i e)"
  unfolding handle_fields mask_numerals by (simp add: sint_uint) (simp add: bit_simps)

lemma makeHandle_nonzero: "makeHandle t i e \<noteq> 0"
proof
  assume "makeHandle t i e = 0"
  then have "type_code t = getType 0"
    by (metis getType_makeHandle)
  then show False
    by (cases t) (simp_all add: getType_def)
qed

section \<open>Table operations\<close>

definition slot_busy :: "(objid \<Rightarrow> bool) \<Rightarrow> handle_info \<Rightarrow> bool" where
  "slot_busy live slot = (\<exists>p. hobject slot = Some p \<and> live p)"

lemma not_busy_expired: "slot_expired live slot \<longleftrightarrow> \<not> slot_busy live slot"
  by (simp add: slot_expired_def slot_busy_def split: option.split)

lemma slot_lock_eq_Some: "slot_lock live slot = Some p \<longleftrightarrow> hobject slot = Some p \<and> live p"
  by (auto simp: slot_lock_def split: option.split)

lemma allocate_from_cases:
  assumes "allocate_from live obj hs t i = (h, hs')" "i \<le> length hs"
  shows "(\<exists>k. i \<le> k \<and> k < length hs \<and> \<not> slot_busy live (hs ! k)
            \<and> h = makeHandle t (word_of_nat k) (hepoch (hs ! k) + 1)
            \<and> hs' = hs[k := (hs ! k)\<lparr>hepoch := hepoch (hs ! k) + 1, hobject := Some obj\<rparr>])
       \<or> (h = makeHandle t (word_of_nat (length hs)) 0
            \<and> hs' = hs @ [\<lparr>hobject = Some obj, hepoch = 0\<rparr>])"
  using assms
proof (induction live obj hs t i rule: allocate_from.induct)
  case (1 live obj hs t i)
  show ?case
  proof (cases "i < length hs \<and> slot_busy live (hs ! i)")
    case True
    then have "allocate_from live obj hs t (Suc i) = (h, hs')"
      using "1.prems"(1)
      by (subst (asm) allocate_from.simps) (auto simp: not_busy_expired slot_busy_def)
    then show ?thesis
      using True "1.IH" [OF _ refl] by (fastforce simp: not_busy_expired slot_busy_def)
  next
    case False
    then show ?thesis
      using "1.prems" allocate_from.simps [of live obj hs t i]
      by (auto simp: Let_def not_busy_expired split: if_splits)
  qed
qed

lemma allocate_elim [consumes 1, case_names reuse append]:
  assumes "allocate live obj hs t = (h, hs')"
  obtains (reuse) k where "k < length hs" "\<not> slot_busy live (hs ! k)"
      "h = makeHandle t (word_of_nat k) (hepoch (hs ! k) + 1)"
      "hs' = hs[k := (hs ! k)\<lparr>hepoch := hepoch (hs ! k) + 1, hobject := Some obj\<rparr>]"
    | (append) "h = makeHandle t (word_of_nat (length hs)) 0"
      "hs' = hs @ [\<lparr>hobject = Some obj, hepoch = 0\<rparr>]"
  using allocate_from_cases [of live obj hs t 0 h hs'] assms
  by (auto simp: allocate_def)

lemma get_eq_Some:
  "get live h hs = Some p \<longleftrightarrow>
     unat (getIndex h) < length hs
     \<and> hepoch (hs ! unat (getIndex h)) AND kEpochMask = getEpoch h
     \<and> hobject (hs ! unat (getIndex h)) = Some p \<and> live p"
  by (auto simp: get_def Let_def slot_lock_eq_Some)

lemma allocate_type: "allocate live obj hs t = (h, hs') \<Longrightarrow> getType h = type_code t"
  by (erule allocate_elim) simp_all

lemma allocate_get:
  assumes "allocate live obj hs t = (h, hs')" "live obj" "length hs < 2 ^ 32"
  shows "get live h hs' = Some obj"
  using assms by (elim allocate_elim) (auto simp: get_eq_Some nth_append)

lemma epoch_succ_neq: "(e + 1) AND kEpochMask \<noteq> e AND kEpochMask"
proof
  assume "(e + 1) AND kEpochMask = e AND kEpochMask"
  then have "take_bit 20 (e + 1) = take_bit 20 e"
    by (simp add: kEpochMask_def mask_numerals take_bit_eq_mask)
  then have "bit (e + 1) 0 = bit e 0"
    by (metis bit_take_bit_iff zero_less_numeral)
  then show False
    by (simp add: bit_0)
qed

lemma allocate_fresh:
  assumes "allocate live obj hs t = (h, hs')" "length hs < 2 ^ 32"
  shows "get live' h hs = None"
  using assms epoch_succ_neq
  by (elim allocate_elim) (auto simp: get_def Let_def epoch_succ_neq [symmetric])

lemma allocate_keeps:
  assumes "allocate live obj hs t = (h, hs')" "get live h' hs = Some p"
  shows "get live h' hs' = Some p"
  using assms
proof (cases rule: allocate_elim)
  case (reuse k)
  then have "unat (getIndex h') \<noteq> k"
    using assms(2) by (auto simp: get_eq_Some slot_busy_def)
  then show ?thesis
    using assms(2) reuse(4) by (simp add: get_eq_Some)
qed (auto simp: get_eq_Some nth_append)

lemma allocate_length:
  "allocate live obj hs t = (h, hs') \<Longrightarrow> length hs' \<le> Suc (length hs)"
  by (erule allocate_elim) simp_all

lemma release_get_self:
  assumes "get live h hs = Some p"
  shows "fst (release h hs)" "get live' h (snd (release h hs)) = None"
proof -
  have slot: "unat (getIndex h) < length hs"
      "hepoch (hs ! unat (getIndex h)) AND kEpochMask = getEpoch h"
    using assms by (simp_all add: get_eq_Some)
  then show "fst (release h hs)"
    by (simp add: release_def Let_def)
  show "get live' h (snd (release h hs)) = None"
    using slot by (simp add: release_def get_def Let_def slot_lock_def)
qed

lemma release_get_other:
  assumes "getIndex h' \<noteq> getIndex h" "get live h' hs = Some p"
  shows "get live h' (snd (release h hs)) = Some p"
  using assms by (auto simp: get_eq_Some release_def Let_def word_unat_eq_iff)

section \<open>The contract of a handle space\<close>

text \<open>Handles for a list of objects, made in order.\<close>

fun make_all :: "(objid \<Rightarrow> 'm \<Rightarrow> u64 \<times> 'm) \<Rightarrow> objid list \<Rightarrow> 'm \<Rightarrow> u64 list \<times> 'm" where
  "make_all mk [] m = ([], m)"
| "make_all mk (p # ps) m =
     (let (h, m) = mk p m; (hs, m) = make_all mk ps m in (h # hs, m))"

text \<open>
  What a client of the manager relies on. \<open>make\<close> gives an object a handle, \<open>lookup\<close> resolves
  one, \<open>room\<close> says that the table still has an index to give.
\<close>

locale handle_space =
  fixes make :: "(objid \<Rightarrow> bool) \<Rightarrow> objid \<Rightarrow> 'm \<Rightarrow> u64 \<times> 'm"
    and lookup :: "(objid \<Rightarrow> bool) \<Rightarrow> u64 \<Rightarrow> 'm \<Rightarrow> objid option"
    and room :: "nat \<Rightarrow> 'm \<Rightarrow> bool"
  assumes make_lookup: "make live obj m = (h, m') \<Longrightarrow> live obj \<Longrightarrow> room 1 m \<Longrightarrow> lookup live h m' = Some obj"
    and make_fresh: "make live obj m = (h, m') \<Longrightarrow> room 1 m \<Longrightarrow> lookup live' h m = None"
    and make_keeps: "make live obj m = (h, m') \<Longrightarrow> lookup live h' m = Some p \<Longrightarrow> lookup live h' m' = Some p"
    and make_room: "make live obj m = (h, m') \<Longrightarrow> room (Suc n) m \<Longrightarrow> room n m'"
    and make_positive: "make live obj m = (h, m') \<Longrightarrow> h \<noteq> 0 \<and> 0 \<le> sint h"
    and room_mono: "room n m \<Longrightarrow> k \<le> n \<Longrightarrow> room k m"
    and lookup_live: "lookup live h m = Some p \<Longrightarrow> live p"
begin

lemma make_all_keeps:
  "make_all (make live) ps m = (hs, m') \<Longrightarrow> lookup live h m = Some p \<Longrightarrow> lookup live h m' = Some p"
  by (induction ps arbitrary: m hs) (auto split: prod.splits dest: make_keeps)

lemma make_all_resolve:
  assumes "make_all (make live) ps m = (hs, m')" "\<forall>p \<in> set ps. live p" "room (length ps) m"
  shows "map (\<lambda>h. lookup live h m') hs = map Some ps"
  using assms
proof (induction ps arbitrary: m hs)
  case (Cons p ps)
  obtain h m1 hs1 where step: "make live p m = (h, m1)" "make_all (make live) ps m1 = (hs1, m')"
    and hs: "hs = h # hs1"
    using Cons.prems(1) by (auto split: prod.splits)
  have "room 1 m" and "room (length ps) m1"
    using Cons.prems(3) room_mono make_room [OF step(1)] by auto
  then have "lookup live h m' = Some p"
    using Cons.prems(2) make_all_keeps [OF step(2) make_lookup [OF step(1)]] by simp
  then show ?case
    using Cons.IH [OF step(2)] Cons.prems(2) \<open>room (length ps) m1\<close> by (simp add: hs)
qed simp

lemma make_all_fresh:
  assumes "make_all (make live) ps m = (hs, m')" "room (length ps) m" "lookup live h m = Some p"
  shows "h \<notin> set hs"
  using assms
proof (induction ps arbitrary: m hs)
  case (Cons q ps)
  obtain g m1 hs1 where step: "make live q m = (g, m1)" "make_all (make live) ps m1 = (hs1, m')"
    and hs: "hs = g # hs1"
    using Cons.prems(1) by (auto split: prod.splits)
  have "room 1 m" "room (length ps) m1"
    using Cons.prems(2) room_mono make_room [OF step(1)] by auto
  then show ?case
    using Cons.IH [OF step(2)] make_fresh [OF step(1)] make_keeps [OF step(1)] Cons.prems(3)
    by (auto simp: hs)
qed simp

lemma make_all_distinct:
  assumes "make_all (make live) ps m = (hs, m')" "\<forall>p \<in> set ps. live p" "room (length ps) m"
  shows "distinct hs"
  using assms
proof (induction ps arbitrary: m hs)
  case (Cons p ps)
  obtain h m1 hs1 where step: "make live p m = (h, m1)" "make_all (make live) ps m1 = (hs1, m')"
    and hs: "hs = h # hs1"
    using Cons.prems(1) by (auto split: prod.splits)
  have room: "room 1 m" "room (length ps) m1"
    using Cons.prems(3) room_mono make_room [OF step(1)] by auto
  then have "lookup live h m1 = Some p"
    using Cons.prems(2) make_lookup [OF step(1)] by simp
  then show ?case
    using Cons.IH [OF step(2)] Cons.prems(2) room make_all_fresh [OF step(2)] by (simp add: hs)
qed simp

end

locale releasable_handle_space = handle_space make lookup room
  for make :: "(objid \<Rightarrow> bool) \<Rightarrow> objid \<Rightarrow> 'm \<Rightarrow> u64 \<times> 'm" and lookup and room +
  fixes release_handle :: "u64 \<Rightarrow> 'm \<Rightarrow> bool \<times> 'm"
  assumes release_lookup: "lookup live h m = Some p \<Longrightarrow> release_handle h m = (ok, m') \<Longrightarrow> ok \<and> lookup live' h m' = None"
    and release_keeps: "lookup live h m = Some p \<Longrightarrow> lookup live h' m = Some q \<Longrightarrow> p \<noteq> q \<Longrightarrow>
           release_handle h m = (ok, m') \<Longrightarrow> lookup live h' m' = Some q"
begin

lemma make_then_release:
  assumes "make live obj m = (h, m1)" "live obj" "room 1 m" "release_handle h m1 = (ok, m2)"
  shows "ok \<and> lookup live' h m2 = None"
    and "lookup live h' m = Some q \<Longrightarrow> q \<noteq> obj \<Longrightarrow> lookup live h' m2 = Some q"
proof -
  have made: "lookup live h m1 = Some obj"
    using assms by (auto intro: make_lookup)
  show "ok \<and> lookup live' h m2 = None"
    using release_lookup [OF made assms(4)] .
  show "lookup live h' m2 = Some q" if "lookup live h' m = Some q" "q \<noteq> obj"
    using release_keeps [OF made _ _ assms(4)] make_keeps [OF assms(1)] that by auto
qed

end

section \<open>The manager as handle spaces\<close>

text \<open>The five families of entry points, by the kind of object they serve.\<close>

fun manager_table :: "handle_type \<Rightarrow> manager \<Rightarrow> handle_table" where
  "manager_table TypeTask m = taskHandles m"
| "manager_table TypeThread m = threadHandles m"
| "manager_table TypePort m = portHandles m"
| "manager_table TypeVmRegion m = vmObjectHandles m"
| "manager_table TypeIrqHandler m = irqHandles m"

fun manager_make :: "handle_type \<Rightarrow> (objid \<Rightarrow> bool) \<Rightarrow> objid \<Rightarrow> manager \<Rightarrow> u64 \<times> manager" where
  "manager_make TypeTask = makeTaskHandle"
| "manager_make TypeThread = makeThreadHandle"
| "manager_make TypePort = makePortHandle"
| "manager_make TypeVmRegion = makeVmObjectHandle"
| "manager_make TypeIrqHandler = makeIrqHandle"

fun manager_get :: "handle_type \<Rightarrow> (objid \<Rightarrow> bool) \<Rightarrow> u64 \<Rightarrow> manager \<Rightarrow> objid option" where
  "manager_get TypeTask = getTask"
| "manager_get TypeThread = getThread"
| "manager_get TypePort = getPort"
| "manager_get TypeVmRegion = getVmObject"
| "manager_get TypeIrqHandler = getIrq"

fun manager_release :: "handle_type \<Rightarrow> u64 \<Rightarrow> manager \<Rightarrow> bool \<times> manager" where
  "manager_release TypeTask = releaseTaskHandle"
| "manager_release TypeThread = releaseThreadHandle"
| "manager_release TypePort = releasePortHandle"
| "manager_release TypeVmRegion = releaseVmObjectHandle"
| "manager_release TypeIrqHandler = releaseIrqHandle"

definition manager_room :: "handle_type \<Rightarrow> nat \<Rightarrow> manager \<Rightarrow> bool" where
  "manager_room t n m = (length (manager_table t m) + n \<le> 2 ^ 32)"

lemmas manager_make_defs = makeTaskHandle_def makeThreadHandle_def makePortHandle_def
  makeVmObjectHandle_def makeIrqHandle_def
lemmas manager_get_defs = getTask_def getThread_def getPort_def getVmObject_def getIrq_def
lemmas manager_release_defs = releaseTaskHandle_def releaseThreadHandle_def releasePortHandle_def
  releaseVmObjectHandle_def releaseIrqHandle_def

lemma manager_make_table:
  assumes "manager_make t live obj m = (h, m')"
  shows "allocate live obj (manager_table t m) t = (h, manager_table t m')"
    and "s \<noteq> t \<Longrightarrow> manager_table s m' = manager_table s m"
proof -
  show "allocate live obj (manager_table t m) t = (h, manager_table t m')"
    using assms by (cases t) (auto simp: manager_make_defs split: prod.splits)
  show "manager_table s m' = manager_table s m" if "s \<noteq> t"
    using assms that by (cases t; cases s) (auto simp: manager_make_defs split: prod.splits)
qed

lemma manager_get_table:
  "manager_get t live h m =
     (if getType h = type_code t then get live h (manager_table t m) else None)"
  by (cases t) (simp_all add: manager_get_defs)

lemma manager_release_table:
  assumes "manager_release t h m = (ok, m')"
  shows "manager_table t m' = manager_table t m \<and> \<not> ok
       \<or> release h (manager_table t m) = (ok, manager_table t m')"
    and "s \<noteq> t \<Longrightarrow> manager_table s m' = manager_table s m"
proof -
  show "manager_table t m' = manager_table t m \<and> \<not> ok
       \<or> release h (manager_table t m) = (ok, manager_table t m')"
    using assms
    by (cases t) (auto simp: manager_release_defs split: prod.splits if_splits)
  show "manager_table s m' = manager_table s m" if "s \<noteq> t"
    using assms that
    by (cases t; cases s) (auto simp: manager_release_defs split: prod.splits if_splits)
qed

lemma manager_release_typed:
  assumes "manager_release t h m = (ok, m')" "t \<noteq> TypeIrqHandler"
  shows "if getType h = type_code t then release h (manager_table t m) = (ok, manager_table t m')
         else \<not> ok \<and> m' = m"
  using assms by (cases t) (auto simp: manager_release_defs split: prod.splits)

lemma manager_handle_space:
  "handle_space (manager_make t) (manager_get t) (manager_room t)"
proof
  fix live live' :: "objid \<Rightarrow> bool" and obj m h m' h' p n
  assume make: "manager_make t live obj m = (h, m')"
  note tbl = manager_make_table(1) [OF make]
  show "manager_get t live h m' = Some obj" if "live obj" "manager_room t 1 m"
    using that allocate_get [OF tbl] allocate_type [OF tbl]
    by (simp add: manager_get_table manager_room_def)
  show "manager_get t live' h m = None" if "manager_room t 1 m"
    using that allocate_fresh [OF tbl] by (simp add: manager_get_table manager_room_def)
  show "manager_get t live h' m' = Some p" if "manager_get t live h' m = Some p"
    using that allocate_keeps [OF tbl] by (auto simp: manager_get_table split: if_splits)
  show "manager_room t n m'" if "manager_room t (Suc n) m"
    using that allocate_length [OF tbl] by (simp add: manager_room_def)
  show "h \<noteq> 0 \<and> 0 \<le> sint h"
    using tbl by (cases rule: allocate_elim) (simp_all add: makeHandle_nonzero makeHandle_msb)
qed (auto simp: manager_room_def manager_get_table get_eq_Some split: if_splits)

lemma manager_releasable:
  assumes "t \<noteq> TypeIrqHandler"
  shows "releasable_handle_space (manager_make t) (manager_get t) (manager_room t)
           (manager_release t)"
proof -
  have "releasable_handle_space_axioms (manager_get t) (manager_release t)"
  proof
    fix live live' :: "objid \<Rightarrow> bool" and h h' m m' p q ok
    assume get: "manager_get t live h m = Some p" and rel: "manager_release t h m = (ok, m')"
    have tbl: "release h (manager_table t m) = (ok, manager_table t m')"
      using manager_release_typed [OF rel assms] get
      by (simp add: manager_get_table split: if_splits)
    show "ok \<and> manager_get t live' h m' = None"
      using get tbl release_get_self(1) [of live h "manager_table t m" p]
        release_get_self(2) [of live h "manager_table t m" p live']
      by (simp add: manager_get_table split: if_splits)
    show "manager_get t live h' m' = Some q" if "manager_get t live h' m = Some q" "p \<noteq> q"
      using get tbl that release_get_other [of h' h live "manager_table t m" q]
      by (force simp: manager_get_table get_eq_Some split: if_splits)
  qed
  then show ?thesis
    using manager_handle_space by (simp add: releasable_handle_space_def)
qed

interpretation task_space: releasable_handle_space
  makeTaskHandle getTask "manager_room TypeTask" releaseTaskHandle
  using manager_releasable [of TypeTask] by simp

interpretation thread_space: releasable_handle_space
  makeThreadHandle getThread "manager_room TypeThread" releaseThreadHandle
  using manager_releasable [of TypeThread] by simp

interpretation port_space: releasable_handle_space
  makePortHandle getPort "manager_room TypePort" releasePortHandle
  using manager_releasable [of TypePort] by simp

interpretation vm_space: releasable_handle_space
  makeVmObjectHandle getVmObject "manager_room TypeVmRegion" releaseVmObjectHandle
  using manager_releasable [of TypeVmRegion] by simp

interpretation irq_space: handle_space
  makeIrqHandle getIrq "manager_room TypeIrqHandler"
  using manager_handle_space [of TypeIrqHandler] by simp

section \<open>Histories\<close>

text \<open>
  A history is any sequence of calls into the manager; the set of live objects is given with
  each call that looks at it.
\<close>

datatype manager_call =
    CallMake handle_type "objid \<Rightarrow> bool" objid
  | CallRelease handle_type u64

fun manager_call_step :: "manager_call \<Rightarrow> manager \<Rightarrow> manager" where
  "manager_call_step (CallMake t live obj) m = snd (manager_make t live obj m)"
| "manager_call_step (CallRelease t h) m = snd (manager_release t h m)"

definition manager_run :: "manager_call list \<Rightarrow> manager \<Rightarrow> manager" where
  "manager_run calls m = foldl (\<lambda>m c. manager_call_step c m) m calls"

text \<open>Tables never shrink and a slot's epoch counts up, by at most one per call.\<close>

definition epochs_advance :: "nat \<Rightarrow> handle_table \<Rightarrow> handle_table \<Rightarrow> bool" where
  "epochs_advance k hs hs' \<longleftrightarrow> length hs \<le> length hs' \<and>
     (\<forall>i < length hs. \<exists>d \<le> k. hepoch (hs' ! i) = hepoch (hs ! i) + word_of_nat d)"

lemma epochs_advance_refl [simp]: "epochs_advance k hs hs"
  by (auto simp: epochs_advance_def intro!: exI [of _ "0 :: nat"])

lemma epochs_advance_update:
  "hepoch s = hepoch (hs ! i) + 1 \<Longrightarrow> epochs_advance (Suc 0) hs (hs[i := s])"
  unfolding epochs_advance_def
proof (intro conjI allI impI)
  fix j assume "hepoch s = hepoch (hs ! i) + 1" "j < length hs"
  then show "\<exists>d \<le> Suc 0. hepoch (hs[i := s] ! j) = hepoch (hs ! j) + word_of_nat d"
    by (intro exI [of _ "if i = j then Suc 0 else 0"]) (auto simp: nth_list_update)
qed simp

lemma epochs_advance_append: "epochs_advance k hs (hs @ xs)"
  by (auto simp: epochs_advance_def nth_append intro!: exI [of _ "0 :: nat"])

lemma epochs_advance_trans:
  assumes "epochs_advance j hs hs1" "epochs_advance k hs1 hs2"
  shows "epochs_advance (j + k) hs hs2"
  unfolding epochs_advance_def
proof (intro conjI allI impI)
  show "length hs \<le> length hs2"
    using assms by (simp add: epochs_advance_def)
  fix i assume "i < length hs"
  with assms obtain d d' where d: "d \<le> j" "hepoch (hs1 ! i) = hepoch (hs ! i) + word_of_nat d"
    "d' \<le> k" "hepoch (hs2 ! i) = hepoch (hs1 ! i) + word_of_nat d'"
    unfolding epochs_advance_def by (meson less_le_trans)
  then show "\<exists>d \<le> j + k. hepoch (hs2 ! i) = hepoch (hs ! i) + word_of_nat d"
    by (intro exI [of _ "d + d'"]) (simp add: algebra_simps)
qed

lemma allocate_epochs:
  "allocate live obj hs t = (h, hs') \<Longrightarrow> epochs_advance (Suc 0) hs hs'"
  by (erule allocate_elim) (simp_all add: epochs_advance_update epochs_advance_append)

lemma release_epochs: "release h hs = (ok, hs') \<Longrightarrow> epochs_advance (Suc 0) hs hs'"
  by (auto simp: release_def Let_def epochs_advance_update split: if_splits)

lemma manager_call_epochs:
  "epochs_advance (Suc 0) (manager_table s m) (manager_table s (manager_call_step c m))"
proof (cases c)
  case (CallMake t live obj)
  obtain h m' where make: "manager_make t live obj m = (h, m')"
    by force
  then show ?thesis
    using CallMake allocate_epochs [OF manager_make_table(1) [OF make]]
      manager_make_table(2) [OF make] by (cases "s = t") auto
next
  case (CallRelease t h)
  obtain ok m' where rel: "manager_release t h m = (ok, m')"
    by force
  then show ?thesis
    using CallRelease manager_release_table [OF rel] release_epochs
    by (cases "s = t") auto
qed

lemma manager_run_epochs:
  "epochs_advance (length calls) (manager_table s m) (manager_table s (manager_run calls m))"
proof (induction calls rule: rev_induct)
  case (snoc c calls)
  then show ?case
    using epochs_advance_trans [OF snoc manager_call_epochs [of s _ c]]
    by (simp add: manager_run_def)
qed (simp add: manager_run_def)

lemma epoch_advance_neq:
  assumes "0 < d" "d < 2 ^ 20"
  shows "(e + word_of_nat d) AND kEpochMask \<noteq> e AND kEpochMask"
proof
  assume "(e + word_of_nat d) AND kEpochMask = e AND kEpochMask"
  then have "take_bit 20 (e + word_of_nat d) = take_bit 20 e"
    by (simp add: kEpochMask_def mask_numerals take_bit_eq_mask)
  then have "take_bit 20 (unat (e + word_of_nat d)) = take_bit 20 (unat e)"
    by (metis unsigned_take_bit_eq)
  moreover have "d < 2 ^ 64"
    using assms(2) by simp
  ultimately have "(unat e + d) mod 2 ^ 20 = unat e mod 2 ^ 20"
    by (simp add: take_bit_eq_mod unat_word_ariths unat_of_nat_u64 mod_mod_cancel)
  then have "d mod 2 ^ 20 = 0"
    by (metis add_diff_cancel_left' dvd_imp_mod_0 le_add1 mod_eq_dvd_iff_nat)
  then show False
    using assms by simp
qed

lemma release_epoch:
  assumes "get live h hs = Some p" "release h hs = (ok, hs')"
  shows "unat (getIndex h) < length hs'"
    and "hepoch (hs' ! unat (getIndex h)) = hepoch (hs ! unat (getIndex h)) + 1"
    and "hepoch (hs ! unat (getIndex h)) AND kEpochMask = getEpoch h"
  using assms by (auto simp: get_eq_Some release_def Let_def split: if_splits)

lemma get_stale:
  assumes "i = unat (getIndex h)" "i < length hs" "epochs_advance k hs hs'"
    and "hepoch (hs ! i) = e + 1" "e AND kEpochMask = getEpoch h" "k < 2 ^ 20 - 1"
  shows "get live h hs' = None"
proof -
  obtain d where "d \<le> k" "hepoch (hs' ! i) = e + 1 + word_of_nat d"
    using assms(2-4) unfolding epochs_advance_def by metis
  then have "hepoch (hs' ! i) AND kEpochMask \<noteq> e AND kEpochMask"
    using epoch_advance_neq [of "Suc d" e] assms(6) by (simp add: add.assoc)
  then show ?thesis
    using assms(1,5) by (simp add: get_def Let_def)
qed

section \<open>Properties\<close>

text \<open>
  C16: unpacking inverts packing: a handle built from a type, a table index below 2^32 and an
  epoch gives back the type code, the index, and the epoch modulo 2^20. It is never the
  invalid handle 0 and never negative as a system call result, where negative means an error.
\<close>

theorem handle_roundtrip:
  assumes "i < 2 ^ 32"
  shows "unat (getIndex (makeHandle t (word_of_nat i) e)) = i
       \<and> getEpoch (makeHandle t (word_of_nat i) e) = e AND kEpochMask
       \<and> getType (makeHandle t (word_of_nat i) e) = type_code t
       \<and> makeHandle t (word_of_nat i) e \<noteq> 0
       \<and> 0 \<le> sint (makeHandle t (word_of_nat i) e)"
  using assms by (simp_all add: makeHandle_nonzero makeHandle_msb)

theorem handle_roundtrip_witness:
  "unat (getIndex (makeHandle TypePort (word_of_nat 70000) 0x100005)) = 70000
   \<and> getEpoch (makeHandle TypePort (word_of_nat 70000) 0x100005) = 5"
  using handle_roundtrip [of 70000 TypePort "0x100005"] by (simp add: kEpochMask_def)

text \<open>
  C5: handles made for a list of live objects, of any of the five kinds and in any state of the
  manager with room for them, are pairwise distinct and each resolves to its object; a handle
  that resolved before still resolves to the same object.
\<close>

theorem made_handles_resolve:
  assumes "make_all (manager_make t live) objs m = (hs, m')" "\<forall>p \<in> set objs. live p"
    and "manager_room t (length objs) m"
  shows "map (\<lambda>h. manager_get t live h m') hs = map Some objs \<and> distinct hs
       \<and> (\<forall>h p. manager_get t live h m = Some p \<longrightarrow> manager_get t live h m' = Some p \<and> h \<notin> set hs)"
proof -
  note space = manager_handle_space [of t]
  show ?thesis
    using handle_space.make_all_resolve [OF space assms]
      handle_space.make_all_distinct [OF space assms]
      handle_space.make_all_keeps [OF space assms(1)]
      handle_space.make_all_fresh [OF space assms(1,3)]
    by blast
qed

theorem made_handles_resolve_witness:
  "map (\<lambda>h. getPort (\<lambda>_. True) h (snd (make_all (manager_make TypePort (\<lambda>_. True)) [7, 9] manager_init)))
     (fst (make_all (manager_make TypePort (\<lambda>_. True)) [7, 9] manager_init)) = [Some 7, Some 9]"
  using made_handles_resolve [of TypePort "\<lambda>_. True" "[7, 9]" manager_init
      "fst (make_all (manager_make TypePort (\<lambda>_. True)) [7, 9] manager_init)"
      "snd (make_all (manager_make TypePort (\<lambda>_. True)) [7, 9] manager_init)"]
  by (simp add: manager_room_def manager_init_def)

text \<open>
  C1: once a handle of a task, thread, port or mapping has been released it resolves to nothing,
  whatever is made or released afterwards and whatever objects are live, for as long as fewer
  than 2^20 - 1 calls have changed the tables since.
\<close>

theorem released_handle_stays_dead:
  assumes "manager_get t live h m = Some p" "t \<noteq> TypeIrqHandler"
    and "manager_release t h m = (ok, m1)" "length calls < 2 ^ 20 - 1"
  shows "ok \<and> manager_get t live' h (manager_run calls m1) = None"
proof -
  have get: "get live h (manager_table t m) = Some p" and "getType h = type_code t"
    using assms(1) by (simp_all add: manager_get_table split: if_splits)
  then have rel: "release h (manager_table t m) = (ok, manager_table t m1)"
    using manager_release_typed [OF assms(3,2)] by simp
  have "get live' h (manager_table t (manager_run calls m1)) = None"
    using get_stale [OF refl release_epoch(1) [OF get rel] manager_run_epochs
        release_epoch(2,3) [OF get rel] assms(4)] .
  then show ?thesis
    using release_get_self(1) [OF get] rel by (simp add: manager_get_table)
qed

theorem released_handle_stays_dead_witness:
  "getPort (\<lambda>_. True) (makeHandle TypePort 0 0)
     (manager_run [CallMake TypePort (\<lambda>_. True) 8]
        (snd (releasePortHandle (makeHandle TypePort 0 0)
          (snd (makePortHandle (\<lambda>_. True) 7 manager_init))))) = None"
  using released_handle_stays_dead [of TypePort "\<lambda>_. True" "makeHandle TypePort 0 0"
      "snd (makePortHandle (\<lambda>_. True) 7 manager_init)" 7
      "fst (releasePortHandle (makeHandle TypePort 0 0) (snd (makePortHandle (\<lambda>_. True) 7 manager_init)))"
      "snd (releasePortHandle (makeHandle TypePort 0 0) (snd (makePortHandle (\<lambda>_. True) 7 manager_init)))"
      "[CallMake TypePort (\<lambda>_. True) 8]" "\<lambda>_. True"]
  by (simp add: makePortHandle_def allocate_def allocate_from.simps getPort_def get_def
      manager_init_def getIndex_makeHandle slot_lock_def)



text \<open>
  The release function for interrupt handlers refuses every handle that was made for an
  interrupt handler, and instead acts on port handles: a port handle whose index and epoch
  match a live interrupt handler's slot is accepted and leaves the handler's own handle dead.
\<close>

theorem releaseIrqHandle_wrong_kind:
  assumes "makeIrqHandle live obj m = (h, m')" "live obj" "length (irqHandles m) < 2 ^ 32"
  shows "releaseIrqHandle h m'' = (False, m'')
       \<and> (\<exists>i e. h = makeHandle TypeIrqHandler i e
            \<and> fst (releaseIrqHandle (makeHandle TypePort i e) m')
            \<and> getIrq live h (snd (releaseIrqHandle (makeHandle TypePort i e) m')) = None)"
proof -
  have alloc: "allocate live obj (irqHandles m) TypeIrqHandler = (h, irqHandles m')"
    using manager_make_table(1) [of TypeIrqHandler live obj m h m'] assms(1) by simp
  then obtain i e where h: "h = makeHandle TypeIrqHandler i e"
    by (auto elim!: allocate_elim)
  have get: "get live h (irqHandles m') = Some obj"
    using allocate_get [OF alloc] assms(2,3) by simp
  moreover have "release (makeHandle TypePort i e) (irqHandles m') = release h (irqHandles m')"
    by (simp add: h release_def getIndex_makeHandle Let_def)
  ultimately have "fst (releaseIrqHandle (makeHandle TypePort i e) m')
      \<and> getIrq live h (snd (releaseIrqHandle (makeHandle TypePort i e) m')) = None"
    using release_get_self [OF get]
    by (simp add: h releaseIrqHandle_def getIrq_def split_beta)
  then show ?thesis
    using h by (auto simp: releaseIrqHandle_def)
qed

theorem releaseIrqHandle_wrong_kind_witness:
  "releaseIrqHandle (fst (makeIrqHandle (\<lambda>_. True) 7 manager_init))
     (snd (makeIrqHandle (\<lambda>_. True) 7 manager_init))
   = (False, snd (makeIrqHandle (\<lambda>_. True) 7 manager_init))"
  using releaseIrqHandle_wrong_kind [of "\<lambda>_. True" 7 manager_init
      "fst (makeIrqHandle (\<lambda>_. True) 7 manager_init)"
      "snd (makeIrqHandle (\<lambda>_. True) 7 manager_init)"
      "snd (makeIrqHandle (\<lambda>_. True) 7 manager_init)"]
  by (simp add: manager_init_def)

end
