(* ===== verification/Rt_Vector.thy ===== *)
theory Rt_Vector
  imports Kush_Prelude
begin

text \<open>
  The kernel's growable array, \<^verbatim>\<open>kernel/src/runtime/Vector.h\<close>. The state is the pair of
  counters and the backing storage with all of its slots, also the ones past the last element,
  because \<^verbatim>\<open>insert\<close> reads one of those. The theory shows that, as long as
  the heap serves their requests, the operations other than \<^verbatim>\<open>insert\<close> implement those of lists, and
  what \<^verbatim>\<open>insert\<close> does instead of inserting.

  Counters are natural numbers; the sizes in bytes that are asked of the heap are computed with 64
  bits and wrap. What the vector gets from its surroundings is a parameter: the size of an item, what
  a freshly grown block of the heap holds, and which requests the heap serves; one that it does not
  serve gives a null pointer, which the code does not test. \<open>dflt\<close> is the default constructed item
  \<^verbatim>\<open>T()\<close>. Running an item's destructor leaves the bytes of its slot in place.
\<close>

section \<open>State and operations\<close>

record 'a vec =
  numAllocated :: nat
  numReserved :: nat
  storage :: "'a list option"

definition vec_empty :: "'a vec" where
  "vec_empty = \<lparr>numAllocated = 0, numReserved = 0, storage = None\<rparr>"

text \<open>Access to a slot of the raw array.\<close>

definition slot_load :: "'a list \<Rightarrow> nat \<Rightarrow> 'a outcome" where
  "slot_load st i = (if i < length st then Inr (st ! i) else Inl BadAccess)"

definition slot_store :: "'a list \<Rightarrow> nat \<Rightarrow> 'a \<Rightarrow> 'a list outcome" where
  "slot_store st i x = (if i < length st then Inr (st[i := x]) else Inl BadAccess)"

definition vec_storage :: "'a vec \<Rightarrow> 'a list outcome" where
  "vec_storage v = (case storage v of None \<Rightarrow> Inl NullDeref | Some st \<Rightarrow> Inr st)"

text \<open>
  \<^verbatim>\<open>mem::Heap::realloc\<close> for \<^verbatim>\<open>nItems * sizeof(T)\<close> bytes: null, or a block with as many slots as fit, in
  which the common prefix survives and the rest is uninitialised.
\<close>

record 'a vec_env =
  itemSize :: u64
  fresh :: "nat \<Rightarrow> 'a"
  serves :: "u64 \<Rightarrow> bool"

definition heap_realloc :: "'a vec_env \<Rightarrow> 'a list option \<Rightarrow> nat \<Rightarrow> 'a list option" where
  "heap_realloc env st nItems =
     (let newSz = of_nat nItems * itemSize env in
      if \<not> serves env newSz then None
      else let n = unat newSz div unat (itemSize env); old = (case st of None \<Rightarrow> [] | Some xs \<Rightarrow> xs)
           in Some (take n old @ map (fresh env) [length old..<n]))"

text \<open>Construct default items in the slots from \<open>i\<close> up to \<open>n\<close>.\<close>

fun fill_default :: "'a \<Rightarrow> nat \<Rightarrow> nat \<Rightarrow> 'a list \<Rightarrow> 'a list outcome" where
  "fill_default dflt i 0 st = Inr st"
| "fill_default dflt i (Suc k) st =
     obind (slot_store st i dflt) (fill_default dflt (Suc i) k)"

definition reserve :: "'a vec_env \<Rightarrow> nat \<Rightarrow> 'a vec \<Rightarrow> 'a vec" where
  "reserve env nItems v =
     (let v = (if nItems < numAllocated v then v\<lparr>numAllocated := nItems\<rparr> else v)
      in v\<lparr>storage := heap_realloc env (storage v) nItems, numReserved := nItems\<rparr>)"

definition resize :: "'a vec_env \<Rightarrow> 'a \<Rightarrow> nat \<Rightarrow> 'a vec \<Rightarrow> 'a vec outcome" where
  "resize env dflt nItems v =
     (if nItems = numAllocated v then Inr v
      else if nItems < numAllocated v then Inr (v\<lparr>numAllocated := nItems\<rparr>)
      else
        let v = (if nItems > numReserved v
                 then v\<lparr>storage := heap_realloc env (storage v) nItems,
                        numReserved := nItems\<rparr>
                 else v)
        in obind (vec_storage v) (\<lambda>st.
           obind (fill_default dflt (numAllocated v) (nItems - numAllocated v) st) (\<lambda>st.
           Inr (v\<lparr>storage := Some st, numAllocated := nItems\<rparr>))))"

definition ensureStorage :: "'a vec_env \<Rightarrow> 'a \<Rightarrow> 'a vec \<Rightarrow> 'a vec outcome" where
  "ensureStorage env dflt v =
     (if storage v = None \<or> numReserved v = numAllocated v then
        let nItems = numReserved v + 64; v = v\<lparr>storage := heap_realloc env (storage v) nItems\<rparr>
        in obind (vec_storage v) (\<lambda>st.
           obind (fill_default dflt (numReserved v) 64 st) (\<lambda>st.
           Inr (v\<lparr>storage := Some st, numReserved := nItems\<rparr>)))
      else Inr v)"

definition push_back :: "'a vec_env \<Rightarrow> 'a \<Rightarrow> 'a \<Rightarrow> 'a vec \<Rightarrow> 'a vec outcome" where
  "push_back env dflt x v =
     obind (ensureStorage env dflt v) (\<lambda>v.
     obind (vec_storage v) (\<lambda>st.
     obind (slot_store st (numAllocated v) dflt) (\<lambda>st.
     obind (slot_store st (numAllocated v) x) (\<lambda>st.
     Inr (v\<lparr>storage := Some st, numAllocated := numAllocated v + 1\<rparr>)))))"

text \<open>The loop \<^verbatim>\<open>for(j = toMove - 1; j; j--)\<close> of \<^verbatim>\<open>insert\<close>, which stops before \<open>j = 0\<close>.\<close>

fun insert_shift :: "nat \<Rightarrow> nat \<Rightarrow> 'a list \<Rightarrow> 'a list outcome" where
  "insert_shift index 0 st = Inr st"
| "insert_shift index (Suc j) st =
     obind (slot_load st (index + Suc j)) (\<lambda>x.
     obind (slot_store st (index + Suc j + 1) x) (\<lambda>st.
     insert_shift index j st))"

definition vec_insert :: "'a vec_env \<Rightarrow> 'a \<Rightarrow> nat \<Rightarrow> 'a \<Rightarrow> 'a vec \<Rightarrow> 'a vec outcome" where
  "vec_insert env dflt index x v =
     require (index \<le> numAllocated v) ''vector access out of bounds'' (
     if index = numAllocated v then push_back env dflt x v
     else
       obind (ensureStorage env dflt v) (\<lambda>v.
       obind (vec_storage v) (\<lambda>st.
       let toMove = numAllocated v - index in
       obind (if toMove \<noteq> 0 then insert_shift index (toMove - 1) st else Inr st) (\<lambda>st.
       obind (slot_store st index x) (\<lambda>st.
       Inr (v\<lparr>storage := Some st, numAllocated := numAllocated v + 1\<rparr>))))))"

text \<open>The loop \<^verbatim>\<open>for(j = 0; j < toMove; j++)\<close> of \<^verbatim>\<open>remove\<close>, with \<open>k\<close> rounds to go.\<close>

fun remove_shift :: "nat \<Rightarrow> nat \<Rightarrow> nat \<Rightarrow> 'a list \<Rightarrow> 'a list outcome" where
  "remove_shift index j 0 st = Inr st"
| "remove_shift index j (Suc k) st =
     obind (slot_load st (index + j + 1)) (\<lambda>x.
     obind (slot_store st (index + j) x) (\<lambda>st.
     remove_shift index (Suc j) k st))"

definition vec_remove :: "nat \<Rightarrow> 'a vec \<Rightarrow> 'a vec outcome" where
  "vec_remove index v =
     require (index < numAllocated v) ''vector access out of bounds'' (
     let toMove = (numAllocated v - index) - 1 in
     obind (vec_storage v) (\<lambda>st.
     obind (if toMove \<noteq> 0 then remove_shift index 0 toMove st else Inr st) (\<lambda>st.
     Inr (v\<lparr>storage := Some st, numAllocated := numAllocated v - 1\<rparr>))))"

definition clear :: "'a vec \<Rightarrow> 'a vec" where
  "clear v = v\<lparr>numAllocated := 0\<rparr>"

definition pop_back :: "'a vec \<Rightarrow> 'a vec outcome" where
  "pop_back v =
     require (numAllocated v \<noteq> 0) ''cannot pop empty vector'' (
     Inr (v\<lparr>numAllocated := numAllocated v - 1\<rparr>))"

definition vec_size :: "'a vec \<Rightarrow> nat" where
  "vec_size v = numAllocated v"

definition vec_capacity :: "'a vec \<Rightarrow> nat" where
  "vec_capacity v = numReserved v"

definition vec_is_empty :: "'a vec \<Rightarrow> bool" where
  "vec_is_empty v = (numAllocated v = 0)"

definition vec_back :: "'a vec \<Rightarrow> 'a outcome" where
  "vec_back v = require (numAllocated v \<noteq> 0) ''cannot get back element of empty vector'' (
     obind (vec_storage v) (\<lambda>st. slot_load st (numAllocated v - 1)))"

definition vec_front :: "'a vec \<Rightarrow> 'a outcome" where
  "vec_front v = require (numAllocated v \<noteq> 0) ''cannot get front element of empty vector'' (
     obind (vec_storage v) (\<lambda>st. slot_load st 0))"

text \<open>Indexing as a read, and as the target of an assignment.\<close>

definition vec_at :: "nat \<Rightarrow> 'a vec \<Rightarrow> 'a outcome" where
  "vec_at index v = require (index < numAllocated v) ''vector access out of bounds'' (
     obind (vec_storage v) (\<lambda>st. slot_load st index))"

definition vec_set :: "nat \<Rightarrow> 'a \<Rightarrow> 'a vec \<Rightarrow> 'a vec outcome" where
  "vec_set index x v = require (index < numAllocated v) ''vector access out of bounds'' (
     obind (vec_storage v) (\<lambda>st.
     obind (slot_store st index x) (\<lambda>st. Inr (v\<lparr>storage := Some st\<rparr>))))"

text \<open>The iterator: an index with the vector it walks.\<close>

definition iter_next :: "'a vec \<Rightarrow> nat \<Rightarrow> nat outcome" where
  "iter_next v i = require (i + 1 \<le> numAllocated v) ''cannot increment iterator past end''
     (Inr (i + 1))"

text \<open>\<^verbatim>\<open>for(auto &x : vec) ...\<close>: from \<^verbatim>\<open>begin\<close> until the index equals that of \<^verbatim>\<open>end\<close>.\<close>

function iter_loop :: "('a \<Rightarrow> 's \<Rightarrow> 's) \<Rightarrow> 'a vec \<Rightarrow> nat \<Rightarrow> 's \<Rightarrow> 's outcome" where
  "iter_loop f v i s =
     (if i = numAllocated v then Inr s
      else obind (vec_storage v) (\<lambda>st.
           obind (slot_load st i) (\<lambda>x.
           obind (iter_next v i) (\<lambda>i'. iter_loop f v i' (f x s)))))"
  by pat_completeness auto
termination
  by (relation "measure (\<lambda>(f, v, i, s). numAllocated v - i)") (auto simp: iter_next_def)

declare iter_loop.simps [simp del]

section \<open>Invariant and abstraction\<close>

definition vec_ok :: "'a vec \<Rightarrow> bool" where
  "vec_ok v \<longleftrightarrow> numAllocated v \<le> numReserved v \<and>
     (case storage v of None \<Rightarrow> numReserved v = 0 | Some st \<Rightarrow> length st = numReserved v)"

definition vec_list :: "'a vec \<Rightarrow> 'a list" where
  "vec_list v = (case storage v of None \<Rightarrow> [] | Some st \<Rightarrow> take (numAllocated v) st)"

lemma vec_list_length [simp]: "vec_ok v \<Longrightarrow> length (vec_list v) = numAllocated v"
  by (auto simp: vec_ok_def vec_list_def split: option.splits)

text \<open>The heap serves requests for up to \<open>n\<close> items, whose size in bytes does not wrap.\<close>

definition grants :: "'a vec_env \<Rightarrow> nat \<Rightarrow> bool" where
  "grants env n \<longleftrightarrow> itemSize env \<noteq> 0 \<and> n * unat (itemSize env) < 2 ^ 64
     \<and> (\<forall>m \<le> n. serves env (of_nat m * itemSize env))"

lemma grants_mono:
  assumes "grants env n" "m \<le> n"
  shows "grants env m"
proof -
  have "m * unat (itemSize env) \<le> n * unat (itemSize env)"
    using assms(2) by simp
  then have "m * unat (itemSize env) < 2 ^ 64"
    using assms(1) unfolding grants_def by (blast intro: le_less_trans)
  then show ?thesis
    using assms unfolding grants_def by auto
qed

lemma heap_realloc_grants:
  assumes "grants env n"
  shows "heap_realloc env st n = Some (let old = (case st of None \<Rightarrow> [] | Some xs \<Rightarrow> xs) in take n old @ map (fresh env) [length old..<n])"
proof -
  have pos: "0 < unat (itemSize env)" and small: "n * unat (itemSize env) < 2 ^ 64"
    using assms by (simp_all add: grants_def unat_gt_0)
  have "n * 1 \<le> n * unat (itemSize env)"
    by (rule mult_le_mono2) (use pos in simp)
  then have n: "n < 2 ^ 64"
    using le_less_trans [OF _ small, of n] by simp
  have "unat (of_nat n * itemSize env) = n * unat (itemSize env)"
    using n small by (simp add: unat_word_ariths(2) unat_of_nat)
  then show ?thesis
    using assms pos by (simp add: heap_realloc_def grants_def Let_def)
qed

lemma heap_realloc_length:
  "grants env n \<Longrightarrow> heap_realloc env st n = Some st' \<Longrightarrow> length st' = n"
  by (auto simp: heap_realloc_grants split: option.splits)

lemma heap_realloc_take:
  assumes "grants env n" "k \<le> n" "k \<le> length st" "heap_realloc env (Some st) n = Some st'"
  shows "take k st' = take k st"
proof -
  have "st' = take n st @ map (fresh env) [length st..<n]"
    using assms(4) heap_realloc_grants [OF assms(1), of "Some st"] by simp
  then show ?thesis
    using assms(2,3) by (simp add: min_def)
qed

lemma fill_default_spec:
  "i + k \<le> length st \<Longrightarrow>
   \<exists>st'. fill_default dflt i k st = Inr st' \<and> length st' = length st \<and>
     (\<forall>m < length st. st' ! m = (if i \<le> m \<and> m < i + k then dflt else st ! m))"
proof (induction k arbitrary: i st)
  case (Suc k)
  then show ?case
    using Suc.IH [of "Suc i" "st[i := dflt]"]
    by (auto simp: slot_store_def nth_list_update)
qed auto

lemma insert_shift_spec:
  "index + j + 1 < length st \<Longrightarrow>
   \<exists>st'. insert_shift index j st = Inr st' \<and> length st' = length st \<and>
     (\<forall>m < length st. st' ! m = (if index + 1 < m \<and> m \<le> index + 1 + j then st ! (m - 1) else st ! m))"
proof (induction j arbitrary: st)
  case (Suc j)
  then show ?case
    using Suc.IH [of "st[index + Suc j + 1 := st ! (index + Suc j)]"]
    by (auto simp: slot_store_def slot_load_def nth_list_update le_Suc_eq)
qed auto

lemma remove_shift_spec:
  "index + j + k < length st \<Longrightarrow>
   \<exists>st'. remove_shift index j k st = Inr st' \<and> length st' = length st \<and>
     (\<forall>m < length st. st' ! m =
        (if index + j \<le> m \<and> m < index + j + k then st ! (m + 1) else st ! m))"
proof (induction k arbitrary: j st)
  case (Suc k)
  then show ?case
    using Suc.IH [of "Suc j" "st[index + j := st ! (index + j + 1)]"]
    by (auto simp: slot_store_def slot_load_def nth_list_update not_less_eq_eq dest: le_antisym)
qed auto

lemma ensureStorage_spec:
  assumes "vec_ok v" "grants env (numAllocated v + 64)"
  shows "\<exists>v' st. ensureStorage env dflt v = Inr v' \<and> vec_ok v' \<and> vec_list v' = vec_list v
       \<and> numAllocated v' = numAllocated v \<and> storage v' = Some st \<and> numAllocated v < length st"
proof (cases "storage v = None \<or> numReserved v = numAllocated v")
  case True
  then have r: "numReserved v = numAllocated v"
    using assms(1) by (auto simp: vec_ok_def)
  let ?n = "numReserved v + 64"
  let ?old = "case storage v of None \<Rightarrow> [] | Some xs \<Rightarrow> xs"
  let ?st = "take ?n ?old @ map (fresh env) [length ?old..<?n]"
  have re: "heap_realloc env (storage v) ?n = Some ?st"
    using heap_realloc_grants [OF assms(2), of "storage v"] by (simp add: r Let_def)
  have len: "length ?st = ?n"
    by (simp split: option.split)
  obtain st where st: "fill_default dflt (numReserved v) 64 ?st = Inr st" "length st = ?n"
    "\<forall>m < ?n. st ! m = (if numReserved v \<le> m \<and> m < ?n then dflt else ?st ! m)"
    using fill_default_spec [of "numReserved v" 64 ?st dflt] unfolding len by auto
  have "take (numAllocated v) st = vec_list v"
    using assms(1) st r
    by (auto simp: vec_ok_def vec_list_def nth_append min_def split: option.splits intro!: nth_equalityI)
  moreover have "ensureStorage env dflt v = Inr (v\<lparr>storage := Some st, numReserved := ?n\<rparr>)"
    using True re st(1) by (simp add: ensureStorage_def vec_storage_def Let_def)
  ultimately show ?thesis
    using st(2) r by (intro exI [of _ "v\<lparr>storage := Some st, numReserved := ?n\<rparr>"] exI [of _ st]) (simp add: vec_ok_def vec_list_def)
next
  case False
  then show ?thesis
    using assms(1) by (auto simp: ensureStorage_def vec_ok_def)
qed

lemma push_back_spec:
  assumes "vec_ok v" "grants env (numAllocated v + 64)"
  shows "\<exists>v'. push_back env dflt x v = Inr v' \<and> vec_ok v' \<and> vec_list v' = vec_list v @ [x]"
proof -
  obtain v1 st where v1: "ensureStorage env dflt v = Inr v1" "vec_ok v1" "vec_list v1 = vec_list v"
    "numAllocated v1 = numAllocated v" "storage v1 = Some st" "numAllocated v < length st"
    using ensureStorage_spec [OF assms] by metis
  then show ?thesis
    by (auto simp: push_back_def vec_storage_def slot_store_def vec_ok_def vec_list_def
        take_Suc_update)
qed

lemma vec_insert_spec:
  assumes "vec_ok v" "i < numAllocated v" "grants env (numAllocated v + 64)"
  shows "\<exists>v' y. vec_insert env dflt i x v = Inr v' \<and> vec_ok v'
       \<and> vec_list v' = take i (vec_list v) @ [x, y] @ drop (Suc i) (vec_list v)
       \<and> (Suc i < numAllocated v \<longrightarrow> y = vec_list v ! Suc i)"
proof -
  obtain v1 st where v1: "ensureStorage env dflt v = Inr v1" "vec_ok v1" "vec_list v1 = vec_list v"
    "numAllocated v1 = numAllocated v" "storage v1 = Some st" "numAllocated v < length st"
    using ensureStorage_spec [OF assms(1,3)] by metis
  define n where "n = numAllocated v"
  have xs: "vec_list v = take n st"
    using v1 by (simp add: vec_list_def n_def)
  have n: "i < n" "n < length st" "i + (n - i - 1) + 1 < length st"
    using assms(2) v1(6) by (auto simp: n_def)
  obtain st1 where st1: "insert_shift i (n - i - 1) st = Inr st1" "length st1 = length st"
    "\<forall>m < length st. st1 ! m = (if i + 1 < m \<and> m \<le> n then st ! (m - 1) else st ! m)"
    using insert_shift_spec [OF n(3)] n(1) by auto
  let ?v = "v1\<lparr>storage := Some (st1[i := x]), numAllocated := n + 1\<rparr>"
  have "vec_insert env dflt i x v = Inr ?v"
    using assms(2) v1 st1(1,2) n
    by (simp add: vec_insert_def vec_storage_def slot_store_def n_def Let_def)
  moreover have "vec_ok ?v"
    using v1(2,5) st1(2) n by (simp add: vec_ok_def)
  moreover have "take (n + 1) (st1[i := x]) = take i (take n st) @ [x, st ! Suc i] @ drop (Suc i) (take n st)"
  proof (rule nth_equalityI)
    fix m assume "m < length (take (n + 1) (st1[i := x]))"
    then have m: "m < n + 1" by simp
    consider "m \<le> i" | "m = Suc i" | k where "m = Suc (Suc i + k)"
      using less_imp_Suc_add [of "Suc i" m] by (cases "m \<le> i"; cases "m = Suc i") auto
    then show "take (n + 1) (st1[i := x]) ! m = (take i (take n st) @ [x, st ! Suc i] @ drop (Suc i) (take n st)) ! m"
      by cases (use m n st1(2,3) in \<open>auto simp: nth_append nth_list_update nth_Cons' min_def\<close>)
  qed (use n st1(2) in auto)
  ultimately show ?thesis
    using n xs by (intro exI [of _ ?v] exI [of _ "st ! Suc i"]) (auto simp: vec_list_def n_def)
qed

lemma vec_remove_spec:
  assumes "vec_ok v" "i < numAllocated v"
  shows "\<exists>v'. vec_remove i v = Inr v' \<and> vec_ok v'
       \<and> vec_list v' = take i (vec_list v) @ drop (Suc i) (vec_list v)"
proof -
  obtain st where st: "storage v = Some st" "length st = numReserved v"
    using assms by (auto simp: vec_ok_def split: option.splits)
  define n where "n = numAllocated v"
  have n: "i < n" "n \<le> length st" "i + 0 + (n - i - 1) < length st"
    using assms st by (auto simp: n_def vec_ok_def)
  obtain st1 where st1: "remove_shift i 0 (n - i - 1) st = Inr st1" "length st1 = length st"
    "\<forall>m < length st. st1 ! m = (if i \<le> m \<and> m < n - 1 then st ! (m + 1) else st ! m)"
    using remove_shift_spec [OF n(3)] n(1) by auto
  have "take (n - 1) st1 = take i (take n st) @ drop (Suc i) (take n st)"
    using n st1 by (intro nth_equalityI) (auto simp: nth_append min_def)
  moreover have "st1 = st" if "n - i - 1 = 0"
    using that st1(1) by simp
  ultimately show ?thesis
    using assms n st st1
    by (intro exI [of _ "v\<lparr>storage := Some st1, numAllocated := n - 1\<rparr>"])
      (auto simp: vec_remove_def vec_storage_def vec_ok_def vec_list_def n_def Let_def)
qed

lemma vec_at_spec: "vec_ok v \<Longrightarrow> i < numAllocated v \<Longrightarrow> vec_at i v = Inr (vec_list v ! i)"
  by (auto simp: vec_at_def vec_storage_def slot_load_def vec_list_def vec_ok_def split: option.splits)

lemma vec_set_spec:
  assumes "vec_ok v" "i < numAllocated v"
  shows "\<exists>v'. vec_set i x v = Inr v' \<and> vec_ok v' \<and> vec_list v' = (vec_list v)[i := x]"
proof -
  obtain st where st: "storage v = Some st"
    using assms by (auto simp: vec_ok_def split: option.splits)
  then show ?thesis
    using assms by (intro exI [of _ "v\<lparr>storage := Some (st[i := x])\<rparr>"])
      (auto simp: vec_set_def vec_storage_def slot_store_def vec_list_def vec_ok_def take_update_swap)
qed

lemma pop_back_spec:
  assumes "vec_ok v" "vec_list v \<noteq> []"
  shows "\<exists>v'. pop_back v = Inr v' \<and> vec_ok v' \<and> vec_list v' = butlast (vec_list v)"
  using assms by (auto simp: pop_back_def vec_list_def vec_ok_def butlast_take split: option.splits)

lemma resize_spec:
  assumes "vec_ok v" "grants env n"
  shows "\<exists>v'. resize env dflt n v = Inr v' \<and> vec_ok v'
       \<and> vec_list v' = take n (vec_list v) @ replicate (n - numAllocated v) dflt"
proof (cases "n > numAllocated v")
  case False
  then show ?thesis
    using assms(1) by (auto simp: resize_def vec_ok_def vec_list_def min_def split: option.splits)
next
  case True
  obtain re where re: "heap_realloc env (storage v) n = Some re" "length re = n"
    using heap_realloc_grants [OF assms(2), of "storage v"] heap_realloc_length [OF assms(2)] by blast
  have "take (numAllocated v) re = vec_list v"
    using heap_realloc_take [OF assms(2), of "numAllocated v"] re(1) True assms(1)
    by (auto simp: vec_ok_def vec_list_def split: option.splits)
  moreover define st where "st = (if n > numReserved v then re else the (storage v))"
  moreover define r where "r = max n (numReserved v)"
  ultimately have st: "length st = r" "take (numAllocated v) st = vec_list v"
    using True assms(1) re(2) by (auto simp: vec_ok_def vec_list_def split: option.splits)
  obtain st1 where st1: "fill_default dflt (numAllocated v) (n - numAllocated v) st = Inr st1"
    "length st1 = length st"
    "\<forall>m < length st. st1 ! m = (if numAllocated v \<le> m \<and> m < n then dflt else st ! m)"
    using fill_default_spec [of "numAllocated v" "n - numAllocated v" st dflt] True st(1)
    by (auto simp: r_def)
  have "take n st1 = vec_list v @ replicate (n - numAllocated v) dflt"
  proof (rule nth_equalityI)
    show "length (take n st1) = length (vec_list v @ replicate (n - numAllocated v) dflt)"
      using True st(1) st1(2) assms(1) by (simp add: r_def)
    fix m assume "m < length (take n st1)"
    then have m: "m < n" "m < length st" using st1(2) by auto
    then show "take n st1 ! m = (vec_list v @ replicate (n - numAllocated v) dflt) ! m"
      using st1(3) assms(1) unfolding st(2) [symmetric] by (auto simp: nth_append st(1))
  qed
  moreover have "resize env dflt n v = Inr (v\<lparr>storage := Some st1, numReserved := r, numAllocated := n\<rparr>)"
    using True assms(1) st1(1) re(1)
    by (auto simp: resize_def Let_def vec_storage_def st_def r_def vec_ok_def max_def split: option.splits)
  moreover have "vec_list (v\<lparr>storage := Some st1, numReserved := r, numAllocated := n\<rparr>) = take n st1"
    "vec_ok (v\<lparr>storage := Some st1, numReserved := r, numAllocated := n\<rparr>)"
    using st(1) st1(2) by (simp_all add: vec_list_def vec_ok_def r_def)
  moreover have "take n (vec_list v) = vec_list v"
    using True assms(1) by simp
  ultimately show ?thesis
    by simp
qed

lemma vec_insert_end: "vec_insert env dflt (numAllocated v) x v = push_back env dflt x v"
  by (simp add: vec_insert_def require_def)

lemma vec_past_end:
  "\<not> i < numAllocated v \<Longrightarrow> vec_at i v = Inl (Panic ''vector access out of bounds'')"
  "\<not> i < numAllocated v \<Longrightarrow> vec_remove i v = Inl (Panic ''vector access out of bounds'')"
  by (simp_all add: vec_at_def vec_remove_def require_def)

lemma resize_refused:
  "vec_capacity v < n \<Longrightarrow> vec_ok v \<Longrightarrow> \<not> serves env (of_nat n * itemSize env) \<Longrightarrow> resize env dflt n v = Inl NullDeref"
  by (auto simp: resize_def vec_capacity_def vec_ok_def heap_realloc_def vec_storage_def Let_def)

lemma iter_loop_spec:
  "vec_ok v \<Longrightarrow> i \<le> numAllocated v \<Longrightarrow> iter_loop f v i s = Inr (fold f (drop i (vec_list v)) s)"
proof (induction f v i s rule: iter_loop.induct)
  case (1 f v i s)
  show ?case
  proof (cases "i = numAllocated v")
    case False
    with 1 have i: "i < numAllocated v" by simp
    then obtain st where st: "vec_storage v = Inr st" "slot_load st i = Inr (vec_list v ! i)"
      using 1(2) by (auto simp: vec_storage_def slot_load_def vec_ok_def vec_list_def
          split: option.splits)
    have "drop i (vec_list v) = vec_list v ! i # drop (Suc i) (vec_list v)"
      using i 1(2) by (simp add: Cons_nth_drop_Suc)
    then show ?thesis
      using "1.IH" [OF False st] 1(2) i st
      by (subst iter_loop.simps) (simp add: iter_next_def)
  qed (subst iter_loop.simps, simp add: 1)
qed

section \<open>The contract of an array list\<close>

text \<open>
  What the kernel's users of a vector (the handle tables, the heap of deadlines, the frame
  arrays of memory objects) rely on, with the two compound uses they make of it: filling it
  item by item, and exchanging two items.
\<close>

definition arr_swap ::
  "(nat \<Rightarrow> 'v \<Rightarrow> 'a outcome) \<Rightarrow> (nat \<Rightarrow> 'a \<Rightarrow> 'v \<Rightarrow> 'v outcome) \<Rightarrow> nat \<Rightarrow> nat \<Rightarrow> 'v \<Rightarrow> 'v outcome" where
  "arr_swap at set_at i j v =
     obind (at i v) (\<lambda>tmp. obind (at j v) (\<lambda>b. obind (set_at i b v) (set_at j tmp)))"

locale array_list =
  fixes ok :: "'v \<Rightarrow> bool" and items :: "'v \<Rightarrow> 'a list" and room :: "nat \<Rightarrow> 'v \<Rightarrow> bool"
    and push :: "'a \<Rightarrow> 'v \<Rightarrow> 'v outcome" and pop :: "'v \<Rightarrow> 'v outcome"
    and at :: "nat \<Rightarrow> 'v \<Rightarrow> 'a outcome" and set_at :: "nat \<Rightarrow> 'a \<Rightarrow> 'v \<Rightarrow> 'v outcome"
  assumes push_items: "ok v \<Longrightarrow> room (Suc n) v \<Longrightarrow> \<exists>v'. push x v = Inr v' \<and> ok v' \<and> items v' = items v @ [x] \<and> room n v'"
    and pop_items: "ok v \<Longrightarrow> items v \<noteq> [] \<Longrightarrow> \<exists>v'. pop v = Inr v' \<and> ok v' \<and> items v' = butlast (items v)"
    and at_items: "ok v \<Longrightarrow> i < length (items v) \<Longrightarrow> at i v = Inr (items v ! i)"
    and set_at_items: "ok v \<Longrightarrow> i < length (items v) \<Longrightarrow>
           \<exists>v'. set_at i x v = Inr v' \<and> ok v' \<and> items v' = (items v)[i := x]"
begin

lemma fill_items: "ok v \<Longrightarrow> room (length xs) v \<Longrightarrow> \<exists>v'. put_all push xs v = Inr v' \<and> ok v' \<and> items v' = items v @ xs"
proof (induction xs arbitrary: v)
  case (Cons x xs)
  obtain v1 where "push x v = Inr v1" "ok v1" "items v1 = items v @ [x]" "room (length xs) v1"
    using push_items [of v "length xs" x] Cons.prems by auto
  then show ?case
    using Cons.IH [of v1] by auto
qed simp

lemma swap_items:
  assumes "ok v" "i < length (items v)" "j < length (items v)"
  shows "\<exists>v'. arr_swap at set_at i j v = Inr v' \<and> ok v'
       \<and> items v' = (items v)[i := items v ! j, j := items v ! i]
       \<and> mset (items v') = mset (items v)"
proof -
  obtain v1 where v1: "set_at i (items v ! j) v = Inr v1" "ok v1" "items v1 = (items v)[i := items v ! j]"
    using set_at_items [OF assms(1,2)] by blast
  then obtain v2 where v2: "set_at j (items v ! i) v1 = Inr v2" "ok v2"
    "items v2 = (items v)[i := items v ! j, j := items v ! i]"
    using set_at_items [of v1 j "items v ! i"] assms(3) by auto
  then show ?thesis
    using assms v1 by (auto simp: arr_swap_def at_items mset_swap)
qed

end

text \<open>The heap serves what appending \<open>n\<close> more items asks for.\<close>

definition vec_room :: "'a vec_env \<Rightarrow> nat \<Rightarrow> 'a vec \<Rightarrow> bool" where
  "vec_room env n v = grants env (numAllocated v + n + 64)"

lemma push_back_room:
  assumes "vec_ok v" "vec_room env (Suc n) v"
  shows "\<exists>v'. push_back env dflt x v = Inr v' \<and> vec_ok v' \<and> vec_list v' = vec_list v @ [x] \<and> vec_room env n v'"
proof -
  have "grants env (numAllocated v + 64)"
    by (rule grants_mono [OF assms(2) [unfolded vec_room_def]]) simp
  then obtain v' where v': "push_back env dflt x v = Inr v'" "vec_ok v'" "vec_list v' = vec_list v @ [x]"
    using push_back_spec [OF assms(1)] by blast
  have "numAllocated v' = Suc (numAllocated v)"
    using vec_list_length [OF v'(2)] vec_list_length [OF assms(1)] v'(3) by simp
  then show ?thesis
    using v' assms(2) by (simp add: vec_room_def)
qed

interpretation vec_array: array_list vec_ok vec_list "vec_room env" "push_back env dflt" pop_back vec_at vec_set
  for env :: "'a vec_env" and dflt :: 'a
  by unfold_locales (simp_all add: push_back_room pop_back_spec vec_at_spec vec_set_spec)

section \<open>Properties\<close>


text \<open>Items of eight bytes on a heap that serves every request.\<close>

definition ample_env :: "nat vec_env" where
  "ample_env = \<lparr>itemSize = 8, fresh = (\<lambda>_. 0), serves = (\<lambda>_. True)\<rparr>"

lemma ample_grants: "n < 2 ^ 61 \<Longrightarrow> grants ample_env n"
  by (simp add: grants_def ample_env_def)


text \<open>
  Exchanging two items through reads and writes of a well-formed vector permutes its items
  and nothing else.
\<close>

theorem vector_swap_permutes:
  assumes "vec_ok v" "i < vec_size v" "j < vec_size v"
  shows "\<exists>v'. arr_swap vec_at vec_set i j v = Inr v' \<and> vec_ok v'
       \<and> vec_list v' = (vec_list v)[i := vec_list v ! j, j := vec_list v ! i]
       \<and> mset (vec_list v') = mset (vec_list v)"
  using vec_array.swap_items [of v i j] assms by (simp add: vec_size_def)

definition vec_example :: "nat vec" where
  "vec_example = \<lparr>numAllocated = 3, numReserved = 4, storage = Some [1, 2, 3, 77]\<rparr>"

theorem vector_swap_permutes_witness:
  "\<exists>v'. arr_swap vec_at vec_set 0 2 vec_example = Inr v' \<and> vec_list v' = [3, 2, 1]"
  using vector_swap_permutes [of vec_example 0 2]
  by (auto simp: vec_example_def vec_ok_def vec_list_def vec_size_def)

text \<open>
  Inserting before the end of a vector overwrites the item that was there instead of moving
  it up: the slot after the new item keeps its old content, which is a second copy of the next
  item, or whatever the first unused slot held when the insertion is before the last item.
\<close>

theorem vec_insert_overwrites:
  assumes "vec_ok v" "i < vec_size v" "grants env (vec_size v + 64)"
  shows "\<exists>v' y. vec_insert env dflt i x v = Inr v' \<and> vec_ok v'
       \<and> vec_list v' = take i (vec_list v) @ [x, y] @ drop (Suc i) (vec_list v)
       \<and> (Suc i < vec_size v \<longrightarrow> y = vec_list v ! Suc i)"
  using vec_insert_spec [OF assms(1)] assms(2,3) by (simp add: vec_size_def)

theorem vec_insert_overwrites_witness:
  "\<exists>v' y. vec_insert ample_env 0 0 9 vec_example = Inr v' \<and> vec_list v' = [9, 2, 2, 3] \<and> y = (2 :: nat)"
  using vec_insert_overwrites [of vec_example 0 ample_env 0 9] ample_grants
  by (auto simp: vec_example_def vec_ok_def vec_list_def vec_size_def)

end
