(* ===== verification/Rt_MinHeap.thy ===== *)
theory Rt_MinHeap
  imports Rt_Vector
begin

text \<open>
  The binary heap over a vector, \<^verbatim>\<open>kernel/src/runtime/MinHeap.h\<close>, in which a scheduler keeps
  its deadlines. The operations are written over the vector operations of \<^verbatim>\<open>Rt_Vector\<close>, as the
  code has them; a second group of functions does the same on plain lists, and the theory shows
  that the first refine the second and that the second implement a priority queue.

  The items are compared by a key, the expiration time of a deadline.
\<close>

section \<open>Operations\<close>

definition Parent :: "nat \<Rightarrow> nat" where "Parent i = (i - 1) div 2"
definition Left :: "nat \<Rightarrow> nat" where "Left i = 2 * i + 1"
definition Right :: "nat \<Rightarrow> nat" where "Right i = 2 * i + 2"

abbreviation vec_swap :: "nat \<Rightarrow> nat \<Rightarrow> 'a vec \<Rightarrow> 'a vec outcome" where
  "vec_swap \<equiv> arr_swap vec_at vec_set"

lemma Parent_less [simp]: "0 < i \<Longrightarrow> Parent i < i"
  by (simp add: Parent_def)

lemma Parent_bound [simp]: "i < n \<Longrightarrow> Parent i < n"
  by (simp add: Parent_def)

lemma vec_set_size: "vec_set i x v = Inr v' \<Longrightarrow> numAllocated v' = numAllocated v"
  by (auto simp: vec_set_def)

lemma vec_swap_size: "vec_swap i j v = Inr v' \<Longrightarrow> numAllocated v' = numAllocated v"
  by (auto simp: arr_swap_def dest!: vec_set_size)

function heapifyUp :: "('a \<Rightarrow> 'k::linorder) \<Rightarrow> nat \<Rightarrow> 'a vec \<Rightarrow> 'a vec outcome" where
  "heapifyUp key i v =
     (if i = 0 then Inr v
      else obind (vec_at (Parent i) v) (\<lambda>p. obind (vec_at i v) (\<lambda>x.
           if key p > key x
           then obind (vec_swap i (Parent i) v) (heapifyUp key (Parent i))
           else Inr v)))"
  by pat_completeness auto
termination
  by (relation "measure (\<lambda>(key, i, v). i)") auto

text \<open>The comparisons of \<^verbatim>\<open>heapifyDown\<close> with a child that may not exist.\<close>

definition smaller_child :: "('a \<Rightarrow> 'k::linorder) \<Rightarrow> nat \<Rightarrow> nat \<Rightarrow> 'a vec \<Rightarrow> nat outcome" where
  "smaller_child key child i v =
     (if child < vec_size v
      then obind (vec_at child v) (\<lambda>c. obind (vec_at i v) (\<lambda>x.
           Inr (if key c < key x then child else i)))
      else Inr i)"

function heapifyDown :: "('a \<Rightarrow> 'k::linorder) \<Rightarrow> nat \<Rightarrow> 'a vec \<Rightarrow> 'a vec outcome" where
  "heapifyDown key i v =
     obind (smaller_child key (Left i) i v) (\<lambda>smallest.
     obind (smaller_child key (Right i) smallest v) (\<lambda>smallest.
     if smallest \<noteq> i
     then obind (vec_swap i smallest v) (heapifyDown key smallest)
     else Inr v))"
  by pat_completeness auto
termination
proof (relation "measure (\<lambda>(key, i, v). numAllocated v - i)", goal_cases)
  case (2 key i v l s v')
  then have "numAllocated v' = numAllocated v"
    by (auto dest: vec_swap_size)
  moreover have "i < s" "i < numAllocated v"
    using 2 by (auto simp: smaller_child_def Left_def Right_def vec_size_def split: if_splits)
  ultimately show ?case
    by (simp add: diff_less_mono2)
qed simp

declare heapifyUp.simps [simp del] heapifyDown.simps [simp del]

definition heap_insert ::
  "'a vec_env \<Rightarrow> 'a \<Rightarrow> ('a \<Rightarrow> 'k::linorder) \<Rightarrow> 'a \<Rightarrow> 'a vec \<Rightarrow> 'a vec outcome" where
  "heap_insert env dflt key object v =
     obind (push_back env dflt object v) (\<lambda>v. heapifyUp key (vec_size v - 1) v)"

definition heap_extract :: "('a \<Rightarrow> 'k::linorder) \<Rightarrow> 'a vec \<Rightarrow> 'a vec outcome" where
  "heap_extract key v =
     require (\<not> vec_is_empty v) ''cannot pop min item on empty heap'' (
     obind (vec_back v) (\<lambda>x.
     obind (vec_set 0 x v) (\<lambda>v.
     obind (pop_back v) (\<lambda>v.
     heapifyDown key 0 v))))"

definition heap_min :: "'a vec \<Rightarrow> 'a outcome" where
  "heap_min v = require (\<not> vec_is_empty v) ''cannot peek at min item on empty heap'' (vec_front v)"

definition heap_remove :: "('a \<Rightarrow> 'k::linorder) \<Rightarrow> nat \<Rightarrow> 'a vec \<Rightarrow> 'a vec outcome" where
  "heap_remove key i v =
     obind (vec_at i v) (\<lambda>x.
     obind (vec_back v) (\<lambda>y.
     let down = \<not> (key x > key y) in
     obind (vec_swap i (vec_size v - 1) v) (\<lambda>v.
     obind (pop_back v) (\<lambda>v.
     if down then heapifyDown key i v else heapifyUp key i v))))"

lemma heapifyUp_size: "heapifyUp key i v = Inr v' \<Longrightarrow> numAllocated v' = numAllocated v"
proof (induction key i v rule: heapifyUp.induct)
  case (1 key i v)
  then show ?case
    using heapifyUp.simps [of key i v] by (auto dest: vec_swap_size split: if_splits)
qed

lemma heapifyDown_size: "heapifyDown key i v = Inr v' \<Longrightarrow> numAllocated v' = numAllocated v"
proof (induction key i v rule: heapifyDown.induct)
  case (1 key i v)
  then show ?case
    using heapifyDown.simps [of key i v] by (auto dest: vec_swap_size split: if_splits)
qed

lemma heap_remove_size:
  "heap_remove key i v = Inr v' \<Longrightarrow> numAllocated v' = numAllocated v - 1"
  by (auto simp: heap_remove_def pop_back_def Let_def split: if_splits
      dest!: vec_swap_size heapifyUp_size heapifyDown_size)

text \<open>
  The loop of \<^verbatim>\<open>enumerateObjects\<close>. The callback gets the item and its own state; it answers
  whether to go on, whether to remove the item, and leaves the item and its state changed.
\<close>

function enumerate_loop ::
  "('a \<Rightarrow> 'k::linorder) \<Rightarrow> ('a \<Rightarrow> 's \<Rightarrow> bool \<times> bool \<times> 'a \<times> 's) \<Rightarrow> nat \<Rightarrow> 's \<Rightarrow> 'a vec
   \<Rightarrow> ('s \<times> 'a vec) outcome" where
  "enumerate_loop key callback i s v =
     (if i < vec_size v then
        obind (vec_at i v) (\<lambda>x.
        case callback x s of (cont, rem, x', s) \<Rightarrow>
        obind (vec_set i x' v) (\<lambda>v1.
        obind (if rem then heap_remove key i v1 else Inr v1) (\<lambda>v2.
        if cont then enumerate_loop key callback (if rem then i else i + 1) s v2
        else Inr (s, v2))))
      else Inr (s, v))"
  by pat_completeness auto
termination
  by (relation "measure (\<lambda>(key, callback, i, s, v). numAllocated v - i)")
    (auto simp: vec_size_def dest!: vec_set_size heap_remove_size split: if_splits)

declare enumerate_loop.simps [simp del]

definition enumerateObjects ::
  "('a \<Rightarrow> 'k::linorder) \<Rightarrow> ('a \<Rightarrow> 's \<Rightarrow> bool \<times> bool \<times> 'a \<times> 's) \<Rightarrow> 's \<Rightarrow> 'a vec \<Rightarrow> ('s \<times> 'a vec) outcome" where
  "enumerateObjects key callback s v = enumerate_loop key callback 0 s v"

section \<open>The same on lists\<close>

abbreviation list_swap :: "nat \<Rightarrow> nat \<Rightarrow> 'a list \<Rightarrow> 'a list" where
  "list_swap i j xs \<equiv> xs[i := xs ! j, j := xs ! i]"

function sift_up :: "('a \<Rightarrow> 'k::linorder) \<Rightarrow> nat \<Rightarrow> 'a list \<Rightarrow> 'a list" where
  "sift_up key i xs =
     (if 0 < i \<and> key (xs ! i) < key (xs ! Parent i)
      then sift_up key (Parent i) (list_swap i (Parent i) xs) else xs)"
  by pat_completeness auto
termination
  by (relation "measure (\<lambda>(key, i, xs). i)") auto

definition smallest_of :: "('a \<Rightarrow> 'k::linorder) \<Rightarrow> nat \<Rightarrow> 'a list \<Rightarrow> nat" where
  "smallest_of key i xs =
     (let s = (if Left i < length xs \<and> key (xs ! Left i) < key (xs ! i) then Left i else i)
      in if Right i < length xs \<and> key (xs ! Right i) < key (xs ! s) then Right i else s)"

lemma smallest_of_bounds:
  "smallest_of key i xs \<noteq> i \<Longrightarrow> i < smallest_of key i xs \<and> smallest_of key i xs < length xs
     \<and> Parent (smallest_of key i xs) = i \<and> key (xs ! smallest_of key i xs) < key (xs ! i)"
  by (auto simp: smallest_of_def Let_def Left_def Right_def Parent_def split: if_splits)

function sift_down :: "('a \<Rightarrow> 'k::linorder) \<Rightarrow> nat \<Rightarrow> 'a list \<Rightarrow> 'a list" where
  "sift_down key i xs =
     (let s = smallest_of key i xs
      in if s \<noteq> i then sift_down key s (list_swap i s xs) else xs)"
  by pat_completeness auto
termination
  by (relation "measure (\<lambda>(key, i, xs). length xs - i)")
    (auto dest!: smallest_of_bounds intro: diff_less_mono2)

declare sift_up.simps [simp del] sift_down.simps [simp del]

section \<open>The vector operations refine the list operations\<close>

lemma vec_swap_spec:
  assumes "vec_ok v" "i < numAllocated v" "j < numAllocated v"
  obtains v' where "vec_swap i j v = Inr v'" "vec_ok v'" "numAllocated v' = numAllocated v"
    "vec_list v' = list_swap i j (vec_list v)"
  using vec_array.swap_items [of v i j] assms vec_swap_size by fastforce

lemma heapifyUp_refines:
  "vec_ok v \<Longrightarrow> i < numAllocated v \<Longrightarrow>
   \<exists>v'. heapifyUp key i v = Inr v' \<and> vec_ok v' \<and> vec_list v' = sift_up key i (vec_list v)"
proof (induction i arbitrary: v rule: less_induct)
  case (less i)
  show ?case
  proof (cases "0 < i \<and> key (vec_list v ! i) < key (vec_list v ! Parent i)")
    case True
    then have p: "Parent i < i" by simp
    obtain v1 where v1: "vec_swap i (Parent i) v = Inr v1" "vec_ok v1"
      "numAllocated v1 = numAllocated v" "vec_list v1 = list_swap i (Parent i) (vec_list v)"
      using vec_swap_spec [of v i "Parent i"] less.prems p by auto
    then show ?thesis
      using True p less.IH [OF p, of v1] less.prems
      by (simp add: heapifyUp.simps [of key i] sift_up.simps [of key i] vec_at_spec)
  next
    case False
    then show ?thesis
      using less.prems
      by (cases "i = 0") (simp_all add: heapifyUp.simps [of key i] sift_up.simps [of key i]
          heapifyUp.simps [of key 0] sift_up.simps [of key 0] vec_at_spec)
  qed
qed

lemma smaller_child_spec:
  assumes "vec_ok v" "i < child"
  shows "smaller_child key child i v =
     Inr (if child < numAllocated v \<and> key (vec_list v ! child) < key (vec_list v ! i) then child else i)"
  using assms by (simp add: smaller_child_def vec_size_def vec_at_spec)

lemma heapifyDown_unfold:
  assumes "vec_ok v"
  shows "heapifyDown key i v =
     (let s = smallest_of key i (vec_list v)
      in if s \<noteq> i then obind (vec_swap i s v) (heapifyDown key s) else Inr v)"
proof -
  let ?l = "if Left i < numAllocated v \<and> key (vec_list v ! Left i) < key (vec_list v ! i) then Left i else i"
  have "i < Left i" "?l < Right i"
    by (simp_all add: Left_def Right_def)
  then show ?thesis
    using assms
    by (subst heapifyDown.simps)
      (simp add: smaller_child_spec smallest_of_def Let_def)
qed

lemma heapifyDown_refines:
  "vec_ok v \<Longrightarrow>
   \<exists>v'. heapifyDown key i v = Inr v' \<and> vec_ok v' \<and> vec_list v' = sift_down key i (vec_list v)"
proof (induction "numAllocated v - i" arbitrary: i v rule: less_induct)
  case less
  let ?s = "smallest_of key i (vec_list v)"
  show ?case
  proof (cases "?s = i")
    case False
    note s = smallest_of_bounds [OF this]
    then obtain v1 where v1: "vec_swap i ?s v = Inr v1" "vec_ok v1"
      "numAllocated v1 = numAllocated v" "vec_list v1 = list_swap i ?s (vec_list v)"
      using vec_swap_spec [of v i ?s] less.prems by auto
    have "numAllocated v1 - ?s < numAllocated v - i"
      using s v1(3) less.prems by (simp add: diff_less_mono2)
    then show ?thesis
      using less.hyps [of v1 ?s] v1 False less.prems
      by (simp add: heapifyDown_unfold [OF less.prems] sift_down.simps [of key i] Let_def)
  qed (simp add: less.prems heapifyDown_unfold sift_down.simps)
qed

section \<open>The heap property\<close>

definition heap_ok :: "('a \<Rightarrow> 'k::linorder) \<Rightarrow> 'a list \<Rightarrow> bool" where
  "heap_ok key xs \<longleftrightarrow> (\<forall>i < length xs. 0 < i \<longrightarrow> key (xs ! Parent i) \<le> key (xs ! i))"

text \<open>Everything in order but for the item at \<open>i\<close> towards its parent, or its children.\<close>

definition up_ok :: "('a \<Rightarrow> 'k::linorder) \<Rightarrow> nat \<Rightarrow> 'a list \<Rightarrow> bool" where
  "up_ok key i xs \<longleftrightarrow> (\<forall>j < length xs. 0 < j \<longrightarrow>
     (j \<noteq> i \<longrightarrow> key (xs ! Parent j) \<le> key (xs ! j)) \<and>
     (Parent j = i \<and> 0 < i \<longrightarrow> key (xs ! Parent i) \<le> key (xs ! j)))"

definition down_ok :: "('a \<Rightarrow> 'k::linorder) \<Rightarrow> nat \<Rightarrow> 'a list \<Rightarrow> bool" where
  "down_ok key i xs \<longleftrightarrow> (\<forall>j < length xs. 0 < j \<longrightarrow>
     (Parent j \<noteq> i \<longrightarrow> key (xs ! Parent j) \<le> key (xs ! j)) \<and>
     (Parent j = i \<and> 0 < i \<longrightarrow> key (xs ! Parent i) \<le> key (xs ! j)))"

lemma list_swap_nth:
  "i < length xs \<Longrightarrow> k < length xs \<Longrightarrow> j < length xs \<Longrightarrow>
   list_swap i k xs ! j = (if j = k then xs ! i else if j = i then xs ! k else xs ! j)"
  by (simp add: nth_list_update)

lemma up_ok_step:
  assumes "up_ok key i xs" "i < length xs" "0 < i" "key (xs ! i) < key (xs ! Parent i)"
  shows "up_ok key (Parent i) (list_swap i (Parent i) xs)"
proof -
  define p ys where "p = Parent i" and "ys = list_swap i (Parent i) xs"
  have p: "p < i" "p < length xs" using assms(2,3) by (simp_all add: p_def)
  have nth: "ys ! k = (if k = p then xs ! i else if k = i then xs ! p else xs ! k)"
    if "k < length xs" for k
    using that assms(2) p by (simp add: ys_def p_def nth_list_update)
  have up: "key (xs ! Parent j) \<le> key (xs ! j)" if "j < length xs" "0 < j" "j \<noteq> i" for j
    using assms(1) that unfolding up_ok_def by blast
  have over: "key (xs ! p) \<le> key (xs ! j)" if "j < length xs" "0 < j" "Parent j = i" for j
    using assms(1,3) that unfolding up_ok_def p_def by blast
  have lt: "key (xs ! i) < key (xs ! p)" using assms(4) by (simp add: p_def)
  have *: "key (ys ! Parent j) \<le> key (ys ! j)" if j: "j < length xs" "0 < j" "j \<noteq> p" for j
  proof (cases "j = i")
    case True
    then show ?thesis using lt p assms(2) by (simp add: nth flip: p_def)
  next
    case False
    then show ?thesis
      using j up [OF j(1,2)] over [OF j(1,2)] lt by (auto simp: nth)
  qed
  have "key (ys ! Parent p) \<le> key (ys ! j)" if j: "j < length xs" "0 < j" "Parent j = p" "0 < p" for j
  proof -
    have pp: "key (xs ! Parent p) \<le> key (xs ! p)" "Parent p \<noteq> p" "Parent p \<noteq> i" "Parent p < length xs"
      using up [of p] p j(4) Parent_less [OF j(4)] by auto
    moreover have "j \<noteq> p" using j Parent_less [of j] by auto
    ultimately show ?thesis
      using j up [OF j(1,2)] by (auto simp: nth intro: order_trans)
  qed
  moreover have "length ys = length xs"
    by (simp add: ys_def)
  ultimately have "up_ok key p ys"
    using * unfolding up_ok_def by simp
  then show ?thesis
    by (simp only: p_def ys_def)
qed

lemma sift_up_heap:
  "i < length xs \<Longrightarrow> up_ok key i xs \<Longrightarrow>
   heap_ok key (sift_up key i xs) \<and> mset (sift_up key i xs) = mset xs"
proof (induction key i xs rule: sift_up.induct)
  case (1 key i xs)
  show ?case
  proof (cases "0 < i \<and> key (xs ! i) < key (xs ! Parent i)")
    case True
    let ?ys = "list_swap i (Parent i) xs"
    have "sift_up key i xs = sift_up key (Parent i) ?ys"
      using True by (simp add: sift_up.simps [of key i xs])
    moreover have "up_ok key (Parent i) ?ys"
      using True 1(2,3) up_ok_step by blast
    moreover have "mset ?ys = mset xs" "Parent i < length ?ys"
      using 1(2) by (simp_all add: mset_swap)
    ultimately show ?thesis
      using "1.IH" [OF True] by simp
  next
    case False
    then have "sift_up key i xs = xs"
      by (auto simp: sift_up.simps [of key i xs])
    then show ?thesis
      using False 1(2,3) by (auto simp: up_ok_def heap_ok_def not_less)
  qed
qed

lemma smallest_of_least:
  assumes "Parent j = i" "0 < j" "j < length xs"
  shows "key (xs ! smallest_of key i xs) \<le> key (xs ! j)"
proof -
  have "j = Left i \<or> j = Right i"
    using assms by (auto simp: Parent_def Left_def Right_def)
  then show ?thesis
    using assms(3) by (auto simp: smallest_of_def Let_def not_less)
qed

lemma down_ok_step:
  assumes "down_ok key i xs" "smallest_of key i xs \<noteq> i"
  shows "down_ok key (smallest_of key i xs) (list_swap i (smallest_of key i xs) xs)"
proof -
  define s ys where "s = smallest_of key i xs" and "ys = list_swap i (smallest_of key i xs) xs"
  have s: "i < s" "s < length xs" "Parent s = i" "key (xs ! s) < key (xs ! i)"
    using smallest_of_bounds [OF assms(2)] by (simp_all add: s_def)
  have nth: "ys ! k = (if k = s then xs ! i else if k = i then xs ! s else xs ! k)"
    if "k < length xs" for k
    using that s by (simp add: ys_def s_def nth_list_update)
  have up: "key (xs ! Parent j) \<le> key (xs ! j)" if "j < length xs" "0 < j" "Parent j \<noteq> i" for j
    using assms(1) that unfolding down_ok_def by blast
  have over: "key (xs ! Parent i) \<le> key (xs ! j)" if "j < length xs" "0 < j" "Parent j = i" "0 < i" for j
    using assms(1) that unfolding down_ok_def by blast
  have least: "key (xs ! s) \<le> key (xs ! j)" if "j < length xs" "0 < j" "Parent j = i" for j
    using smallest_of_least [of j i xs key] that by (simp add: s_def)
  have *: "key (ys ! Parent j) \<le> key (ys ! j)" if j: "j < length xs" "0 < j" "Parent j \<noteq> s" for j
  proof (cases "Parent j = i")
    case True
    then show ?thesis using j s least [OF j(1,2)] Parent_less [OF j(2)] by (auto simp: nth)
  next
    case False
    then show ?thesis
      using j s up [OF j(1,2)] over [of s] by (auto simp: nth)
  qed
  have "key (ys ! Parent s) \<le> key (ys ! j)" if j: "j < length xs" "0 < j" "Parent j = s" for j
    using j s up [OF j(1,2)] Parent_less [OF j(2)] by (auto simp: nth)
  moreover have "length ys = length xs"
    by (simp add: ys_def)
  ultimately have "down_ok key s ys"
    using * unfolding down_ok_def by simp
  then show ?thesis
    by (simp only: s_def ys_def)
qed

lemma sift_down_heap:
  "down_ok key i xs \<Longrightarrow>
   heap_ok key (sift_down key i xs) \<and> mset (sift_down key i xs) = mset xs"
proof (induction key i xs rule: sift_down.induct)
  case (1 key i xs)
  let ?s = "smallest_of key i xs"
  show ?case
  proof (cases "?s = i")
    case False
    note s = smallest_of_bounds [OF False]
    have "sift_down key i xs = sift_down key ?s (list_swap i ?s xs)"
      using False by (simp add: sift_down.simps [of key i xs] Let_def)
    moreover have "down_ok key ?s (list_swap i ?s xs)"
      using down_ok_step 1(2) False by blast
    moreover have "mset (list_swap i ?s xs) = mset xs"
      using s by (simp add: mset_swap)
    ultimately show ?thesis
      using "1.IH" [OF refl False] by simp
  next
    case True
    then have "sift_down key i xs = xs"
      by (simp add: sift_down.simps [of key i xs])
    moreover have "key (xs ! Parent j) \<le> key (xs ! j)" if "j < length xs" "0 < j" for j
      using 1(2) that smallest_of_least [of j i xs key] True unfolding down_ok_def
      by (cases "Parent j = i") auto
    ultimately show ?thesis
      by (simp add: heap_ok_def)
  qed
qed

section \<open>Priority queue operations on lists\<close>

definition list_insert :: "('a \<Rightarrow> 'k::linorder) \<Rightarrow> 'a \<Rightarrow> 'a list \<Rightarrow> 'a list" where
  "list_insert key x xs = sift_up key (length xs) (xs @ [x])"

definition list_remove :: "('a \<Rightarrow> 'k::linorder) \<Rightarrow> nat \<Rightarrow> 'a list \<Rightarrow> 'a list" where
  "list_remove key i xs =
     (let ys = butlast (list_swap i (length xs - 1) xs)
      in if key (xs ! i) > key (last xs) then sift_up key i ys else sift_down key i ys)"

lemma heap_ok_min: "heap_ok key xs \<Longrightarrow> i < length xs \<Longrightarrow> key (xs ! 0) \<le> key (xs ! i)"
proof (induction i rule: less_induct)
  case (less i)
  show ?case
  proof (cases "i = 0")
    case False
    then have "key (xs ! 0) \<le> key (xs ! Parent i)"
      using less by simp
    also have "\<dots> \<le> key (xs ! i)"
      using False less.prems by (simp add: heap_ok_def)
    finally show ?thesis .
  qed simp
qed

lemma list_insert_heap:
  assumes "heap_ok key xs"
  shows "heap_ok key (list_insert key x xs) \<and> mset (list_insert key x xs) = add_mset x (mset xs)"
proof -
  have "up_ok key (length xs) (xs @ [x])"
    unfolding up_ok_def
  proof (intro allI impI)
    fix j assume j: "j < length (xs @ [x])" "0 < j"
    then have "Parent j \<noteq> length xs"
      using Parent_less [OF j(2)] by auto
    with j show "(j \<noteq> length xs \<longrightarrow> key ((xs @ [x]) ! Parent j) \<le> key ((xs @ [x]) ! j)) \<and>
        (Parent j = length xs \<and> 0 < length xs \<longrightarrow>
         key ((xs @ [x]) ! Parent (length xs)) \<le> key ((xs @ [x]) ! j))"
      using assms by (auto simp: heap_ok_def nth_append less_Suc_eq)
  qed
  then show ?thesis
    using sift_up_heap [of "length xs" "xs @ [x]" key] by (simp add: list_insert_def)
qed

lemma swap_out:
  assumes "length xs = Suc n" "i \<le> n"
  shows "j < n \<Longrightarrow> butlast (list_swap i n xs) ! j = (if j = i then last xs else xs ! j)"
    and "add_mset (xs ! i) (mset (butlast (list_swap i n xs))) = mset xs"
proof -
  have "last xs = xs ! n"
    using assms(1) by (subst last_conv_nth) auto
  then show "j < n \<Longrightarrow> butlast (list_swap i n xs) ! j = (if j = i then last xs else xs ! j)"
    using assms by (simp add: nth_butlast nth_list_update)
  have ne: "list_swap i n xs \<noteq> []"
    using assms(1) by auto
  then have "last (list_swap i n xs) = xs ! i"
    using assms by (subst last_conv_nth) (simp_all add: nth_list_update)
  then have "butlast (list_swap i n xs) @ [xs ! i] = list_swap i n xs"
    using ne by (metis append_butlast_last_id)
  then have "mset (butlast (list_swap i n xs) @ [xs ! i]) = mset xs"
    using assms by (simp only:) (simp add: mset_swap)
  then show "add_mset (xs ! i) (mset (butlast (list_swap i n xs))) = mset xs"
    by simp
qed

lemma list_remove_heap:
  assumes "heap_ok key xs" "i < length xs"
  shows "heap_ok key (list_remove key i xs) \<and> mset (list_remove key i xs) = mset xs - {#xs ! i#}"
proof -
  obtain n where n: "length xs = Suc n" "i \<le> n"
    using assms(2) by (cases "length xs") auto
  define ys where "ys = butlast (list_swap i n xs)"
  have len: "length ys = n"
    using n by (simp add: ys_def)
  have nth: "ys ! j = (if j = i then last xs else xs ! j)" if "j < n" for j
    using swap_out(1) [OF n that] by (simp only: ys_def)
  have mset: "mset ys = mset xs - {#xs ! i#}"
    using swap_out(2) [OF n] by (metis add_mset_remove_trivial ys_def)
  have ord: "key (xs ! Parent j) \<le> key (xs ! j)" if "j < Suc n" "0 < j" for j
    using assms(1) that n by (simp add: heap_ok_def)
  have over: "key (xs ! Parent i) \<le> key (xs ! j)" if "Parent j = i" "0 < i" "j < n" "0 < j" for j
    using ord [of j] ord [of i] that n by auto
  have "up_ok key i ys" if "key (xs ! i) > key (last xs)"
    unfolding up_ok_def
  proof (intro allI impI)
    fix j assume j: "j < length ys" "0 < j"
    have "j \<noteq> i \<longrightarrow> key (ys ! Parent j) \<le> key (ys ! j)"
      using j that ord [of j] len by (auto simp: nth)
    moreover have "key (ys ! Parent i) \<le> key (ys ! j)" if "Parent j = i" "0 < i"
      using over [OF that] that j len Parent_less [OF j(2)] Parent_less [OF that(2)] by (auto simp: nth)
    ultimately show "(j \<noteq> i \<longrightarrow> key (ys ! Parent j) \<le> key (ys ! j)) \<and>
        (Parent j = i \<and> 0 < i \<longrightarrow> key (ys ! Parent i) \<le> key (ys ! j))"
      by blast
  qed
  moreover have "down_ok key i ys" if "\<not> key (xs ! i) > key (last xs)"
    unfolding down_ok_def
  proof (intro allI impI)
    fix j assume j: "j < length ys" "0 < j"
    have "Parent j \<noteq> i \<longrightarrow> key (ys ! Parent j) \<le> key (ys ! j)"
      using j that ord [of j] len by (auto simp: nth)
    moreover have "key (ys ! Parent i) \<le> key (ys ! j)" if "Parent j = i" "0 < i"
      using over [OF that] that j len Parent_less [OF j(2)] Parent_less [OF that(2)] by (auto simp: nth)
    ultimately show "(Parent j \<noteq> i \<longrightarrow> key (ys ! Parent j) \<le> key (ys ! j)) \<and>
        (Parent j = i \<and> 0 < i \<longrightarrow> key (ys ! Parent i) \<le> key (ys ! j))"
      by blast
  qed
  moreover have "i < length ys" if "key (xs ! i) > key (last xs)"
  proof -
    have "last xs = xs ! n"
      using n(1) by (subst last_conv_nth) auto
    then show ?thesis
      using that len n by (cases "i = n") auto
  qed
  ultimately show ?thesis
    using sift_up_heap [of i ys key] sift_down_heap [of key i ys] mset n
    by (simp add: list_remove_def flip: ys_def)
qed

section \<open>The heap as a priority queue\<close>

definition minheap_ok :: "('a \<Rightarrow> 'k::linorder) \<Rightarrow> 'a vec \<Rightarrow> bool" where
  "minheap_ok key v \<longleftrightarrow> vec_ok v \<and> heap_ok key (vec_list v)"

lemma heap_insert_spec:
  assumes "minheap_ok key v" "vec_room env (Suc n) v"
  shows "\<exists>v'. heap_insert env dflt key x v = Inr v' \<and> minheap_ok key v'
       \<and> mset (vec_list v') = add_mset x (mset (vec_list v)) \<and> vec_room env n v'"
proof -
  obtain v1 where v1: "push_back env dflt x v = Inr v1" "vec_ok v1" "vec_list v1 = vec_list v @ [x]"
    using push_back_room [of v env n dflt x] assms by (auto simp: minheap_ok_def)
  then have "numAllocated v1 = Suc (length (vec_list v))"
    by (metis length_append_singleton vec_list_length)
  then obtain v2 where v2: "heap_insert env dflt key x v = Inr v2" "minheap_ok key v2"
      "mset (vec_list v2) = add_mset x (mset (vec_list v))"
    using heapifyUp_refines [OF v1(2), of "length (vec_list v)" key] v1 assms(1)
      list_insert_heap [of key "vec_list v" x]
    by (auto simp: heap_insert_def minheap_ok_def vec_size_def list_insert_def)
  have "numAllocated v2 = Suc (numAllocated v)"
    using arg_cong [OF v2(3), of size] v2(2) assms(1) by (simp add: minheap_ok_def)
  then show ?thesis
    using v2 assms(2) by (simp add: vec_room_def)
qed

lemma vec_back_spec: "vec_ok v \<Longrightarrow> vec_list v \<noteq> [] \<Longrightarrow> vec_back v = Inr (last (vec_list v))"
  using vec_at_spec [of v "numAllocated v - 1"]
  by (auto simp: vec_back_def vec_at_def last_conv_nth simp flip: length_greater_0_conv)

lemma vec_pop_spec:
  assumes "vec_ok v" "0 < numAllocated v"
  shows "\<exists>v'. pop_back v = Inr v' \<and> vec_ok v' \<and> vec_list v' = butlast (vec_list v)"
proof -
  have "vec_list v \<noteq> []"
    using assms by (metis length_greater_0_conv vec_list_length)
  then show ?thesis
    using pop_back_spec [OF assms(1)] by blast
qed

lemma heap_remove_refines:
  assumes "vec_ok v" "i < numAllocated v"
  shows "\<exists>v'. heap_remove key i v = Inr v' \<and> vec_ok v' \<and> vec_list v' = list_remove key i (vec_list v)"
proof -
  let ?xs = "vec_list v" and ?n = "numAllocated v - 1"
  have ne: "?xs \<noteq> []"
    using assms by (metis gr_implies_not0 list.size(3) vec_list_length)
  obtain v1 where v1: "vec_swap i ?n v = Inr v1" "vec_ok v1" "numAllocated v1 = numAllocated v"
    "vec_list v1 = list_swap i ?n ?xs"
    using vec_swap_spec [of v i ?n] assms by auto
  obtain v2 where v2: "pop_back v1 = Inr v2" "vec_ok v2" "vec_list v2 = butlast (list_swap i ?n ?xs)"
    using vec_pop_spec [OF v1(2)] v1(3,4) assms(2) by auto
  have "i < numAllocated v2" if "key (last ?xs) < key (?xs ! i)"
  proof -
    have "i \<noteq> ?n"
      using that ne assms(1) by (auto simp: last_conv_nth)
    moreover have "numAllocated v2 = ?n"
      using v2 vec_list_length [OF v2(2)] assms(1) by simp
    ultimately show ?thesis
      using assms(2) by simp
  qed
  then show ?thesis
    using heapifyUp_refines [OF v2(2), of i key] heapifyDown_refines [OF v2(2), of key i] assms
      vec_back_spec [OF assms(1) ne] v1(1) v2 vec_at_spec [OF assms]
    by (auto simp: heap_remove_def list_remove_def vec_size_def Let_def)
qed

lemma heap_remove_spec:
  assumes "minheap_ok key v" "i < numAllocated v"
  shows "\<exists>v'. heap_remove key i v = Inr v' \<and> minheap_ok key v'
       \<and> mset (vec_list v') = mset (vec_list v) - {#vec_list v ! i#}"
  using heap_remove_refines [of v i key] list_remove_heap [of key "vec_list v" i] assms
  by (auto simp: minheap_ok_def)

lemma heap_extract_spec:
  assumes "minheap_ok key v" "vec_list v \<noteq> []"
  shows "\<exists>v'. heap_extract key v = Inr v' \<and> minheap_ok key v'
       \<and> mset (vec_list v') = mset (vec_list v) - {#hd (vec_list v)#}"
proof -
  let ?xs = "vec_list v" and ?n = "numAllocated v - 1"
  have ok: "vec_ok v" and heap: "heap_ok key ?xs" and n: "0 < numAllocated v"
    using assms by (auto simp: minheap_ok_def simp flip: vec_list_length)
  obtain v1 where v1: "vec_set 0 (last ?xs) v = Inr v1" "vec_ok v1" "vec_list v1 = ?xs[0 := last ?xs]"
    using vec_set_spec [OF ok n] by blast
  obtain v2 where v2: "pop_back v1 = Inr v2" "vec_ok v2" "vec_list v2 = butlast (?xs[0 := last ?xs])"
    using vec_pop_spec [OF v1(2)] v1(3) n vec_set_size [OF v1(1)] by auto
  have "butlast (?xs[0 := last ?xs]) = butlast (list_swap 0 ?n ?xs)"
    using n ok assms(2) by (intro nth_equalityI) (auto simp: nth_butlast nth_list_update last_conv_nth)
  moreover have "\<not> key (last ?xs) < key (?xs ! 0)"
    using heap_ok_min [OF heap, of ?n] n ok assms(2) by (simp add: last_conv_nth not_less)
  ultimately have "sift_down key 0 (vec_list v2) = list_remove key 0 ?xs"
    using v2(3) ok by (simp add: list_remove_def)
  then show ?thesis
    using heapifyDown_refines [OF v2(2), of key 0] list_remove_heap [OF heap, of 0] v1(1) v2(1) n ok
      vec_back_spec [OF ok assms(2)] assms(2)
    by (auto simp: heap_extract_def vec_is_empty_def minheap_ok_def hd_conv_nth)
qed

lemma heap_min_spec:
  assumes "minheap_ok key v" "vec_list v \<noteq> []"
  shows "heap_min v = Inr (hd (vec_list v))" "x \<in> set (vec_list v) \<Longrightarrow> key (hd (vec_list v)) \<le> key x"
proof -
  have n: "vec_ok v" "0 < numAllocated v"
    using assms by (auto simp: minheap_ok_def simp flip: vec_list_length)
  then have "vec_front v = vec_at 0 v"
    by (simp add: vec_front_def vec_at_def)
  then show "heap_min v = Inr (hd (vec_list v))"
    using n assms(2) vec_at_spec [OF n] by (simp add: heap_min_def vec_is_empty_def hd_conv_nth)
  show "key (hd (vec_list v)) \<le> key x" if "x \<in> set (vec_list v)"
    using that assms heap_ok_min [of key "vec_list v"]
    by (auto simp: minheap_ok_def hd_conv_nth in_set_conv_nth)
qed

text \<open>
  What a scheduler relies on: the contents of the queue as a multiset, and the item it is given
  first. \<open>pq_drain\<close> takes a number of items, one after the other.
\<close>

fun pq_drain :: "('q \<Rightarrow> 'a outcome) \<Rightarrow> ('q \<Rightarrow> 'q outcome) \<Rightarrow> nat \<Rightarrow> 'q \<Rightarrow> ('a list \<times> 'q) outcome" where
  "pq_drain peek take_min 0 q = Inr ([], q)"
| "pq_drain peek take_min (Suc n) q =
     obind (peek q) (\<lambda>x.
     obind (take_min q) (\<lambda>q.
     obind (pq_drain peek take_min n q) (\<lambda>(xs, q). Inr (x # xs, q))))"

locale priority_queue =
  fixes ok :: "'q \<Rightarrow> bool" and room :: "nat \<Rightarrow> 'q \<Rightarrow> bool" and bag :: "'q \<Rightarrow> 'a multiset" and key :: "'a \<Rightarrow> 'k::linorder"
    and put :: "'a \<Rightarrow> 'q \<Rightarrow> 'q outcome" and peek :: "'q \<Rightarrow> 'a outcome"
    and take_min :: "'q \<Rightarrow> 'q outcome"
  assumes put_bag: "ok q \<Longrightarrow> room (Suc n) q \<Longrightarrow> \<exists>q'. put x q = Inr q' \<and> ok q' \<and> bag q' = add_mset x (bag q) \<and> room n q'"
    and peek_take: "ok q \<Longrightarrow> bag q \<noteq> {#} \<Longrightarrow>
          \<exists>x q'. peek q = Inr x \<and> take_min q = Inr q' \<and> ok q' \<and> bag q = add_mset x (bag q')
               \<and> (\<forall>y \<in># bag q. key x \<le> key y)"
begin

lemma drain_sorted:
  "ok q \<Longrightarrow> n \<le> size (bag q) \<Longrightarrow>
   \<exists>xs q'. pq_drain peek take_min n q = Inr (xs, q') \<and> ok q' \<and> sorted (map key xs)
         \<and> length xs = n \<and> bag q = mset xs + bag q'
         \<and> (\<forall>x \<in> set xs. \<forall>y \<in># bag q'. key x \<le> key y)"
proof (induction n arbitrary: q)
  case (Suc n)
  then obtain x q1 where x: "peek q = Inr x" "take_min q = Inr q1" "ok q1"
    "bag q = add_mset x (bag q1)" "\<forall>y \<in># bag q. key x \<le> key y"
    using peek_take [of q] by (metis Suc_le_eq gr_implies_not0 size_empty)
  then obtain xs q2 where "pq_drain peek take_min n q1 = Inr (xs, q2)" "ok q2" "sorted (map key xs)"
    "length xs = n" "bag q1 = mset xs + bag q2" "\<forall>x \<in> set xs. \<forall>y \<in># bag q2. key x \<le> key y"
    using Suc.IH [of q1] Suc.prems(2) by (metis Suc_le_mono size_add_mset)
  with x show ?case
    by (intro exI [of _ "x # xs"] exI [of _ q2]) auto
qed simp

lemma fill_bag: "ok q \<Longrightarrow> room (length xs) q \<Longrightarrow> \<exists>q'. put_all put xs q = Inr q' \<and> ok q' \<and> bag q' = bag q + mset xs"
proof (induction xs arbitrary: q)
  case (Cons x xs)
  obtain q1 where "put x q = Inr q1" "ok q1" "bag q1 = add_mset x (bag q)" "room (length xs) q1"
    using put_bag [of q "length xs" x] Cons.prems by auto
  then show ?case
    using Cons.IH [of q1] by auto
qed simp

end

lemma hd_bag: "xs \<noteq> [] \<Longrightarrow> mset xs = add_mset (hd xs) (mset xs - {#hd xs#})"
  by (cases xs) auto

interpretation heap_pq: priority_queue "minheap_ok key" "vec_room env" "\<lambda>v. mset (vec_list v)" key
  "heap_insert env dflt key" heap_min "heap_extract key"
  for env :: "'a vec_env" and dflt :: 'a and key :: "'a \<Rightarrow> 'k::linorder"
proof
  show "\<exists>q'. heap_insert env dflt key x q = Inr q' \<and> minheap_ok key q'
      \<and> mset (vec_list q') = add_mset x (mset (vec_list q)) \<and> vec_room env n q'" if "minheap_ok key q" "vec_room env (Suc n) q" for q n x
    using heap_insert_spec [OF that] .
  show "\<exists>x q'. heap_min q = Inr x \<and> heap_extract key q = Inr q' \<and> minheap_ok key q'
      \<and> mset (vec_list q) = add_mset x (mset (vec_list q'))
      \<and> (\<forall>y \<in># mset (vec_list q). key x \<le> key y)"
    if ok: "minheap_ok key q" and ne: "mset (vec_list q) \<noteq> {#}" for q
  proof -
    have ne: "vec_list q \<noteq> []" using ne by simp
    obtain q' where q': "heap_extract key q = Inr q'" "minheap_ok key q'"
      "mset (vec_list q') = mset (vec_list q) - {#hd (vec_list q)#}"
      using heap_extract_spec [OF ok ne] by blast
    have "\<forall>y \<in># mset (vec_list q). key (hd (vec_list q)) \<le> key y"
      using heap_min_spec(2) [OF ok ne] by simp
    then show ?thesis
      using q' heap_min_spec(1) [OF ok ne] hd_bag [OF ne] by metis
  qed
qed

section \<open>Enumeration\<close>

lemma enumerate_loop_ok:
  assumes "\<And>x s. key (fst (snd (snd (callback x s)))) = key x"
  shows "minheap_ok key v \<Longrightarrow>
     \<exists>s' v'. enumerate_loop key callback i s v = Inr (s', v') \<and> minheap_ok key v'
           \<and> numAllocated v' \<le> numAllocated v"
proof (induction "numAllocated v - i" arbitrary: i s v rule: less_induct)
  case less
  note ok = less.prems
  show ?case
  proof (cases "i < numAllocated v")
    case True
    obtain cont rem x s1 where cb: "callback (vec_list v ! i) s = (cont, rem, x, s1)"
      by (metis prod_cases4)
    then have x: "key x = key (vec_list v ! i)"
      using assms [of "vec_list v ! i" s] by simp
    obtain v1 where v1: "vec_set i x v = Inr v1" "vec_ok v1" "vec_list v1 = (vec_list v)[i := x]"
      using vec_set_spec [of v i x] True ok by (auto simp: minheap_ok_def)
    have "minheap_ok key v1"
      using v1 ok x True by (auto simp: minheap_ok_def heap_ok_def nth_list_update)
    then obtain v2 where v2: "(if rem then heap_remove key i v1 else Inr v1) = Inr v2" "minheap_ok key v2"
      using heap_remove_spec [of key v1 i] vec_set_size [OF v1(1)] True by (cases rem) auto
    have "numAllocated v2 = (if rem then numAllocated v - 1 else numAllocated v)"
      using v2(1) vec_set_size [OF v1(1)] heap_remove_size [of key i v1 v2]
      by (auto split: if_splits)
    then have "numAllocated v2 - (if rem then i else i + 1) < numAllocated v - i"
      and "numAllocated v2 \<le> numAllocated v"
      using True by auto
    then show ?thesis
      using less.hyps [of v2 "if rem then i else i + 1" s1] True ok cb v1 v2
      by (subst enumerate_loop.simps) (auto simp: vec_size_def minheap_ok_def vec_at_spec)
  qed (auto simp: enumerate_loop.simps vec_size_def ok)
qed

lemma enumerate_loop_fold:
  assumes "\<And>x s. callback x s = (True, False, x, f x s)"
  shows "vec_ok v \<Longrightarrow> enumerate_loop key callback i s v
           = Inr (fold f (drop i (vec_list v)) s, v)"
proof (induction "numAllocated v - i" arbitrary: i s rule: less_induct)
  case less
  show ?case
  proof (cases "i < numAllocated v")
    case True
    then have "vec_set i (vec_list v ! i) v = Inr v"
      using less.prems by (auto simp: vec_set_def vec_storage_def slot_store_def vec_list_def vec_ok_def
          split: option.splits)
    moreover have "drop i (vec_list v) = vec_list v ! i # drop (Suc i) (vec_list v)"
      using True less.prems by (simp add: Cons_nth_drop_Suc)
    ultimately show ?thesis
      using True less.prems less.hyps [of "Suc i" "f (vec_list v ! i) s"]
      by (subst enumerate_loop.simps) (simp add: vec_size_def vec_at_spec assms)
  qed (simp add: enumerate_loop.simps vec_size_def less.prems)
qed

section \<open>Properties\<close>

text \<open>
  C6: with a kernel heap that serves the requests of the vector for the new items, inserting any
  items into a heap and then taking as many minima gives the items of the old
  and the new contents with the smallest keys, in ascending order; nothing is lost or invented,
  no index is out of range, and what remains is again a heap whose items are no smaller.
\<close>

theorem minheap_sorts:
  assumes "minheap_ok key v" "vec_room env (length xs) v" "n \<le> vec_size v + length xs"
  shows "\<exists>v1 ys v2. put_all (heap_insert env dflt key) xs v = Inr v1
       \<and> pq_drain heap_min (heap_extract key) n v1 = Inr (ys, v2)
       \<and> minheap_ok key v2 \<and> sorted (map key ys) \<and> length ys = n
       \<and> mset (vec_list v) + mset xs = mset ys + mset (vec_list v2)
       \<and> (\<forall>y \<in> set ys. \<forall>z \<in> set (vec_list v2). key y \<le> key z)"
proof -
  obtain v1 where v1: "put_all (heap_insert env dflt key) xs v = Inr v1" "minheap_ok key v1"
    "mset (vec_list v1) = mset (vec_list v) + mset xs"
    using heap_pq.fill_bag [OF assms(1,2), of dflt] by blast
  then have "n \<le> size (mset (vec_list v1))"
    using assms by (simp add: minheap_ok_def vec_size_def)
  then show ?thesis
    using heap_pq.drain_sorted [OF v1(2)] v1 by fastforce
qed

theorem minheap_sorts_witness:
  "\<exists>v1 ys v2. put_all (heap_insert ample_env 0 id) [5, 3, 9, 1 :: nat] vec_empty = Inr v1
     \<and> pq_drain heap_min (heap_extract id) 4 v1 = Inr (ys, v2) \<and> sorted ys \<and> length ys = 4"
  using minheap_sorts [of id "vec_empty :: nat vec" ample_env "[5, 3, 9, 1]" 4 0]
  by (auto simp: minheap_ok_def vec_empty_def vec_ok_def vec_list_def heap_ok_def vec_room_def ample_grants)

text \<open>
  C17: removing the item at any index of a heap, whichever way the item moved into its place has
  to travel, leaves a heap with exactly that item gone.
\<close>

theorem minheap_remove_any:
  assumes "minheap_ok key v" "i < vec_size v"
  shows "\<exists>v'. heap_remove key i v = Inr v' \<and> minheap_ok key v'
       \<and> mset (vec_list v') = mset (vec_list v) - {#vec_list v ! i#}"
  using heap_remove_spec [OF assms(1)] assms(2) by (simp add: vec_size_def)

definition heap_example :: "nat vec" where
  "heap_example = \<lparr>numAllocated = 6, numReserved = 6, storage = Some [1, 10, 2, 11, 12, 3]\<rparr>"

lemma heap_example_ok: "minheap_ok id heap_example"
  by code_simp

theorem minheap_remove_any_witness:
  "\<exists>v'. heap_remove id 3 heap_example = Inr v' \<and> mset (vec_list v') = {#1, 10, 2, 12, 3#}"
  using minheap_remove_any [OF heap_example_ok, of 3]
  by (auto simp: heap_example_def vec_size_def vec_list_def)

text \<open>
  C19: enumerating a heap, with any callback that leaves the keys of the items alone, ends, never
  faults and leaves a heap, however many items it removes on the way; a callback that never
  removes or stops sees every item exactly once, in storage order.
\<close>

theorem minheap_enumerate:
  assumes "minheap_ok key v" "\<forall>x s. key (fst (snd (snd (callback x s)))) = key x"
  shows "(\<exists>s' v'. enumerateObjects key callback s v = Inr (s', v') \<and> minheap_ok key v'
            \<and> vec_size v' \<le> vec_size v)
       \<and> ((\<forall>x s. callback x s = (True, False, x, f x s)) \<longrightarrow>
            enumerateObjects key callback s v = Inr (fold f (vec_list v) s, v))"
  using enumerate_loop_ok [of key callback v 0 s] enumerate_loop_fold [of callback f v key 0 s] assms
  by (simp add: enumerateObjects_def vec_size_def minheap_ok_def)

theorem minheap_enumerate_witness:
  "enumerateObjects id (\<lambda>x s. (True, False, x, s + x)) 0 heap_example = Inr (39, heap_example)"
  using minheap_enumerate [OF heap_example_ok, of "\<lambda>x s. (True, False, x, s + x)" 0 "\<lambda>x s. s + x"]
  by (simp add: heap_example_def vec_list_def)

end
