(* ===== verification/Rt_List.thy ===== *)
theory Rt_List
  imports Kush_Prelude
begin

text \<open>
  The doubly linked list and the queue on top of it, \<^verbatim>\<open>kernel/src/runtime/List.h\<close> and
  \<^verbatim>\<open>Queue.h\<close>. Elements live in a heap, a map from addresses to elements, and every pointer the
  code follows is looked up there: a null pointer and a freed element are faults. The theory
  shows that the operations keep the two chains of pointers, the tail pointer and the count
  consistent, that nothing is leaked or used after it was freed, and that they implement the
  operations of HOL lists.

  The address of a new element is an argument of the operations that allocate: it is whatever
  the allocator chose, which the theorems only ask to be unused.
\<close>

section \<open>State and operations\<close>

record 'a element =
  elem_value :: 'a
  elem_prev :: "addr option"
  elem_next :: "addr option"

type_synonym 'a elem_heap = "addr \<rightharpoonup> 'a element"

record 'a llist =
  elems :: "'a elem_heap"
  list_head :: "addr option"
  list_tail :: "addr option"
  numElements :: nat

definition list_empty :: "'a llist" where
  "list_empty = \<lparr>elems = Map.empty, list_head = None, list_tail = None, numElements = 0\<rparr>"

definition update_elem ::
  "addr option \<Rightarrow> ('a element \<Rightarrow> 'a element) \<Rightarrow> 'a elem_heap \<Rightarrow> 'a elem_heap outcome" where
  "update_elem p f h = obind (deref h p) (\<lambda>e. Inr (h(the p \<mapsto> f e)))"

definition free_elem :: "addr option \<Rightarrow> 'a elem_heap \<Rightarrow> 'a elem_heap outcome" where
  "free_elem p h = obind (deref h p) (\<lambda>_. Inr (h(the p := None)))"

definition new_elem :: "addr \<Rightarrow> 'a \<Rightarrow> 'a elem_heap \<Rightarrow> 'a elem_heap" where
  "new_elem a x h = h(a \<mapsto> \<lparr>elem_value = x, elem_prev = None, elem_next = None\<rparr>)"

definition prepend :: "addr \<Rightarrow> 'a \<Rightarrow> 'a llist \<Rightarrow> 'a llist outcome" where
  "prepend el x l =
     (let h = new_elem el x (elems l) in
      obind (if list_head l \<noteq> None then
               obind (update_elem (list_head l) (elem_prev_update (\<lambda>_. Some el)) h) (\<lambda>h.
               obind (update_elem (Some el) (elem_next_update (\<lambda>_. list_head l)) h) (\<lambda>h.
               Inr (l\<lparr>elems := h, list_head := Some el\<rparr>)))
             else Inr (l\<lparr>elems := h, list_tail := Some el, list_head := Some el\<rparr>)) (\<lambda>l.
      Inr (l\<lparr>numElements := numElements l + 1\<rparr>)))"

definition list_append :: "addr \<Rightarrow> 'a \<Rightarrow> 'a llist \<Rightarrow> 'a llist outcome" where
  "list_append el x l =
     (let h = new_elem el x (elems l) in
      obind (if list_tail l \<noteq> None then
               obind (update_elem (list_tail l) (elem_next_update (\<lambda>_. Some el)) h) (\<lambda>h.
               obind (update_elem (Some el) (elem_prev_update (\<lambda>_. list_tail l)) h) (\<lambda>h.
               Inr (l\<lparr>elems := h, list_tail := Some el\<rparr>)))
             else Inr (l\<lparr>elems := h, list_tail := Some el, list_head := Some el\<rparr>)) (\<lambda>l.
      Inr (l\<lparr>numElements := numElements l + 1\<rparr>)))"

definition remove_index :: "nat \<Rightarrow> 'a llist \<Rightarrow> 'a llist outcome" where
  "remove_index index l =
     require (index < numElements l) ''list index out of bounds'' (
     if index = 0 then
       let currentHead = list_head l in
       obind (deref (elems l) currentHead) (\<lambda>e.
       obind (if elem_next e \<noteq> None then
                obind (update_elem (elem_next e) (elem_prev_update (\<lambda>_. None)) (elems l)) (\<lambda>h.
                Inr (l\<lparr>elems := h, list_head := elem_next e, numElements := numElements l - 1\<rparr>))
              else Inr (l\<lparr>list_head := None, list_tail := None, numElements := 0\<rparr>)) (\<lambda>l.
       obind (free_elem currentHead (elems l)) (\<lambda>h. Inr (l\<lparr>elems := h\<rparr>))))
     else Inl (Panic ''removing elements inside list not yet supported''))"

text \<open>
  The loops follow \<^verbatim>\<open>next\<close> pointers until a null one; on a cyclic chain they do not return,
  which is the value \<^term>\<open>None\<close>.
\<close>

partial_function (option) clear_loop :: "addr option \<Rightarrow> 'a llist \<Rightarrow> 'a llist outcome option" where
  "clear_loop ptr l =
     (if ptr = None then Some (Inr l)
      else case deref (elems l) ptr of Inl f \<Rightarrow> Some (Inl f) | Inr e \<Rightarrow>
           (case free_elem ptr (elems l) of Inl f \<Rightarrow> Some (Inl f) | Inr h \<Rightarrow>
            clear_loop (elem_next e) (l\<lparr>numElements := numElements l - 1, elems := h\<rparr>)))"

definition list_clear :: "'a llist \<Rightarrow> 'a llist outcome option" where
  "list_clear l =
     map_option (\<lambda>r. obind r (\<lambda>l. Inr (l\<lparr>list_tail := None\<rparr>)))
       (clear_loop (list_head l) (l\<lparr>list_head := None\<rparr>))"

text \<open>
  Unlinking and freeing one element, the body of \<^verbatim>\<open>_removeMatching\<close> for an item to remove.
\<close>

definition unlink_elem :: "addr option \<Rightarrow> 'a llist \<Rightarrow> (addr option \<times> 'a llist) outcome" where
  "unlink_elem ent l =
     obind (deref (elems l) ent) (\<lambda>e.
     obind (if elem_prev e \<noteq> None then
              obind (update_elem (elem_prev e) (elem_next_update (\<lambda>_. elem_next e)) (elems l)) (\<lambda>h.
              Inr (l\<lparr>elems := h\<rparr>))
            else Inr (l\<lparr>list_head := elem_next e\<rparr>)) (\<lambda>l.
     obind (if elem_next e \<noteq> None then
              obind (update_elem (elem_next e) (elem_prev_update (\<lambda>_. elem_prev e)) (elems l)) (\<lambda>h.
              Inr (l\<lparr>elems := h\<rparr>))
            else Inr (l\<lparr>list_tail := elem_prev e\<rparr>)) (\<lambda>l.
     obind (deref (elems l) ent) (\<lambda>e.
     obind (free_elem ent (elems l)) (\<lambda>h.
     Inr (elem_next e, l\<lparr>elems := h, numElements := numElements l - 1\<rparr>))))))"

text \<open>
  The callback of \<^verbatim>\<open>removeMatching\<close> gets its context and a reference to the item; it says
  whether to remove the item and may leave both changed.
\<close>

type_synonym ('c, 'a) matcher = "'c \<Rightarrow> 'a \<Rightarrow> bool \<times> 'a \<times> 'c"

partial_function (option) removeMatching_loop ::
  "('c, 'a) matcher \<Rightarrow> 'c \<Rightarrow> nat \<Rightarrow> addr option \<Rightarrow> 'a llist \<Rightarrow> (nat \<times> 'c \<times> 'a llist) outcome option" where
  "removeMatching_loop callback ctx numRemoved ent l =
     (if ent = None then Some (Inr (numRemoved, ctx, l))
      else case deref (elems l) ent of Inl f \<Rightarrow> Some (Inl f) | Inr e \<Rightarrow>
        if elem_next e = ent then Some (Inl (Panic ''invalid next ptr''))
        else
          case callback ctx (elem_value e) of (rem, x, ctx) \<Rightarrow>
          (case update_elem ent (elem_value_update (\<lambda>_. x)) (elems l) of Inl f \<Rightarrow> Some (Inl f) | Inr h \<Rightarrow>
           if rem then
             (case unlink_elem ent (l\<lparr>elems := h\<rparr>) of Inl f \<Rightarrow> Some (Inl f) | Inr (ent, l) \<Rightarrow>
              removeMatching_loop callback ctx (numRemoved + 1) ent l)
           else removeMatching_loop callback ctx numRemoved (elem_next e) (l\<lparr>elems := h\<rparr>)))"

definition removeMatching ::
  "('c, 'a) matcher \<Rightarrow> 'c \<Rightarrow> 'a llist \<Rightarrow> (nat \<times> 'c \<times> 'a llist) outcome option" where
  "removeMatching callback ctx l = removeMatching_loop callback ctx 0 (list_head l) l"

definition remove_item :: "'a \<Rightarrow> 'a llist \<Rightarrow> (nat \<times> 'a \<times> 'a llist) outcome option" where
  "remove_item item l = removeMatching (\<lambda>info x. (x = info, x, info)) item l"

partial_function (option) nth_loop :: "nat \<Rightarrow> nat \<Rightarrow> addr option \<Rightarrow> 'a elem_heap \<Rightarrow> 'a outcome option" where
  "nth_loop index i el h =
     (if el = None then Some (Inl (Panic ''list access failed''))
      else case deref h el of Inl f \<Rightarrow> Some (Inl f) | Inr e \<Rightarrow>
        if i = index then Some (Inr (elem_value e)) else nth_loop index (i + 1) (elem_next e) h)"

definition list_nth :: "nat \<Rightarrow> 'a llist \<Rightarrow> 'a outcome option" where
  "list_nth index l =
     (if index < numElements l then
        if index = 0 then Some (obind (deref (elems l) (list_head l)) (\<lambda>e. Inr (elem_value e)))
        else nth_loop index 0 (list_head l) (elems l)
      else Some (Inl (Panic ''list access out of bounds'')))"

text \<open>\<^verbatim>\<open>for(auto &x : list) ...\<close>, with the iterators of \<^verbatim>\<open>begin\<close> and \<^verbatim>\<open>end\<close>.\<close>

partial_function (option) list_iterate ::
  "('a \<Rightarrow> 's \<Rightarrow> 's) \<Rightarrow> addr option \<Rightarrow> 'a elem_heap \<Rightarrow> 's \<Rightarrow> 's outcome option" where
  "list_iterate f element h s =
     (if element = None then Some (Inr s)
      else case deref h element of Inl e \<Rightarrow> Some (Inl e) | Inr e \<Rightarrow>
           list_iterate f (elem_next e) h (f (elem_value e) s))"

definition list_size :: "'a llist \<Rightarrow> nat" where
  "list_size l = numElements l"

definition list_is_empty :: "'a llist \<Rightarrow> bool" where
  "list_is_empty l = (numElements l = 0)"

section \<open>Queue\<close>

definition queue_push_back :: "addr \<Rightarrow> 'a \<Rightarrow> 'a llist \<Rightarrow> 'a llist outcome" where
  "queue_push_back el x q = list_append el x q"

definition queue_push_front :: "addr \<Rightarrow> 'a \<Rightarrow> 'a llist \<Rightarrow> 'a llist outcome" where
  "queue_push_front el x q = prepend el x q"

definition queue_pop :: "'a llist \<Rightarrow> ('a \<times> 'a llist) outcome option" where
  "queue_pop q =
     (if \<not> list_is_empty q then
        map_option (\<lambda>r. obind r (\<lambda>x. obind (remove_index 0 q) (\<lambda>q. Inr (x, q)))) (list_nth 0 q)
      else Some (Inl (Panic ''cannot pop empty queue'')))"

definition queue_peek :: "'a llist \<Rightarrow> 'a option outcome option" where
  "queue_peek q =
     (if list_is_empty q then Some (Inr None)
      else map_option (\<lambda>r. obind r (\<lambda>x. Inr (Some x))) (list_nth 0 q))"

section \<open>Chains of elements\<close>

definition cell_addrs :: "(addr \<times> 'a) list \<Rightarrow> addr set" where
  "cell_addrs cs = fst ` set cs"

lemma cell_addrs_simps [simp]:
  "cell_addrs [] = {}" "cell_addrs (c # cs) = insert (fst c) (cell_addrs cs)"
  "cell_addrs (cs @ ds) = cell_addrs cs \<union> cell_addrs ds" "fst ` set cs = cell_addrs cs"
  by (auto simp: cell_addrs_def)

text \<open>
  \<open>seg h pv p cs lst q\<close>: from \<open>p\<close>, whose predecessor is \<open>pv\<close>, the heap holds exactly the cells
  \<open>cs\<close>, the last of which is \<open>lst\<close> (\<open>pv\<close> when there is none) and continues at \<open>q\<close>.
\<close>

fun seg :: "'a elem_heap \<Rightarrow> addr option \<Rightarrow> addr option \<Rightarrow> (addr \<times> 'a) list \<Rightarrow> addr option \<Rightarrow>
    addr option \<Rightarrow> bool" where
  "seg h pv p [] lst q \<longleftrightarrow> p = q \<and> lst = pv"
| "seg h pv p (c # cs) lst q \<longleftrightarrow> p = Some (fst c) \<and>
     (\<exists>n. h (fst c) = Some \<lparr>elem_value = snd c, elem_prev = pv, elem_next = n\<rparr>
        \<and> seg h (Some (fst c)) n cs lst q)"

lemma seg_append [simp]:
  "seg h pv p (cs @ ds) lst q \<longleftrightarrow> (\<exists>m mid. seg h pv p cs m mid \<and> seg h m mid ds lst q)"
  by (induction cs arbitrary: pv p) auto

lemma seg_frame [simp]: "a \<notin> cell_addrs cs \<Longrightarrow> seg (h(a := v)) pv p cs lst q = seg h pv p cs lst q"
  by (induction cs arbitrary: pv p) auto

lemma seg_first:
  "seg h pv p (c # cs) lst q \<Longrightarrow> fst c \<notin> cell_addrs cs \<Longrightarrow>
   \<exists>e. h (fst c) = Some e \<and> seg (h(fst c \<mapsto> e\<lparr>elem_prev := pv'\<rparr>)) pv' p (c # cs) lst q"
  by auto

lemma seg_last:
  assumes "seg h pv p (cs @ [c]) lst q" "fst c \<notin> cell_addrs cs"
  shows "\<exists>e. h (fst c) = Some e \<and> lst = Some (fst c) \<and> elem_next e = q \<and>
     seg (h(fst c \<mapsto> e\<lparr>elem_next := q'\<rparr>)) pv p (cs @ [c]) lst q'"
  using assms by auto

lemma seg_tail_cases:
  "seg h pv p cs lst q \<Longrightarrow> cs = [] \<and> lst = pv \<and> p = q \<or> (\<exists>ds c. cs = ds @ [c] \<and> lst = Some (fst c))"
  by (cases cs rule: rev_cases) auto

text \<open>
  A consistent list with its cells; the heap holds nothing else, so that every element that is
  no longer linked has been freed.
\<close>

definition list_cells :: "'a llist \<Rightarrow> (addr \<times> 'a) list \<Rightarrow> bool" where
  "list_cells l cs \<longleftrightarrow>
     seg (elems l) None (list_head l) cs (list_tail l) None \<and> distinct (map fst cs)
     \<and> dom (elems l) = cell_addrs cs \<and> numElements l = length cs"

lemma list_cells_empty: "list_cells list_empty []"
  by (simp add: list_cells_def list_empty_def)

lemma list_cells_dom: "list_cells l cs \<Longrightarrow> dom (elems l) = cell_addrs cs"
  by (simp add: list_cells_def)

lemma list_cells_head: "list_cells l (c # cs) \<Longrightarrow> list_head l = Some (fst c)"
  by (simp add: list_cells_def)

lemma dom_single_del: "dom h = {a} \<Longrightarrow> h(a := None) = Map.empty"
  by (metis dom_eq_empty_conv dom_fun_upd Diff_cancel)

lemmas elem_ops = deref_def update_elem_def free_elem_def new_elem_def

lemma prepend_cells:
  assumes "list_cells l cs" "el \<notin> dom (elems l)"
  shows "\<exists>l'. prepend el x l = Inr l' \<and> list_cells l' ((el, x) # cs)"
proof (cases cs)
  case Nil
  then show ?thesis
    using assms by (auto simp: prepend_def list_cells_def elem_ops)
next
  case (Cons c ds)
  then show ?thesis
    using assms by (auto simp: prepend_def list_cells_def elem_ops Let_def)
qed

lemma append_cells:
  assumes "list_cells l cs" "el \<notin> dom (elems l)"
  shows "\<exists>l'. list_append el x l = Inr l' \<and> list_cells l' (cs @ [(el, x)])"
proof (cases cs rule: rev_cases)
  case Nil
  then show ?thesis
    using assms by (auto simp: list_append_def list_cells_def elem_ops)
next
  case (snoc ds c)
  then show ?thesis
    using assms by (auto simp: list_append_def list_cells_def elem_ops Let_def)
qed

lemma remove_head_cells:
  assumes "list_cells l (c # cs)"
  shows "\<exists>l'. remove_index 0 l = Inr l' \<and> list_cells l' cs"
proof (cases cs)
  case Nil
  then show ?thesis
    using assms by (auto simp: remove_index_def list_cells_def elem_ops dom_single_del)
next
  case (Cons d ds)
  then show ?thesis
    using assms
    by (auto simp: remove_index_def list_cells_def elem_ops Let_def)
qed

definition first_ptr :: "(addr \<times> 'a) list \<Rightarrow> addr option" where
  "first_ptr cs = (case cs of [] \<Rightarrow> None | c # _ \<Rightarrow> Some (fst c))"

lemma first_ptr_simps [simp]: "first_ptr [] = None" "first_ptr (c # cs) = Some (fst c)"
  by (simp_all add: first_ptr_def)

lemma seg_first_ptr: "seg h pv p cs lst None \<Longrightarrow> p = first_ptr cs"
  by (cases cs) auto

lemma list_cells_first: "list_cells l cs \<Longrightarrow> list_head l = first_ptr cs"
  by (auto simp: list_cells_def dest: seg_first_ptr)

text \<open>The element of a cell in the middle of a list.\<close>

lemma list_cells_elem:
  assumes "list_cells l (ks @ c # rs)"
  shows "\<exists>e. elems l (fst c) = Some e \<and> elem_value e = snd c \<and> elem_next e = first_ptr rs
           \<and> elem_next e \<noteq> Some (fst c)"
proof -
  obtain pv n where "elems l (fst c) = Some \<lparr>elem_value = snd c, elem_prev = pv, elem_next = n\<rparr>"
    and "seg (elems l) (Some (fst c)) n rs (list_tail l) None"
    using assms by (auto simp: list_cells_def)
  moreover have "first_ptr rs \<noteq> Some (fst c)"
    using assms by (cases rs) (auto simp: list_cells_def)
  ultimately show ?thesis
    using seg_first_ptr by fastforce
qed

lemma update_value_cells:
  assumes "list_cells l (ks @ c # rs)"
  shows "\<exists>h. update_elem (Some (fst c)) (elem_value_update (\<lambda>_. x)) (elems l) = Inr h
       \<and> list_cells (l\<lparr>elems := h\<rparr>) (ks @ (fst c, x) # rs)"
  using assms by (auto simp: list_cells_def elem_ops)

lemma unlink_cells:
  assumes "list_cells l (ks @ c # rs)"
  shows "\<exists>l'. unlink_elem (Some (fst c)) l = Inr (first_ptr rs, l') \<and> list_cells l' (ks @ rs)"
proof (cases ks rule: rev_cases)
  case Nil
  then show ?thesis
    using assms
    by (cases rs) (auto simp: unlink_elem_def list_cells_def elem_ops dom_single_del
       )
next
  case (snoc ks' k)
  show ?thesis
  proof (cases rs)
    case Nil
    then show ?thesis
      using assms snoc
      by (auto simp: unlink_elem_def list_cells_def elem_ops simp del: obind_Inr_iff)
  next
    case (Cons r rs')
    then show ?thesis
      using assms snoc
      by (auto simp: unlink_elem_def list_cells_def elem_ops simp del: obind_Inr_iff)
  qed
qed

fun remove_matching :: "('c, 'a) matcher \<Rightarrow> 'c \<Rightarrow> 'a list \<Rightarrow> nat \<times> 'c \<times> 'a list" where
  "remove_matching callback ctx [] = (0, ctx, [])"
| "remove_matching callback ctx (x # xs) =
     (let (rem, x, ctx) = callback ctx x; (n, ctx, ys) = remove_matching callback ctx xs
      in if rem then (n + 1, ctx, ys) else (n, ctx, x # ys))"

lemma removeMatching_loop_cells:
  assumes "list_cells l (ks @ rs)" "remove_matching callback ctx (map snd rs) = (n, ctx', ys)"
  shows "\<exists>l' cs. removeMatching_loop callback ctx k (first_ptr rs) l = Some (Inr (k + n, ctx', l'))
       \<and> list_cells l' (ks @ cs) \<and> map snd cs = ys"
  using assms
proof (induction rs arbitrary: l ks ctx k n ys)
  case Nil
  then show ?case
    by (subst removeMatching_loop.simps) auto
next
  case (Cons c rs)
  obtain e where e: "elems l (fst c) = Some e" "elem_value e = snd c" "elem_next e = first_ptr rs"
    "elem_next e \<noteq> Some (fst c)"
    using list_cells_elem [OF Cons.prems(1)] by blast
  obtain rem x ctx1 where cb: "callback ctx (snd c) = (rem, x, ctx1)"
    by (metis prod_cases3)
  obtain h where h: "update_elem (Some (fst c)) (elem_value_update (\<lambda>_. x)) (elems l) = Inr h"
    "list_cells (l\<lparr>elems := h\<rparr>) (ks @ (fst c, x) # rs)"
    using update_value_cells [OF Cons.prems(1)] by blast
  obtain n1 ys1 where rec: "remove_matching callback ctx1 (map snd rs) = (n1, ctx', ys1)"
    and out: "n = (if rem then n1 + 1 else n1)" "ys = (if rem then ys1 else x # ys1)"
    using Cons.prems(2) cb by (auto split: prod.splits if_splits)
  show ?case
  proof (cases rem)
    case True
    obtain l1 where l1: "unlink_elem (Some (fst c)) (l\<lparr>elems := h\<rparr>) = Inr (first_ptr rs, l1)"
      "list_cells l1 (ks @ rs)"
      using unlink_cells [OF h(2)] by auto
    then show ?thesis
      using Cons.IH [OF l1(2) rec, of "k + 1"] True e cb h out
      by (subst removeMatching_loop.simps) (simp add: deref_def)
  next
    case False
    obtain l2 cs where "removeMatching_loop callback ctx1 k (first_ptr rs) (l\<lparr>elems := h\<rparr>)
        = Some (Inr (k + n1, ctx', l2))"
      "list_cells l2 ((ks @ [(fst c, x)]) @ cs)" "map snd cs = ys1"
      using Cons.IH [of "l\<lparr>elems := h\<rparr>" "ks @ [(fst c, x)]" ctx1 n1 ys1 k] h(2) rec by auto
    then show ?thesis
      using False e cb h out
      by (subst removeMatching_loop.simps) (auto simp: deref_def intro!: exI [of _ "(fst c, x) # cs"])
  qed
qed

lemma clear_loop_cells:
  assumes "seg (elems l) pv (first_ptr cs) cs lst None" "distinct (map fst cs)"
    "dom (elems l) = cell_addrs cs" "numElements l = length cs"
  shows "clear_loop (first_ptr cs) l = Some (Inr (l\<lparr>elems := Map.empty, numElements := 0\<rparr>))"
  using assms
proof (induction cs arbitrary: l pv)
  case Nil
  then show ?case
    by (subst clear_loop.simps) simp
next
  case (Cons c cs)
  obtain n where n: "elems l (fst c) = Some \<lparr>elem_value = snd c, elem_prev = pv, elem_next = n\<rparr>"
    "seg (elems l) (Some (fst c)) n cs lst None"
    using Cons.prems(1) by auto
  let ?l = "l\<lparr>numElements := numElements l - 1, elems := (elems l)(fst c := None)\<rparr>"
  have "n = first_ptr cs"
    using n(2) seg_first_ptr by blast
  have dom: "dom (elems ?l) = cell_addrs cs"
    using Cons.prems(2,3) by auto
  have seg: "seg (elems ?l) (Some (fst c)) (first_ptr cs) cs lst None"
    using n(2) Cons.prems(2) \<open>n = first_ptr cs\<close> by simp
  have "distinct (map fst cs)" "numElements ?l = length cs"
    using Cons.prems(2,4) by simp_all
  then have "clear_loop (first_ptr cs) ?l = Some (Inr (?l\<lparr>elems := Map.empty, numElements := 0\<rparr>))"
    by (rule Cons.IH [OF seg _ dom])
  then show ?case
    using n \<open>n = first_ptr cs\<close> by (subst clear_loop.simps) (simp add: elem_ops)
qed

lemma nth_loop_cells:
  "seg h pv (first_ptr cs) cs lst None \<Longrightarrow> k < length cs \<Longrightarrow>
   nth_loop (i + k) i (first_ptr cs) h = Some (Inr (snd (cs ! k)))"
proof (induction cs arbitrary: i k pv)
  case (Cons c cs)
  then obtain n where n: "h (fst c) = Some \<lparr>elem_value = snd c, elem_prev = pv, elem_next = n\<rparr>"
    "seg h (Some (fst c)) n cs lst None" "n = first_ptr cs"
    using seg_first_ptr by fastforce
  show ?case
  proof (cases k)
    case (Suc k')
    then show ?thesis
      using n Cons.IH [of "Some (fst c)" k' "i + 1"] Cons.prems
      by (subst nth_loop.simps) (simp add: deref_def)
  qed (subst nth_loop.simps, simp add: deref_def n)
qed simp

lemma list_iterate_cells:
  "seg h pv (first_ptr cs) cs lst None \<Longrightarrow>
   list_iterate f (first_ptr cs) h s = Some (Inr (fold f (map snd cs) s))"
proof (induction cs arbitrary: s pv)
  case Nil
  then show ?case by (subst list_iterate.simps) simp
next
  case (Cons c cs)
  then obtain n where n: "h (fst c) = Some \<lparr>elem_value = snd c, elem_prev = pv, elem_next = n\<rparr>"
    "seg h (Some (fst c)) n cs lst None" "n = first_ptr cs"
    using seg_first_ptr by fastforce
  then show ?case
    using Cons.IH by (subst list_iterate.simps) (simp add: deref_def)
qed

section \<open>Lists of items\<close>

definition list_rep :: "'a llist \<Rightarrow> 'a list \<Rightarrow> bool" where
  "list_rep l xs \<longleftrightarrow> (\<exists>cs. list_cells l cs \<and> map snd cs = xs)"

lemma list_rep_empty: "list_rep list_empty []"
  using list_cells_empty by (auto simp: list_rep_def)

lemma list_rep_size: "list_rep l xs \<Longrightarrow> numElements l = length xs"
  by (auto simp: list_rep_def list_cells_def)

lemma prepend_rep:
  assumes "list_rep l xs" "el \<notin> dom (elems l)"
  shows "\<exists>l'. prepend el x l = Inr l' \<and> list_rep l' (x # xs)
       \<and> dom (elems l') = insert el (dom (elems l))"
proof -
  obtain cs where cs: "list_cells l cs" "map snd cs = xs"
    using assms(1) by (auto simp: list_rep_def)
  obtain l' where l': "prepend el x l = Inr l'" "list_cells l' ((el, x) # cs)"
    using prepend_cells [OF cs(1) assms(2), of x] by blast
  then have "list_rep l' (x # xs)"
    using cs unfolding list_rep_def by (intro exI [of _ "(el, x) # cs"]) simp
  then show ?thesis
    using l'(1) list_cells_dom [OF l'(2)] list_cells_dom [OF cs(1)] by auto
qed

lemma append_rep:
  assumes "list_rep l xs" "el \<notin> dom (elems l)"
  shows "\<exists>l'. list_append el x l = Inr l' \<and> list_rep l' (xs @ [x])
       \<and> dom (elems l') = insert el (dom (elems l))"
proof -
  obtain cs where cs: "list_cells l cs" "map snd cs = xs"
    using assms(1) by (auto simp: list_rep_def)
  obtain l' where l': "list_append el x l = Inr l'" "list_cells l' (cs @ [(el, x)])"
    using append_cells [OF cs(1) assms(2), of x] by blast
  then have "list_rep l' (xs @ [x])"
    using cs unfolding list_rep_def by (intro exI [of _ "cs @ [(el, x)]"]) simp
  then show ?thesis
    using l'(1) list_cells_dom [OF l'(2)] list_cells_dom [OF cs(1)] by auto
qed

lemma remove_head_rep:
  assumes "list_rep l (x # xs)"
  shows "\<exists>l'. remove_index 0 l = Inr l' \<and> list_rep l' xs \<and> dom (elems l') \<subseteq> dom (elems l)"
proof -
  obtain c cs where cs: "list_cells l (c # cs)" "map snd cs = xs"
    using assms by (auto simp: list_rep_def)
  obtain l' where l': "remove_index 0 l = Inr l'" "list_cells l' cs"
    using remove_head_cells [OF cs(1)] by blast
  then show ?thesis
    using cs(2) list_cells_dom [OF l'(2)] list_cells_dom [OF cs(1)] by (auto simp: list_rep_def)
qed

lemma list_nth_rep:
  assumes "list_rep l xs"
  shows "list_nth k l = Some (if k < length xs then Inr (xs ! k) else Inl (Panic ''list access out of bounds''))"
proof -
  obtain cs where cs: "list_cells l cs" "map snd cs = xs"
    using assms by (auto simp: list_rep_def)
  then have seg: "seg (elems l) None (first_ptr cs) cs (list_tail l) None"
    using list_cells_first by (fastforce simp: list_cells_def)
  then have "nth_loop k 0 (list_head l) (elems l) = Some (Inr (xs ! k))" if "k < length cs"
    using nth_loop_cells [OF seg that, of 0] cs that list_cells_first by fastforce
  moreover have "obind (deref (elems l) (list_head l)) (\<lambda>e. Inr (elem_value e)) = Inr (xs ! 0)"
    if "cs \<noteq> []"
    using cs that by (cases cs) (auto simp: list_cells_def deref_def simp del: obind_Inr_iff)
  ultimately show ?thesis
    using cs by (auto simp: list_nth_def list_cells_def)
qed

lemma list_iterate_rep:
  assumes "list_rep l xs"
  shows "list_iterate f (list_head l) (elems l) s = Some (Inr (fold f xs s))"
proof -
  obtain cs where cs: "list_cells l cs" "map snd cs = xs"
    using assms by (auto simp: list_rep_def)
  then show ?thesis
    using list_iterate_cells list_cells_first by (fastforce simp: list_cells_def)
qed

lemma list_clear_rep:
  assumes "list_rep l xs"
  shows "list_clear l = Some (Inr list_empty)"
proof -
  obtain cs where cs: "list_cells l cs" "map snd cs = xs"
    using assms by (auto simp: list_rep_def)
  then have "clear_loop (first_ptr cs) (l\<lparr>list_head := None\<rparr>)
      = Some (Inr (l\<lparr>list_head := None, elems := Map.empty, numElements := 0\<rparr>))"
    using clear_loop_cells [of "l\<lparr>list_head := None\<rparr>" None cs "list_tail l"] list_cells_first [OF cs(1)]
    by (simp add: list_cells_def)
  then show ?thesis
    using list_cells_first [OF cs(1)] by (simp add: list_clear_def list_empty_def)
qed

lemma removeMatching_rep:
  assumes "list_rep l xs" "remove_matching callback ctx xs = (n, ctx', ys)"
  shows "\<exists>l'. removeMatching callback ctx l = Some (Inr (n, ctx', l')) \<and> list_rep l' ys"
proof -
  obtain cs where cs: "list_cells l cs" "map snd cs = xs"
    using assms by (auto simp: list_rep_def)
  then show ?thesis
    using removeMatching_loop_cells [of l "[]" cs callback ctx n ctx' ys 0] assms(2)
      list_cells_first [OF cs(1)]
    by (auto simp: removeMatching_def list_rep_def)
qed

lemma remove_matching_filter:
  "remove_matching (\<lambda>c x. (P x, x, c)) ctx xs
     = (length (filter P xs), ctx, filter (\<lambda>x. \<not> P x) xs)"
  by (induction xs) simp_all

lemma queue_pop_rep:
  assumes "list_rep q (x # xs)"
  shows "\<exists>q'. queue_pop q = Some (Inr (x, q')) \<and> list_rep q' xs \<and> dom (elems q') \<subseteq> dom (elems q)"
  using remove_head_rep [OF assms] list_nth_rep [OF assms, of 0] list_rep_size [OF assms]
  by (auto simp: queue_pop_def list_is_empty_def)

section \<open>The contract of a first-in first-out queue\<close>

fun pop_n :: "('q \<Rightarrow> ('a \<times> 'q) outcome option) \<Rightarrow> nat \<Rightarrow> 'q \<Rightarrow> ('a list \<times> 'q) outcome option" where
  "pop_n pop 0 q = Some (Inr ([], q))"
| "pop_n pop (Suc n) q =
     (case pop q of None \<Rightarrow> None | Some (Inl f) \<Rightarrow> Some (Inl f) | Some (Inr (x, q)) \<Rightarrow>
      map_option (\<lambda>r. obind r (\<lambda>(xs, q). Inr (x # xs, q))) (pop_n pop n q))"

locale fifo =
  fixes rep :: "'q \<Rightarrow> 'a list \<Rightarrow> bool" and used :: "'q \<Rightarrow> addr set"
    and push :: "addr \<Rightarrow> 'a \<Rightarrow> 'q \<Rightarrow> 'q outcome" and pop :: "'q \<Rightarrow> ('a \<times> 'q) outcome option"
  assumes push_rep: "rep q xs \<Longrightarrow> a \<notin> used q \<Longrightarrow>
        \<exists>q'. push a x q = Inr q' \<and> rep q' (xs @ [x]) \<and> used q' = insert a (used q)"
    and pop_rep: "rep q (x # xs) \<Longrightarrow> \<exists>q'. pop q = Some (Inr (x, q')) \<and> rep q' xs \<and> used q' \<subseteq> used q"
begin

lemma push_all_rep:
  "rep q xs \<Longrightarrow> distinct (map fst as) \<Longrightarrow> fst ` set as \<inter> used q = {} \<Longrightarrow>
   \<exists>q'. put_all (\<lambda>(a, x). push a x) as q = Inr q' \<and> rep q' (xs @ map snd as)"
proof (induction as arbitrary: q xs)
  case (Cons ax as)
  obtain q1 where "push (fst ax) (snd ax) q = Inr q1" "rep q1 (xs @ [snd ax])"
    "used q1 = insert (fst ax) (used q)"
    using push_rep [OF Cons.prems(1), of "fst ax" "snd ax"] Cons.prems(3) by auto
  then show ?case
    using Cons.IH [of q1 "xs @ [snd ax]"] Cons.prems by (auto simp: split_beta)
qed simp

lemma pop_n_rep:
  "rep q (xs @ ys) \<Longrightarrow> \<exists>q'. pop_n pop (length xs) q = Some (Inr (xs, q')) \<and> rep q' ys"
proof (induction xs arbitrary: q)
  case (Cons x xs)
  obtain q1 where "pop q = Some (Inr (x, q1))" "rep q1 (xs @ ys)"
    using pop_rep Cons.prems by fastforce
  then show ?case
    using Cons.IH by auto
qed simp

end

interpretation kernel_queue: fifo list_rep "\<lambda>q. dom (elems q)" queue_push_back queue_pop
  unfolding queue_push_back_def by unfold_locales (rule append_rep queue_pop_rep; assumption)+

section \<open>Properties\<close>

text \<open>
  C11: on a consistent linked list, adding at either end, removing the first item, indexing,
  iterating and clearing do what they do on the list of its items; no null or freed element is
  followed, both chains of pointers, the tail pointer and the count stay consistent, and the
  heap afterwards holds the linked elements and no others.
\<close>

theorem linked_list_refines:
  assumes "list_rep l xs" "el \<notin> dom (elems l)"
  shows "(\<exists>l'. prepend el x l = Inr l' \<and> list_rep l' (x # xs))
       \<and> (\<exists>l'. list_append el x l = Inr l' \<and> list_rep l' (xs @ [x]))
       \<and> (xs \<noteq> [] \<longrightarrow> (\<exists>l'. remove_index 0 l = Inr l' \<and> list_rep l' (tl xs)))
       \<and> list_nth k l = Some (if k < length xs then Inr (xs ! k)
                               else Inl (Panic ''list access out of bounds''))
       \<and> list_iterate f (list_head l) (elems l) s = Some (Inr (fold f xs s))
       \<and> list_clear l = Some (Inr list_empty)"
proof -
  obtain l1 where l1: "prepend el x l = Inr l1" "list_rep l1 (x # xs)"
    using prepend_rep [OF assms, of x] by blast
  obtain l2 where l2: "list_append el x l = Inr l2" "list_rep l2 (xs @ [x])"
    using append_rep [OF assms, of x] by blast
  have "\<exists>l'. remove_index 0 l = Inr l' \<and> list_rep l' (tl xs)" if "xs \<noteq> []"
  proof -
    have "list_rep l (hd xs # tl xs)"
      using assms(1) that by simp
    from remove_head_rep [OF this] show ?thesis
      by auto
  qed
  with l1 l2 show ?thesis
    using list_nth_rep [OF assms(1)] list_iterate_rep [OF assms(1)] list_clear_rep [OF assms(1)]
    by simp
qed

definition list_example :: "nat llist" where
  "list_example = \<lparr>elems = [10 \<mapsto> \<lparr>elem_value = 4, elem_prev = None, elem_next = Some 20\<rparr>,
     20 \<mapsto> \<lparr>elem_value = 5, elem_prev = Some 10, elem_next = None\<rparr>],
     list_head = Some 10, list_tail = Some 20, numElements = 2\<rparr>"

lemma list_example_rep: "list_rep list_example [4, 5]" "30 \<notin> dom (elems list_example)"
proof -
  have "list_cells list_example [(10, 4), (20, 5)]"
    by (auto simp: list_cells_def list_example_def)
  then show "list_rep list_example [4, 5]"
    by (force simp: list_rep_def)
qed (simp add: list_example_def)

theorem linked_list_refines_witness:
  "list_nth 1 list_example = Some (Inr 5) \<and> (\<exists>l'. list_append 30 6 list_example = Inr l' \<and> list_rep l' [4, 5, 6])"
  using linked_list_refines [OF list_example_rep, of 6 1 "\<lambda>_ _. ()" "()"] by auto

text \<open>
  C14: removing the matching items of a linked list, with a callback that carries a context and
  may change the items it looks at, ends, removes exactly the items it answered true for, frees
  their elements, keeps the order of the others, and counts what it removed; removing an item by
  value removes all of its occurrences.
\<close>

theorem removeMatching_correct:
  assumes "list_rep l xs" "remove_matching callback ctx xs = (n, ctx', ys)"
  shows "(\<exists>l'. removeMatching callback ctx l = Some (Inr (n, ctx', l')) \<and> list_rep l' ys)
       \<and> (\<exists>l'. remove_item item l = Some (Inr (count_list xs item, item, l'))
            \<and> list_rep l' (filter (\<lambda>x. x \<noteq> item) xs))"
proof -
  have "remove_matching (\<lambda>info x. (x = info, x, info)) item xs
      = (count_list xs item, item, filter (\<lambda>x. x \<noteq> item) xs)"
    by (induction xs) auto
  note by_value = removeMatching_rep [OF assms(1) this]
  show ?thesis
    unfolding remove_item_def using removeMatching_rep [OF assms] by_value by (rule conjI)
qed

theorem removeMatching_correct_witness:
  "\<exists>l'. remove_item 4 list_example = Some (Inr (1, 4, l')) \<and> list_rep l' [5]"
  using removeMatching_correct [OF list_example_rep(1), of "\<lambda>c x. (False, x, c)" "()" 0 "()" "[4, 5]" 4]
  by simp

text \<open>
  C18: a queue gives items back in the order they were pushed: after pushing any items, each into
  an element the allocator had free, popping returns first what was in the queue and then the
  pushed items.
\<close>

theorem queue_fifo:
  assumes "list_rep q xs" "distinct (map fst as)" "fst ` set as \<inter> dom (elems q) = {}"
  shows "\<exists>q1 q2. put_all (\<lambda>(a, x). queue_push_back a x) as q = Inr q1
       \<and> pop_n queue_pop (length xs + length as) q1 = Some (Inr (xs @ map snd as, q2))
       \<and> list_rep q2 []"
proof -
  obtain q1 where q1: "put_all (\<lambda>(a, x). queue_push_back a x) as q = Inr q1"
    "list_rep q1 (xs @ map snd as)"
    using kernel_queue.push_all_rep [OF assms] by blast
  then show ?thesis
    using kernel_queue.pop_n_rep [of q1 "xs @ map snd as" "[]"] by auto
qed

theorem queue_fifo_witness:
  "\<exists>q1 q2. put_all (\<lambda>(a, x). queue_push_back a x) [(30, 6), (40, 7)] list_example = Inr q1
     \<and> pop_n queue_pop (Suc (Suc 2)) q1 = Some (Inr ([4, 5, 6, 7], q2)) \<and> list_rep q2 []"
  using queue_fifo [OF list_example_rep(1), of "[(30, 6), (40, 7)]"]
  by (simp add: list_example_def numeral_2_eq_2 del: pop_n.simps put_all.simps)

end
