(* ===== verification/Phys_Mem.thy ===== *)
theory Phys_Mem
  imports Kush_Prelude
begin

text \<open>
  Physical page frames: \<^verbatim>\<open>kernel/src/mem/PhysRegion.h/.cpp\<close>, a bitmap allocator for up to 24576
  pages, and \<^verbatim>\<open>PhysicalAllocator.h/.cpp\<close>, which asks several of them. A region's \<^verbatim>\<open>next\<close>
  pointers, which are only ever extended at the end, are the list of the regions of a chain.
  The theory shows that the bitmaps implement a set of free frames, that an allocation takes one
  frame from it, zeroed, and that freeing gives it back, and states this as the contract of a
  frame allocator, which the page tables rely on.

  Physical memory is a function from addresses to the 64-bit word there. The spin lock and the
  critical section make every operation atomic. Logging is left out.
\<close>

section \<open>Regions\<close>

type_synonym phys_mem = "u64 \<Rightarrow> u64"

definition kMinPages :: u64 where "kMinPages = 4"
definition kMaxPages :: u64 where "kMaxPages = 24576"

record region =
  vmAvailable :: bool
  base :: u64
  len :: u64
  allocatable :: u64
  bitmapMax :: nat
  lastAllocIdx :: nat
  bitmap :: "u64 list"

definition region_init :: region where
  "region_init = \<lparr>vmAvailable = False, base = 0, len = 0, allocatable = 0, bitmapMax = 0,
     lastAllocIdx = 0, bitmap = replicate 384 0\<rparr>"

definition CanAllocate :: "u64 \<Rightarrow> u64 \<Rightarrow> bool" where
  "CanAllocate b l = (l > arch_page_size * kMinPages)"

text \<open>Setting and clearing the bit of a page in the bitmap.\<close>

definition bitmap_set :: "nat \<Rightarrow> u64 list \<Rightarrow> u64 list outcome" where
  "bitmap_set i bm = (if i div 64 < length bm
     then Inr (bm[i div 64 := bm ! (i div 64) OR push_bit (i mod 64) 1]) else Inl BadAccess)"

definition bitmap_clear :: "nat \<Rightarrow> nat \<Rightarrow> u64 list \<Rightarrow> u64 list outcome" where
  "bitmap_clear i bitOff bm = (if i < length bm
     then Inr (bm[i := bm ! i AND NOT (push_bit bitOff 1)]) else Inl BadAccess)"

fun mark_free :: "nat \<Rightarrow> nat \<Rightarrow> u64 list \<Rightarrow> u64 list outcome" where
  "mark_free i 0 bm = Inr bm"
| "mark_free i (Suc k) bm = obind (bitmap_set i bm) (mark_free (Suc i) k)"

definition commonInit :: "u64 \<Rightarrow> region \<Rightarrow> region outcome" where
  "commonInit numPages r =
     require (numPages \<le> kMaxPages) ''invalid number of pages'' (
     let r = r\<lparr>allocatable := numPages * arch_page_size, bitmapMax := unat (numPages - 1)\<rparr> in
     obind (mark_free 0 (bitmapMax r) (bitmap r)) (\<lambda>bm. Inr (r\<lparr>bitmap := bm\<rparr>)))"

definition region_create :: "u64 \<Rightarrow> u64 \<Rightarrow> region outcome" where
  "region_create b l =
     (let r = region_init\<lparr>base := b, len := l\<rparr>; pages = l div arch_page_size in
      require (pages \<ge> kMinPages) ''region too small'' (
      commonInit (if pages > kMaxPages then kMaxPages else pages) r))"

definition region_child :: "region \<Rightarrow> u64 \<Rightarrow> region outcome" where
  "region_child parent offset =
     require (offset mod arch_page_size = 0) ''region offset must be page aligned'' (
     let r = region_init\<lparr>vmAvailable := True, base := base parent + offset, len := len parent - offset\<rparr>;
         pages = len r div arch_page_size in
     require (pages \<ge> kMinPages) ''region too small'' (
     commonInit (if pages > kMaxPages then kMaxPages else pages) r))"

text \<open>
  The loop of \<^verbatim>\<open>initNextIfNeeded\<close>, which appends children while there is memory left. Every
  child takes at least four pages off the remaining length; the loop gets as much fuel as there
  are pages.
\<close>

fun init_children :: "nat \<Rightarrow> region \<Rightarrow> u64 \<Rightarrow> u64 \<Rightarrow> region list outcome option" where
  "init_children 0 r offset remaining = None"
| "init_children (Suc n) r offset remaining =
     (if CanAllocate (base r + offset) remaining then
        case region_child r offset of Inl f \<Rightarrow> Some (Inl f) | Inr child \<Rightarrow>
        map_option (\<lambda>rest. obind rest (\<lambda>rest. Inr (child # rest)))
          (init_children n r (offset + allocatable child) (remaining - allocatable child))
      else Some (Inr []))"

definition initNextIfNeeded :: "region list \<Rightarrow> region list outcome option" where
  "initNextIfNeeded chain = (case chain of [] \<Rightarrow> Some (Inl NullDeref) | r # rest \<Rightarrow>
     (let r = r\<lparr>vmAvailable := True\<rparr>; offset = allocatable r in
      if offset mod arch_page_size \<noteq> 0
      then Some (Inl (Panic ''allocatable length must be page aligned''))
      else
        let remaining = len r - allocatable r in
        if remaining = 0 \<or> \<not> CanAllocate (base r + offset) remaining then Some (Inr (r # rest))
        else map_option (\<lambda>cs. obind cs (\<lambda>cs. Inr (r # cs)))
               (init_children (unat (remaining div arch_page_size) + 1) r offset remaining)))"

text \<open>\<^verbatim>\<open>__builtin_ffsl\<close>: one plus the index of the lowest set bit, 0 for 0.\<close>

definition ffsl :: "u64 \<Rightarrow> nat" where
  "ffsl w = (case List.find (bit w) [0..<64] of None \<Rightarrow> 0 | Some i \<Rightarrow> i + 1)"

definition zero_page :: "u64 \<Rightarrow> phys_mem \<Rightarrow> phys_mem" where
  "zero_page pa m = (\<lambda>a. if a - pa < arch_page_size then 0 else m a)"

definition zero :: "region \<Rightarrow> u64 \<Rightarrow> phys_mem \<Rightarrow> phys_mem" where
  "zero r physAddr m = (if vmAvailable r then zero_page physAddr m else m)"

text \<open>The search through the words of the bitmap, over the indices still to look at.\<close>

fun scan_words :: "u64 list \<Rightarrow> nat list \<Rightarrow> nat option outcome" where
  "scan_words bm [] = Inr None"
| "scan_words bm (i # is) =
     (if i < length bm then if bm ! i = 0 then scan_words bm is else Inr (Some i)
      else Inl BadAccess)"

definition take_page :: "nat \<Rightarrow> region \<Rightarrow> phys_mem \<Rightarrow> (u64 \<times> region \<times> phys_mem) outcome" where
  "take_page i r m =
     (let bitOff = ffsl (bitmap r ! i) - 1 in
      require (bitOff \<le> 63) ''invalid bit offset'' (
      let pageOff = i * 64 + bitOff in
      obind (bitmap_clear i bitOff (bitmap r)) (\<lambda>bm.
      let pageAddr = base r + word_of_nat pageOff * arch_page_size in
      Inr (pageAddr, r\<lparr>bitmap := bm, lastAllocIdx := i\<rparr>, zero r pageAddr m))))"

definition region_alloc :: "region \<Rightarrow> phys_mem \<Rightarrow> (u64 \<times> region \<times> phys_mem) outcome" where
  "region_alloc r m =
     (let maxIdx = (bitmapMax r + 63) div 64 in
      obind (scan_words (bitmap r) [lastAllocIdx r..<maxIdx]) (\<lambda>s.
      case s of Some i \<Rightarrow> take_page i r m
      | None \<Rightarrow>
          if lastAllocIdx r \<noteq> 0 then
            let r = r\<lparr>lastAllocIdx := 0\<rparr> in
            obind (scan_words (bitmap r) [0..<maxIdx]) (\<lambda>s.
            case s of Some i \<Rightarrow> take_page i r m | None \<Rightarrow> Inr (0, r, m))
          else Inr (0, r, m)))"

definition checkAddress :: "region \<Rightarrow> u64 \<Rightarrow> bool" where
  "checkAddress r addr = (addr \<ge> base r \<and> addr < base r + allocatable r)"

fun region_free :: "u64 list \<Rightarrow> nat \<Rightarrow> region \<Rightarrow> (nat \<times> region) outcome" where
  "region_free [] freed r = Inr (freed, r)"
| "region_free (page # pages) freed r =
     (if \<not> checkAddress r page then region_free pages freed r
      else
        let pageOff = unat ((page - base r) div arch_page_size) in
        require (pageOff < bitmapMax r) ''attempting to free invalid page'' (
        obind (bitmap_set pageOff (bitmap r)) (\<lambda>bm.
        region_free pages (freed + 1) (r\<lparr>bitmap := bm\<rparr>))))"

definition region_free1 :: "u64 \<Rightarrow> region \<Rightarrow> region outcome" where
  "region_free1 address r = obind (region_free [address] 0 r) (\<lambda>(freed, r). Inr r)"

definition getAvailableBytes :: "region list \<Rightarrow> u64" where
  "getAvailableBytes chain = foldl (\<lambda>sum r. sum + allocatable r) 0 chain"

section \<open>The allocator\<close>

definition kMaxRegions :: nat where "kMaxRegions = 10"

record allocator =
  regions :: "region list list"
  allocatedPages :: u64
  reservedPages :: u64

text \<open>
  The constructor asks the platform for its memory ranges: one entry per range, \<^term>\<open>None\<close>
  where the platform reports an error.
\<close>

fun add_regions :: "(u64 \<times> u64) option list \<Rightarrow> region list list \<Rightarrow> region list list outcome" where
  "add_regions [] rs = Inr rs"
| "add_regions (None # es) rs = Inl (Panic ''failed to get info for physical region'')"
| "add_regions (Some (baseAddr, l) # es) rs =
     (if \<not> CanAllocate baseAddr l then add_regions es rs
      else require (length rs < kMaxRegions) ''too many phys regions'' (
           obind (region_create baseAddr l) (\<lambda>r. add_regions es (rs @ [[r]]))))"

definition allocator_create :: "(u64 \<times> u64) option list \<Rightarrow> allocator outcome" where
  "allocator_create entries =
     obind (add_regions entries []) (\<lambda>rs.
     require (rs \<noteq> []) ''failed to allocate phys regions''
       (Inr \<lparr>regions = rs, allocatedPages = 0, reservedPages = 0\<rparr>))"

fun notify_chains :: "region list list \<Rightarrow> region list list outcome option" where
  "notify_chains [] = Some (Inr [])"
| "notify_chains (c # cs) =
     (case initNextIfNeeded c of None \<Rightarrow> None | Some (Inl f) \<Rightarrow> Some (Inl f) | Some (Inr c) \<Rightarrow>
      map_option (\<lambda>r. obind r (\<lambda>cs. Inr (c # cs))) (notify_chains cs))"

definition notifyRegionsVm :: "allocator \<Rightarrow> allocator outcome option" where
  "notifyRegionsVm p =
     map_option (\<lambda>r. obind r (\<lambda>rs. Inr (p\<lparr>regions := rs\<rparr>))) (notify_chains (regions p))"

fun alloc_chain :: "region list \<Rightarrow> phys_mem \<Rightarrow> (u64 \<times> region list \<times> phys_mem) outcome" where
  "alloc_chain [] m = Inr (0, [], m)"
| "alloc_chain (r # rs) m =
     obind (region_alloc r m) (\<lambda>(page, r, m).
     if page \<noteq> 0 then Inr (page, r # rs, m)
     else obind (alloc_chain rs m) (\<lambda>(page, rs, m). Inr (page, r # rs, m)))"

fun alloc_chains :: "region list list \<Rightarrow> phys_mem \<Rightarrow> (u64 \<times> region list list \<times> phys_mem) outcome" where
  "alloc_chains [] m = Inr (0, [], m)"
| "alloc_chains (c # cs) m =
     obind (alloc_chain c m) (\<lambda>(page, c, m).
     if page \<noteq> 0 then Inr (page, c # cs, m)
     else obind (alloc_chains cs m) (\<lambda>(page, cs, m). Inr (page, c # cs, m)))"

definition allocPage :: "allocator \<Rightarrow> phys_mem \<Rightarrow> (u64 \<times> allocator \<times> phys_mem) outcome" where
  "allocPage p m =
     obind (alloc_chains (regions p) m) (\<lambda>(page, rs, m).
     Inr (page, p\<lparr>regions := rs,
                  allocatedPages := (if page \<noteq> 0 then allocatedPages p + 1 else allocatedPages p)\<rparr>, m))"

fun free_chain :: "u64 \<Rightarrow> region list \<Rightarrow> region list option outcome" where
  "free_chain a [] = Inr None"
| "free_chain a (r # rs) =
     (if checkAddress r a then obind (region_free1 a r) (\<lambda>r. Inr (Some (r # rs)))
      else obind (free_chain a rs) (\<lambda>s. Inr (map_option (\<lambda>rs. r # rs) s)))"

fun free_chains :: "u64 \<Rightarrow> region list list \<Rightarrow> region list list option outcome" where
  "free_chains a [] = Inr None"
| "free_chains a (c # cs) =
     obind (free_chain a c) (\<lambda>s. case s of Some c \<Rightarrow> Inr (Some (c # cs))
       | None \<Rightarrow> obind (free_chains a cs) (\<lambda>s. Inr (map_option (\<lambda>cs. c # cs) s)))"

definition freePage :: "u64 \<Rightarrow> allocator \<Rightarrow> allocator outcome" where
  "freePage physAddr p =
     obind (free_chains physAddr (regions p)) (\<lambda>s.
     case s of Some rs \<Rightarrow> Inr (p\<lparr>regions := rs, allocatedPages := allocatedPages p - 1\<rparr>)
     | None \<Rightarrow> Inl (Panic ''failed to free phys page''))"

definition getTotalPages :: "allocator \<Rightarrow> u64" where
  "getTotalPages p =
     foldl (\<lambda>bytes c. bytes + getAvailableBytes c) 0 (regions p) div arch_page_size"

section \<open>The bitmap as a set of pages\<close>

definition page_bit :: "u64 list \<Rightarrow> nat \<Rightarrow> bool" where
  "page_bit bm n = (n div 64 < length bm \<and> bit (bm ! (n div 64)) (n mod 64))"

lemma div_mod_64_eq: "(m div 64 = n div 64 \<and> m mod 64 = n mod 64) \<longleftrightarrow> m = (n :: nat)"
  by (metis mult_div_mod_eq)

lemma bitmap_set_spec:
  assumes "i < 64 * length bm"
  shows "\<exists>bm'. bitmap_set i bm = Inr bm' \<and> length bm' = length bm
       \<and> (\<forall>n. page_bit bm' n \<longleftrightarrow> n = i \<or> page_bit bm n)"
proof -
  have i: "i div 64 < length bm"
    using assms by (simp add: less_mult_imp_div_less mult.commute)
  have "page_bit (bm[i div 64 := bm ! (i div 64) OR push_bit (i mod 64) 1]) n \<longleftrightarrow> n = i \<or> page_bit bm n" for n
    using i div_mod_64_eq [of n i]
    by (auto simp: page_bit_def nth_list_update bit_simps)
  then show ?thesis
    using i by (simp add: bitmap_set_def)
qed

lemma bitmap_clear_spec:
  assumes "i < length bm" "b < 64"
  shows "\<exists>bm'. bitmap_clear i b bm = Inr bm' \<and> length bm' = length bm
       \<and> (\<forall>n. page_bit bm' n \<longleftrightarrow> n \<noteq> i * 64 + b \<and> page_bit bm n)"
proof -
  have "page_bit (bm[i := bm ! i AND NOT (push_bit b 1)]) n \<longleftrightarrow> n \<noteq> i * 64 + b \<and> page_bit bm n" for n
    using assms div_mod_64_eq [of n "i * 64 + b"]
    by (auto simp: page_bit_def nth_list_update bit_simps)
  then show ?thesis
    using assms by (simp add: bitmap_clear_def)
qed

lemma mark_free_spec:
  "i + k \<le> 64 * length bm \<Longrightarrow>
   \<exists>bm'. mark_free i k bm = Inr bm' \<and> length bm' = length bm
     \<and> (\<forall>n. page_bit bm' n \<longleftrightarrow> (i \<le> n \<and> n < i + k) \<or> page_bit bm n)"
proof (induction k arbitrary: i bm)
  case (Suc k)
  obtain bm1 where bm1: "bitmap_set i bm = Inr bm1" "length bm1 = length bm"
    "\<forall>n. page_bit bm1 n \<longleftrightarrow> n = i \<or> page_bit bm n"
    using bitmap_set_spec [of i bm] Suc.prems by auto
  then obtain bm2 where "mark_free (Suc i) k bm1 = Inr bm2" "length bm2 = length bm"
    "\<forall>n. page_bit bm2 n \<longleftrightarrow> (Suc i \<le> n \<and> n < Suc i + k) \<or> page_bit bm1 n"
    using Suc.IH [of "Suc i" bm1] Suc.prems by auto
  then show ?case
    using bm1 by (auto simp: less_Suc_eq_le Suc_le_eq)
qed auto

lemma ffsl_spec:
  assumes "w \<noteq> 0"
  shows "\<exists>b < 64. ffsl w = b + 1 \<and> bit w b"
proof -
  obtain b where "b < 64" "bit w b"
    using assms bit_word_eqI [of w 0] by auto
  then have "List.find (bit w) [0..<64] \<noteq> None"
    by (auto simp: find_None_iff)
  then obtain c where c: "List.find (bit w) [0..<64] = Some c"
    by blast
  then have "c < 64" "bit w c"
    by (auto simp: find_Some_iff)
  then show ?thesis
    using c by (auto simp: ffsl_def)
qed

lemma scan_words_spec:
  "\<forall>i \<in> set is. i < length bm \<Longrightarrow> scan_words bm is = Inr (List.find (\<lambda>i. bm ! i \<noteq> 0) is)"
  by (induction "is") auto

section \<open>Well-formed regions\<close>

text \<open>
  A region the kernel can use starts on a page boundary and lies in the first 2^47 bytes of
  physical memory, which is what the identity map at \<^verbatim>\<open>kPhysIdentityMap\<close> reaches.
\<close>

definition region_ok :: "region \<Rightarrow> bool" where
  "region_ok r \<longleftrightarrow> length (bitmap r) = 384 \<and> bitmapMax r < 24576
     \<and> (\<forall>n. page_bit (bitmap r) n \<longrightarrow> n < bitmapMax r)
     \<and> allocatable r = word_of_nat (bitmapMax r + 1) * arch_page_size
     \<and> unat (base r) + (bitmapMax r + 1) * 4096 \<le> 2 ^ 47 \<and> unat (base r) mod 4096 = 0"

definition free_idx :: "region \<Rightarrow> nat set" where
  "free_idx r = {n. page_bit (bitmap r) n}"

definition page_addr :: "region \<Rightarrow> nat \<Rightarrow> u64" where
  "page_addr r n = base r + word_of_nat n * arch_page_size"

definition region_frames :: "region \<Rightarrow> u64 set" where
  "region_frames r = page_addr r ` free_idx r"

definition same_shape :: "region \<Rightarrow> region \<Rightarrow> bool" where
  "same_shape r r' \<longleftrightarrow> vmAvailable r' = vmAvailable r \<and> base r' = base r \<and> len r' = len r
     \<and> allocatable r' = allocatable r \<and> bitmapMax r' = bitmapMax r"

lemma page_addr_shape: "same_shape r r' \<Longrightarrow> page_addr r' = page_addr r"
  by (auto simp: same_shape_def page_addr_def)

lemma unat_page_offset: "n < 2 ^ 52 \<Longrightarrow> unat (word_of_nat n * arch_page_size :: u64) = n * 4096"
  by (simp add: arch_page_size_def unat_word_ariths unat_of_nat_u64)

lemma unat_page_addr:
  assumes "region_ok r" "n \<le> bitmapMax r"
  shows "unat (page_addr r n) = unat (base r) + n * 4096"
proof -
  have "unat (base r) + n * 4096 < 2 ^ 64" "n < 2 ^ 52"
    using assms by (auto simp: region_ok_def)
  then show ?thesis
    by (simp add: page_addr_def unat_word_ariths(1) unat_page_offset)
qed

lemma page_addr_inj: "region_ok r \<Longrightarrow> inj_on (page_addr r) {..bitmapMax r}"
  by (rule inj_onI) (metis add_left_cancel atMost_iff mult_right_cancel unat_page_addr zero_neq_numeral)

lemma free_idx_bound: "region_ok r \<Longrightarrow> n \<in> free_idx r \<Longrightarrow> n < bitmapMax r"
  by (auto simp: region_ok_def free_idx_def)

lemma checkAddress_iff:
  assumes "region_ok r"
  shows "checkAddress r a \<longleftrightarrow> unat (base r) \<le> unat a \<and> unat a < unat (base r) + (bitmapMax r + 1) * 4096"
proof -
  have "unat (allocatable r) = (bitmapMax r + 1) * 4096"
    using assms unat_page_offset [of "bitmapMax r + 1"] by (simp add: region_ok_def)
  then have "unat (base r + allocatable r) = unat (base r) + (bitmapMax r + 1) * 4096"
    using assms by (simp add: region_ok_def unat_word_ariths(1))
  then show ?thesis
    by (simp add: checkAddress_def word_le_nat_alt word_less_nat_alt)
qed

lemma region_frames_in_range: "region_ok r \<Longrightarrow> a \<in> region_frames r \<Longrightarrow> checkAddress r a"
  using free_idx_bound [of r] by (fastforce simp: region_frames_def checkAddress_iff unat_page_addr)

text \<open>
  What one attempt to allocate does to a region: nothing is free and the answer is 0, or one
  free page is taken.
\<close>

definition takes_page :: "region \<Rightarrow> phys_mem \<Rightarrow> u64 \<Rightarrow> region \<Rightarrow> phys_mem \<Rightarrow> bool" where
  "takes_page r m pa r' m' \<longleftrightarrow>
     (\<exists>n \<in> free_idx r. pa = page_addr r n \<and> free_idx r' = free_idx r - {n} \<and> m' = zero r pa m)"

lemma take_page_spec:
  assumes "region_ok r" "i < 384" "bitmap r ! i \<noteq> 0"
  shows "\<exists>pa r' m'. take_page i r m = Inr (pa, r', m') \<and> region_ok r' \<and> same_shape r r'
       \<and> takes_page r m pa r' m'"
proof -
  obtain b where b: "b < 64" "ffsl (bitmap r ! i) = b + 1" "bit (bitmap r ! i) b"
    using ffsl_spec [OF assms(3)] by blast
  have len: "length (bitmap r) = 384"
    using assms(1) by (simp add: region_ok_def)
  obtain bm where bm: "bitmap_clear i b (bitmap r) = Inr bm" "length bm = 384"
    "\<forall>n. page_bit bm n \<longleftrightarrow> n \<noteq> i * 64 + b \<and> page_bit (bitmap r) n"
    using bitmap_clear_spec [of i "bitmap r" b] assms(2) b(1) len by auto
  let ?n = "i * 64 + b" and ?r = "r\<lparr>bitmap := bm, lastAllocIdx := i\<rparr>"
  have n: "?n \<in> free_idx r" "free_idx ?r = free_idx r - {?n}"
    using b bm(3) assms(2) len by (auto simp: free_idx_def page_bit_def)
  have "take_page i r m = Inr (page_addr r ?n, ?r, zero r (page_addr r ?n) m)"
    using b bm(1) by (simp add: take_page_def page_addr_def Let_def)
  moreover have "region_ok ?r" "same_shape r ?r"
    using assms(1) bm(2,3) by (auto simp: region_ok_def same_shape_def)
  ultimately show ?thesis
    using n by (auto simp: takes_page_def)
qed

lemma region_ok_last [simp]: "region_ok (r\<lparr>lastAllocIdx := i\<rparr>) = region_ok r"
  by (simp add: region_ok_def)

lemma last_idx_irrelevant [simp]:
  "free_idx (r\<lparr>lastAllocIdx := i\<rparr>) = free_idx r" "page_addr (r\<lparr>lastAllocIdx := i\<rparr>) = page_addr r"
  "same_shape (r\<lparr>lastAllocIdx := i\<rparr>) r' = same_shape r r'"
  "same_shape r (r\<lparr>lastAllocIdx := i\<rparr>)" "same_shape r r"
  "takes_page (r\<lparr>lastAllocIdx := i\<rparr>) m pa r' m' = takes_page r m pa r' m'"
  by (auto simp: free_idx_def page_addr_def same_shape_def takes_page_def zero_def)

lemma scan_found:
  assumes "region_ok r" "List.find (\<lambda>i. bitmap r ! i \<noteq> 0) [k..<(bitmapMax r + 63) div 64] = Some i"
  shows "i < 384" "bitmap r ! i \<noteq> 0"
  using assms by (auto simp: find_Some_iff region_ok_def nth_append)

lemma scan_missed:
  assumes "region_ok r" "List.find (\<lambda>i. bitmap r ! i \<noteq> 0) [0..<(bitmapMax r + 63) div 64] = None"
  shows "free_idx r = {}"
proof -
  have "n div 64 < (bitmapMax r + 63) div 64" if "n < bitmapMax r" for n
    using that by linarith
  then show ?thesis
    using assms by (fastforce simp: find_None_iff region_ok_def free_idx_def page_bit_def)
qed

lemma region_alloc_spec:
  assumes "region_ok r"
  shows "\<exists>pa r' m'. region_alloc r m = Inr (pa, r', m') \<and> region_ok r' \<and> same_shape r r'
       \<and> (if free_idx r = {} then pa = 0 \<and> free_idx r' = {} \<and> m' = m else takes_page r m pa r' m')"
proof -
  let ?find = "\<lambda>k. List.find (\<lambda>i. bitmap r ! i \<noteq> 0) [k..<(bitmapMax r + 63) div 64]"
  have scan: "scan_words (bitmap r) [k..<(bitmapMax r + 63) div 64] = Inr (?find k)" for k
    using assms by (intro scan_words_spec) (auto simp: region_ok_def)
  have ne: "takes_page r m pa r' m' \<Longrightarrow> free_idx r \<noteq> {}" for pa r' m'
    by (auto simp: takes_page_def)
  show ?thesis
  proof (cases "?find (lastAllocIdx r)")
    case (Some i)
    then show ?thesis
      using take_page_spec [OF assms scan_found [OF assms Some], of m] ne
      by (fastforce simp: region_alloc_def scan)
  next
    case None
    show ?thesis
    proof (cases "?find 0")
      case found: (Some i)
      then have "lastAllocIdx r \<noteq> 0"
        using None by (metis option.distinct(1))
      then show ?thesis
        using take_page_spec [of "r\<lparr>lastAllocIdx := 0\<rparr>" i m] scan_found [OF assms found] None found assms ne
        by (fastforce simp: region_alloc_def scan Let_def)
    next
      case missed: None
      then show ?thesis
        using None scan_missed [OF assms missed] assms
        by (auto simp: region_alloc_def scan Let_def)
    qed
  qed
qed

lemma region_free1_spec:
  assumes "region_ok r" "n < bitmapMax r" "a = page_addr r n"
  shows "\<exists>r'. region_free1 a r = Inr r' \<and> region_ok r' \<and> same_shape r r' \<and> free_idx r' = insert n (free_idx r)"
proof -
  have a: "unat a = unat (base r) + n * 4096"
    using unat_page_addr [OF assms(1)] assms(2,3) by simp
  then have off: "unat ((a - base r) div arch_page_size) = n"
    by (simp add: arch_page_size_def unat_div unat_sub word_le_nat_alt)
  have "checkAddress r a"
    using assms(2) a by (simp add: checkAddress_iff [OF assms(1)])
  moreover obtain bm where "bitmap_set n (bitmap r) = Inr bm" "length bm = 384"
    "\<forall>k. page_bit bm k \<longleftrightarrow> k = n \<or> page_bit (bitmap r) k"
    using bitmap_set_spec [of n "bitmap r"] assms(1,2) by (auto simp: region_ok_def)
  ultimately show ?thesis
    using assms(1,2) off
    by (auto simp: region_free1_def region_ok_def same_shape_def free_idx_def Let_def)
qed

section \<open>Chains of regions\<close>

definition region_overlap :: "region \<Rightarrow> region \<Rightarrow> bool" where
  "region_overlap r s \<longleftrightarrow> (\<exists>a. checkAddress r a \<and> checkAddress s a)"

definition regions_ok :: "region list \<Rightarrow> bool" where
  "regions_ok rs \<longleftrightarrow> (\<forall>r \<in> set rs. region_ok r \<and> base r \<noteq> 0)
     \<and> sorted_wrt (\<lambda>r s. \<not> region_overlap r s) rs"

definition frames :: "region list \<Rightarrow> u64 set" where
  "frames rs = (\<Union>r \<in> set rs. region_frames r)"

lemma frames_simps [simp]:
  "frames [] = {}" "frames (r # rs) = region_frames r \<union> frames rs"
  "frames (rs @ ss) = frames rs \<union> frames ss"
  by (auto simp: frames_def)

lemma overlap_shape:
  "same_shape r r' \<Longrightarrow> same_shape s s' \<Longrightarrow> region_overlap r' s' = region_overlap r s"
  by (simp add: same_shape_def region_overlap_def checkAddress_def)

lemma regions_ok_Cons:
  "regions_ok (r # rs) \<longleftrightarrow> region_ok r \<and> base r \<noteq> 0 \<and> (\<forall>s \<in> set rs. \<not> region_overlap r s) \<and> regions_ok rs"
  by (auto simp: regions_ok_def)

lemma overlap_all2:
  "list_all2 same_shape rs rs' \<Longrightarrow> same_shape r r' \<Longrightarrow>
   (\<forall>s \<in> set rs. \<not> region_overlap r s) \<Longrightarrow> (\<forall>s \<in> set rs'. \<not> region_overlap r' s)"
  by (induction rule: list_all2_induct) (auto simp: overlap_shape)

lemma region_frames_shape:
  "same_shape r r' \<Longrightarrow> region_frames r' = page_addr r ` free_idx r'"
  by (simp add: region_frames_def page_addr_shape)

lemma takes_page_frames:
  assumes "region_ok r" "base r \<noteq> 0" "same_shape r r'" "takes_page r m pa r' m'"
  shows "pa \<noteq> 0" "pa \<in> region_frames r" "region_frames r' = region_frames r - {pa}"
    "m' = zero r pa m"
proof -
  obtain n where n: "n \<in> free_idx r" "pa = page_addr r n" "free_idx r' = free_idx r - {n}"
    "m' = zero r pa m"
    using assms(4) by (auto simp: takes_page_def)
  have "0 < unat (base r)"
    using assms(2) by (simp add: unat_gt_0)
  moreover have "unat pa = unat (base r) + n * 4096"
    using n free_idx_bound [OF assms(1)] unat_page_addr [OF assms(1)] by (simp add: less_imp_le)
  ultimately show "pa \<noteq> 0"
    by auto
  show "pa \<in> region_frames r" "m' = zero r pa m"
    using n by (auto simp: region_frames_def)
  have "inj_on (page_addr r) (free_idx r)"
    using free_idx_bound [OF assms(1)]
    by (intro inj_on_subset [OF page_addr_inj [OF assms(1)]]) (auto simp: less_imp_le)
  then show "region_frames r' = region_frames r - {pa}"
    using n by (simp add: region_frames_def page_addr_shape [OF assms(3)] inj_on_image_set_diff)
qed

lemma frames_apart:
  assumes "region_ok r" "\<forall>s \<in> set rs. \<not> region_overlap r s" "regions_ok rs"
  shows "checkAddress r a \<Longrightarrow> a \<notin> frames rs"
  using assms unfolding frames_def region_overlap_def regions_ok_def
  by (meson UN_E region_frames_in_range)

lemma alloc_chain_spec:
  "regions_ok rs \<Longrightarrow>
   \<exists>pa rs' m'. alloc_chain rs m = Inr (pa, rs', m') \<and> regions_ok rs' \<and> list_all2 same_shape rs rs'
     \<and> (if frames rs = {} then pa = 0 \<and> frames rs' = {} \<and> m' = m
        else pa \<noteq> 0 \<and> pa \<in> frames rs \<and> frames rs' = frames rs - {pa}
           \<and> (m' = m \<or> m' = zero_page pa m) \<and> ((\<forall>r \<in> set rs. vmAvailable r) \<longrightarrow> m' = zero_page pa m))"
proof (induction rs)
  case Nil
  then show ?case
    by simp
next
  case (Cons r rs)
  then have ok: "region_ok r" "base r \<noteq> 0" "\<forall>s \<in> set rs. \<not> region_overlap r s" "regions_ok rs"
    by (auto simp: regions_ok_Cons)
  obtain pa r' m' where r': "region_alloc r m = Inr (pa, r', m')" "region_ok r'" "same_shape r r'"
    "if free_idx r = {} then pa = 0 \<and> free_idx r' = {} \<and> m' = m else takes_page r m pa r' m'"
    using region_alloc_spec [OF ok(1)] by metis
  have base': "base r' \<noteq> 0"
    using ok(2) r'(3) by (simp add: same_shape_def)
  show ?case
  proof (cases "free_idx r = {}")
    case True
    then have none: "pa = 0" "m' = m" "region_frames r = {}" "region_frames r' = {}"
      using r'(4) by (auto simp: region_frames_def)
    obtain pa2 rs2 m2 where rs2: "alloc_chain rs m = Inr (pa2, rs2, m2)" "regions_ok rs2"
      "list_all2 same_shape rs rs2"
      "if frames rs = {} then pa2 = 0 \<and> frames rs2 = {} \<and> m2 = m
        else pa2 \<noteq> 0 \<and> pa2 \<in> frames rs \<and> frames rs2 = frames rs - {pa2}
           \<and> (m2 = m \<or> m2 = zero_page pa2 m) \<and> ((\<forall>r \<in> set rs. vmAvailable r) \<longrightarrow> m2 = zero_page pa2 m)"
      using Cons.IH [OF ok(4)] by metis
    have "regions_ok (r' # rs2)"
      using r'(2) base' rs2(2) overlap_all2 [OF rs2(3) r'(3) ok(3)] by (simp add: regions_ok_Cons)
    then show ?thesis
      using r'(1,3) rs2 none by (auto split: if_splits)
  next
    case False
    then have taken: "takes_page r m pa r' m'"
      using r'(4) by simp
    note t = takes_page_frames [OF ok(1,2) r'(3) taken]
    have "pa \<notin> frames rs"
      using frames_apart [OF ok(1,3,4)] region_frames_in_range [OF ok(1) t(2)] by blast
    moreover have "regions_ok (r' # rs)"
      using r'(2) base' ok(3,4) overlap_all2 [OF list.rel_refl [of same_shape rs] r'(3) ok(3)]
      by (simp add: regions_ok_Cons)
    moreover have "list_all2 same_shape rs rs"
      by (simp add: list.rel_refl)
    ultimately show ?thesis
      using t r'(1,3) by (auto simp: zero_def)
  qed
qed

lemma alloc_chain_append:
  "alloc_chain (xs @ ys) m =
     obind (alloc_chain xs m) (\<lambda>(p, xs, m).
       if p \<noteq> 0 then Inr (p, xs @ ys, m)
       else obind (alloc_chain ys m) (\<lambda>(p, ys, m). Inr (p, xs @ ys, m)))"
proof (induction xs arbitrary: m)
  case Nil
  show ?case
    by (cases "alloc_chain ys m") auto
next
  case (Cons r xs)
  show ?case
  proof (cases "region_alloc r m")
    case (Inr res)
    obtain p r' m' where res: "res = (p, r', m')"
      by (metis prod_cases3)
    then show ?thesis
      using Inr Cons.IH by (cases "alloc_chain xs m'"; cases "alloc_chain ys m'") (auto split: prod.splits simp: obind_def split: sum.splits)
  qed simp
qed

text \<open>Asking chain after chain is asking the regions of all chains in turn.\<close>

lemma alloc_chains_flat:
  "map_sum id (\<lambda>(p, cs, m). (p, concat cs, m)) (alloc_chains cs m) = alloc_chain (concat cs) m"
proof (induction cs arbitrary: m)
  case (Cons c cs)
  show ?case
  proof (cases "alloc_chain c m")
    case (Inr res)
    obtain p c' m' where res: "res = (p, c', m')"
      by (metis prod_cases3)
    show ?thesis
      using Inr res unfolding concat.simps alloc_chain_append Cons.IH [symmetric]
      by (cases "alloc_chains cs m'") (auto split: prod.splits)
  qed (simp add: alloc_chain_append)
qed simp

lemma free_chain_append:
  "free_chain a (xs @ ys) =
     obind (free_chain a xs) (\<lambda>s. case s of Some xs \<Rightarrow> Inr (Some (xs @ ys))
       | None \<Rightarrow> obind (free_chain a ys) (\<lambda>s. Inr (map_option (\<lambda>ys. xs @ ys) s)))"
proof (induction xs)
  case Nil
  then show ?case
    by (cases "free_chain a ys") (auto simp: map_option_case split: option.split)
next
  case (Cons r xs)
  then show ?case
    by (cases "free_chain a xs"; cases "free_chain a ys")
      (auto simp: obind_def map_option_case split: sum.splits option.splits)
qed

lemma free_chains_flat:
  "map_sum id (map_option concat) (free_chains a cs) = free_chain a (concat cs)"
proof (induction cs)
  case (Cons c cs)
  show ?case
  proof (cases "free_chain a c")
    case (Inr s)
    then show ?thesis
      unfolding concat.simps free_chain_append Cons.IH [symmetric]
      by (cases s; cases "free_chains a cs") (auto simp: option.map_comp comp_def)
  qed (simp add: free_chain_append)
qed simp

lemma free_chain_spec:
  "regions_ok rs \<Longrightarrow> r \<in> set rs \<Longrightarrow> n < bitmapMax r \<Longrightarrow> a = page_addr r n \<Longrightarrow>
   \<exists>rs'. free_chain a rs = Inr (Some rs') \<and> regions_ok rs' \<and> list_all2 same_shape rs rs'
       \<and> frames rs' = insert a (frames rs)"
proof (induction rs)
  case (Cons s rs)
  then have ok: "region_ok s" "base s \<noteq> 0" "\<forall>t \<in> set rs. \<not> region_overlap s t" "regions_ok rs"
    and rok: "region_ok r"
    by (auto simp: regions_ok_Cons regions_ok_def)
  have in_r: "checkAddress r a"
    using Cons.prems(3,4) rok by (simp add: checkAddress_iff unat_page_addr)
  show ?case
  proof (cases "checkAddress s a")
    case True
    then have "r = s"
      using Cons.prems(2) ok(3) in_r by (auto simp: region_overlap_def)
    then obtain s' where s': "region_free1 a s = Inr s'" "region_ok s'" "same_shape s s'"
      "free_idx s' = insert n (free_idx s)"
      using region_free1_spec [OF ok(1)] Cons.prems(3,4) by blast
    moreover have "region_frames s' = insert a (region_frames s)"
      using s' Cons.prems(4) \<open>r = s\<close> by (simp add: region_frames_def page_addr_shape [OF s'(3)])
    moreover have "base s' \<noteq> 0"
      using ok(2) s'(3) by (simp add: same_shape_def)
    moreover have "\<forall>t \<in> set rs. \<not> region_overlap s' t"
      using overlap_all2 [OF list.rel_refl [of same_shape rs] s'(3) ok(3)] by simp
    ultimately show ?thesis
      using True ok(4) by (auto simp: regions_ok_Cons list.rel_refl)
  next
    case False
    then have "r \<in> set rs"
      using Cons.prems(2) in_r by auto
    then obtain rs' where rs': "free_chain a rs = Inr (Some rs')" "regions_ok rs'"
      "list_all2 same_shape rs rs'" "frames rs' = insert a (frames rs)"
      using Cons.IH ok(4) Cons.prems(3,4) by blast
    then show ?thesis
      using False ok overlap_all2 [OF rs'(3) _ ok(3), of s] by (auto simp: regions_ok_Cons)
  qed
qed simp

section \<open>The allocator as a set of frames\<close>

abbreviation all_regions :: "allocator \<Rightarrow> region list" where
  "all_regions p \<equiv> concat (regions p)"

definition usable_pages :: "region list \<Rightarrow> u64 set" where
  "usable_pages rs = (\<Union>r \<in> set rs. page_addr r ` {..<bitmapMax r})"

definition capacity :: "region list \<Rightarrow> nat" where
  "capacity rs = sum_list (map bitmapMax rs)"

definition allocator_ok :: "allocator \<Rightarrow> bool" where
  "allocator_ok p \<longleftrightarrow> regions_ok (all_regions p)
     \<and> unat (allocatedPages p) + card (frames (all_regions p)) = capacity (all_regions p)"

lemma usable_shape:
  "list_all2 same_shape rs rs' \<Longrightarrow> usable_pages rs' = usable_pages rs \<and> capacity rs' = capacity rs
     \<and> (\<forall>r \<in> set rs'. vmAvailable r) = (\<forall>r \<in> set rs. vmAvailable r)"
  by (induction rule: list_all2_induct)
    (auto simp: usable_pages_def capacity_def page_addr_def same_shape_def)

lemma frames_usable: "regions_ok rs \<Longrightarrow> frames rs \<subseteq> usable_pages rs"
  unfolding frames_def usable_pages_def region_frames_def regions_ok_def
  by (intro UN_mono image_mono subset_refl) (auto dest: free_idx_bound)

lemma finite_usable [simp]: "finite (usable_pages rs)"
  by (simp add: usable_pages_def)

lemma usable_in_range:
  assumes "region_ok r" "a \<in> page_addr r ` {..<bitmapMax r}"
  shows "checkAddress r a"
  using assms by (auto simp: checkAddress_iff unat_page_addr)

lemma card_usable: "regions_ok rs \<Longrightarrow> card (usable_pages rs) = capacity rs"
proof (induction rs)
  case (Cons r rs)
  then have ok: "region_ok r" "\<forall>s \<in> set rs. \<not> region_overlap r s" "regions_ok rs"
    by (auto simp: regions_ok_Cons)
  have "inj_on (page_addr r) {..<bitmapMax r}"
    by (rule inj_on_subset [OF page_addr_inj [OF ok(1)]]) auto
  then have "card (page_addr r ` {..<bitmapMax r}) = bitmapMax r"
    by (simp add: card_image)
  moreover have "page_addr r ` {..<bitmapMax r} \<inter> usable_pages rs = {}"
  proof (rule equals0I)
    fix a assume "a \<in> page_addr r ` {..<bitmapMax r} \<inter> usable_pages rs"
    then obtain s where "s \<in> set rs" "a \<in> page_addr r ` {..<bitmapMax r}" "a \<in> page_addr s ` {..<bitmapMax s}"
      by (auto simp: usable_pages_def)
    moreover have "region_ok s"
      using ok(3) \<open>s \<in> set rs\<close> by (simp add: regions_ok_def)
    ultimately show False
      using ok(1,2) usable_in_range unfolding region_overlap_def by metis
  qed
  moreover have "usable_pages (r # rs) = page_addr r ` {..<bitmapMax r} \<union> usable_pages rs"
    by (auto simp: usable_pages_def)
  ultimately show ?case
    using Cons.IH [OF ok(3)] by (simp add: card_Un_disjoint capacity_def)
qed (simp add: usable_pages_def capacity_def)

lemma capacity_bound:
  assumes "regions_ok rs"
  shows "capacity rs < 2 ^ 64"
proof -
  have "0 \<notin> usable_pages rs"
  proof
    assume "0 \<in> usable_pages rs"
    then obtain r n where rn: "r \<in> set rs" "n < bitmapMax r" "page_addr r n = 0"
      by (force simp: usable_pages_def)
    then have "region_ok r" "base r \<noteq> 0"
      using assms by (auto simp: regions_ok_def)
    then show False
      using unat_page_addr [of r n] rn by (simp add: unat_eq_0)
  qed
  then have "usable_pages rs \<subset> UNIV"
    by blast
  then have "card (usable_pages rs) < card (UNIV :: u64 set)"
    by (intro psubset_card_mono) simp_all
  then show ?thesis
    using card_usable [OF assms] by (simp add: card_word)
qed

lemma allocPage_spec:
  assumes "allocator_ok p"
  shows "\<exists>pa p' m'. allocPage p m = Inr (pa, p', m') \<and> allocator_ok p'
       \<and> list_all2 same_shape (all_regions p) (all_regions p')
       \<and> (if frames (all_regions p) = {} then pa = 0 \<and> frames (all_regions p') = {} \<and> m' = m
          else pa \<noteq> 0 \<and> pa \<in> frames (all_regions p)
             \<and> frames (all_regions p') = frames (all_regions p) - {pa}
             \<and> (m' = m \<or> m' = zero_page pa m) \<and> ((\<forall>r \<in> set (all_regions p). vmAvailable r) \<longrightarrow> m' = zero_page pa m))"
proof -
  let ?rs = "all_regions p"
  have ok: "regions_ok ?rs" "capacity ?rs < 2 ^ 64" "unat (allocatedPages p) + card (frames ?rs) = capacity ?rs"
    using assms capacity_bound by (simp_all add: allocator_ok_def)
  obtain pa rs' m' where flat: "alloc_chain ?rs m = Inr (pa, rs', m')" "regions_ok rs'"
    "list_all2 same_shape ?rs rs'"
    and res: "if frames ?rs = {} then pa = 0 \<and> frames rs' = {} \<and> m' = m
       else pa \<noteq> 0 \<and> pa \<in> frames ?rs \<and> frames rs' = frames ?rs - {pa}
          \<and> (m' = m \<or> m' = zero_page pa m) \<and> ((\<forall>r \<in> set ?rs. vmAvailable r) \<longrightarrow> m' = zero_page pa m)"
    using alloc_chain_spec [OF ok(1)] by metis
  then obtain cs where cs: "alloc_chains (regions p) m = Inr (pa, cs, m')" "concat cs = rs'"
    using alloc_chains_flat [of "regions p" m] by (cases "alloc_chains (regions p) m") auto
  define n where "n = (if pa \<noteq> 0 then allocatedPages p + 1 else allocatedPages p)"
  have "unat n + card (frames rs') = capacity ?rs"
  proof (cases "frames ?rs = {}")
    case False
    have fin: "finite (frames ?rs)"
      using frames_usable [OF ok(1)] finite_subset finite_usable by blast
    then have card: "card (frames ?rs) = Suc (card (frames rs'))"
      using False res by (metis card_Suc_Diff1)
    then have "unat (allocatedPages p) + 1 < 2 ^ 64"
      using ok(2,3) by linarith
    then have "unat (allocatedPages p + 1) = unat (allocatedPages p) + 1"
      by (simp add: unat_word_ariths(1))
    with card show ?thesis
      using ok(3) False res by (simp add: n_def)
  qed (use ok(3) res in \<open>simp add: n_def\<close>)
  then have "allocator_ok (p\<lparr>regions := cs, allocatedPages := n\<rparr>)"
    using flat(2) cs(2) ok(2) usable_shape [OF flat(3)] by (simp add: allocator_ok_def)
  moreover have "allocPage p m = Inr (pa, p\<lparr>regions := cs, allocatedPages := n\<rparr>, m')"
    using cs(1) by (simp add: allocPage_def n_def)
  ultimately show ?thesis
    using flat(3) cs(2) res by auto
qed

lemma freePage_spec:
  assumes "allocator_ok p" "a \<in> usable_pages (all_regions p)" "a \<notin> frames (all_regions p)"
  shows "\<exists>p'. freePage a p = Inr p' \<and> allocator_ok p'
       \<and> list_all2 same_shape (all_regions p) (all_regions p')
       \<and> frames (all_regions p') = insert a (frames (all_regions p))"
proof -
  let ?rs = "all_regions p"
  have ok: "regions_ok ?rs" "capacity ?rs < 2 ^ 64" "unat (allocatedPages p) + card (frames ?rs) = capacity ?rs"
    using assms(1) capacity_bound by (simp_all add: allocator_ok_def)
  obtain r n where "r \<in> set ?rs" "n < bitmapMax r" "a = page_addr r n"
    using assms(2) by (auto simp: usable_pages_def)
  then obtain rs' where flat: "free_chain a ?rs = Inr (Some rs')" "regions_ok rs'"
    "list_all2 same_shape ?rs rs'" "frames rs' = insert a (frames ?rs)"
    using free_chain_spec [OF ok(1)] by metis
  then obtain cs where cs: "free_chains a (regions p) = Inr (Some cs)" "concat cs = rs'"
    using free_chains_flat [of a "regions p"] by (cases "free_chains a (regions p)") auto
  have fin: "finite (frames ?rs)"
    using frames_usable [OF ok(1)] finite_subset finite_usable by blast
  have "frames ?rs \<subset> usable_pages ?rs"
    using frames_usable [OF ok(1)] assms(2,3) by blast
  then have "card (frames ?rs) < capacity ?rs"
    using psubset_card_mono [OF finite_usable] card_usable [OF ok(1)] by metis
  then have "1 \<le> unat (allocatedPages p)"
    using ok(3) by simp
  then have "unat (allocatedPages p - 1) = unat (allocatedPages p) - 1"
    by (simp add: unat_sub word_le_nat_alt)
  then have "allocator_ok (p\<lparr>regions := cs, allocatedPages := allocatedPages p - 1\<rparr>)"
    using flat(2,4) cs(2) ok usable_shape [OF flat(3)] fin assms(3) \<open>1 \<le> unat (allocatedPages p)\<close>
    by (simp add: allocator_ok_def)
  then show ?thesis
    using cs flat(3,4) by (auto simp: freePage_def)
qed

section \<open>Creating regions\<close>

lemma page_bit_zero [simp]: "\<not> page_bit (replicate k 0) n"
  by (simp add: page_bit_def)

lemma commonInit_spec:
  assumes "1 \<le> np" "np \<le> 24576" "bitmap r = replicate 384 0"
    and "unat (base r) + np * 4096 \<le> 2 ^ 47" "unat (base r) mod 4096 = 0"
  shows "\<exists>r'. commonInit (word_of_nat np) r = Inr r' \<and> region_ok r' \<and> base r' = base r \<and> len r' = len r
       \<and> vmAvailable r' = vmAvailable r \<and> bitmapMax r' = np - 1 \<and> free_idx r' = {..<bitmapMax r'}
       \<and> allocatable r' = word_of_nat (np * 4096)"
proof -
  have np: "unat (word_of_nat np :: u64) = np" "unat (word_of_nat np - 1 :: u64) = np - 1"
    using assms(1,2) by (simp_all add: unat_of_nat_u64 unat_sub word_le_nat_alt)
  have "0 + (np - 1) \<le> 64 * length (bitmap r)"
    using assms(2,3) by simp
  from mark_free_spec [OF this] obtain bm where
    bm: "mark_free 0 (np - 1) (bitmap r) = Inr bm" "length bm = 384"
    "\<forall>n. page_bit bm n \<longleftrightarrow> n < np - 1"
    using assms(3) by auto
  have "word_of_nat np \<le> (24576 :: u64)"
    using np assms(2) by (simp add: word_le_nat_alt)
  then have init: "commonInit (word_of_nat np) r = Inr (r\<lparr>allocatable := word_of_nat np * arch_page_size,
      bitmapMax := np - 1, bitmap := bm\<rparr>)" (is "_ = Inr ?r")
    using bm(1) np by (simp add: commonInit_def kMaxPages_def Let_def)
  have "np - 1 + 1 = np"
    using assms(1) by simp
  then have "region_ok ?r"
    using bm(2,3) assms(2,4,5) unfolding region_ok_def by simp
  moreover have "free_idx ?r = {..<np - 1}"
    using bm(3) by (simp add: free_idx_def lessThan_def)
  ultimately show ?thesis
    using init by (simp add: arch_page_size_def)
qed

lemma pages_clamp:
  "(if l div arch_page_size > kMaxPages then kMaxPages else l div arch_page_size)
     = word_of_nat (min 24576 (unat l div 4096))"
proof -
  have "unat (l div arch_page_size) = unat l div 4096"
    by (simp add: arch_page_size_def unat_div)
  then have "l div arch_page_size = word_of_nat (unat l div 4096)"
    by (metis of_nat_unat ucast_id)
  then show ?thesis
    using \<open>unat (l div arch_page_size) = unat l div 4096\<close>
    by (simp add: kMaxPages_def word_less_nat_alt min_def)
qed

lemma region_create_spec:
  assumes "CanAllocate b l" "unat b + unat l \<le> 2 ^ 47" "unat b mod 4096 = 0"
  shows "\<exists>r. region_create b l = Inr r \<and> region_ok r \<and> base r = b \<and> len r = l \<and> \<not> vmAvailable r
       \<and> bitmapMax r + 1 = min 24576 (unat l div 4096) \<and> free_idx r = {..<bitmapMax r}"
proof -
  let ?np = "min 24576 (unat l div 4096)"
  have l: "unat l > 16384"
    using assms(1) by (simp add: CanAllocate_def arch_page_size_def kMinPages_def word_less_nat_alt)
  then have np: "1 \<le> ?np" "?np * 4096 \<le> unat l" "l div arch_page_size \<ge> kMinPages"
    by (auto simp: kMinPages_def arch_page_size_def word_le_nat_alt unat_div min_def)
  then show ?thesis
    using commonInit_spec [of ?np "region_init\<lparr>base := b, len := l\<rparr>"] assms(2,3)
    by (auto simp: region_create_def region_init_def Let_def pages_clamp)
qed

lemma region_child_spec:
  assumes "unat offset mod 4096 = 0" "unat (base r) mod 4096 = 0" "unat offset \<le> unat (len r)"
    and "unat (base r) + unat (len r) \<le> 2 ^ 47" "unat (len r) - unat offset > 16384"
  shows "\<exists>c. region_child r offset = Inr c \<and> region_ok c \<and> unat (base c) = unat (base r) + unat offset
       \<and> vmAvailable c \<and> bitmapMax c + 1 = min 24576 ((unat (len r) - unat offset) div 4096)
       \<and> free_idx c = {..<bitmapMax c} \<and> allocatable c = word_of_nat ((bitmapMax c + 1) * 4096)"
proof -
  let ?c = "region_init\<lparr>vmAvailable := True, base := base r + offset, len := len r - offset\<rparr>"
  let ?np = "min 24576 ((unat (len r) - unat offset) div 4096)"
  have len: "unat (len r - offset) = unat (len r) - unat offset"
    using assms(3) by (simp add: unat_sub word_le_nat_alt)
  have "(2 :: nat) ^ 47 < 2 ^ 64"
    by simp
  then have "unat (base r) + unat offset < 2 ^ 64"
    using assms(3,4) by linarith
  then have b: "unat (base r + offset) = unat (base r) + unat offset"
    by (simp add: unat_word_ariths(1))
  have "unat (offset mod arch_page_size) = 0"
    using assms(1) by (simp add: arch_page_size_def unat_mod)
  then have off: "offset mod arch_page_size = 0"
    by (simp add: unat_eq_0)
  have np: "1 \<le> ?np" "?np * 4096 \<le> unat (len r) - unat offset"
    "(len r - offset) div arch_page_size \<ge> kMinPages"
    using assms(5) len
    by (auto simp: kMinPages_def arch_page_size_def word_le_nat_alt unat_div min_def)
  have bc: "unat (base ?c) = unat (base r) + unat offset"
    using b by simp
  have "(unat (base r) + unat offset) mod 4096 = 0"
    using assms(1,2) by (simp flip: dvd_eq_mod_eq_0)
  then have at: "unat (base ?c) + ?np * 4096 \<le> 2 ^ 47" "unat (base ?c) mod 4096 = 0"
    unfolding bc using np(2) assms(3,4) by linarith+
  have "bitmap ?c = replicate 384 0" "?np \<le> 24576" "vmAvailable ?c"
    by (simp_all add: region_init_def)
  with commonInit_spec [OF np(1) _ _ at] obtain c where
    c: "commonInit (word_of_nat ?np) ?c = Inr c" "region_ok c"
    "base c = base ?c" "vmAvailable c" "bitmapMax c = ?np - 1" "free_idx c = {..<bitmapMax c}"
    "allocatable c = word_of_nat (?np * 4096)"
    by metis
  have "region_child r offset = Inr c"
    using c(1) np(3) off len by (simp add: region_child_def Let_def pages_clamp)
  moreover have "bitmapMax c + 1 = ?np"
    using c(5) np(1) by simp
  ultimately show ?thesis
    using c(2-4,6,7) bc by (intro exI [of _ c]) simp
qed

section \<open>Growing a chain\<close>

definition region_end :: "region \<Rightarrow> nat" where
  "region_end r = unat (base r) + (bitmapMax r + 1) * 4096"

definition span_end :: "region \<Rightarrow> nat" where
  "span_end r = unat (base r) + unat (len r)"

text \<open>Regions that follow each other without a gap, from \<open>lo\<close> on.\<close>

fun contiguous :: "nat \<Rightarrow> region list \<Rightarrow> nat \<Rightarrow> bool" where
  "contiguous lo [] hi \<longleftrightarrow> lo = hi"
| "contiguous lo (c # cs) hi \<longleftrightarrow> unat (base c) = lo \<and> contiguous (region_end c) cs hi"

definition fresh_child :: "region \<Rightarrow> bool" where
  "fresh_child c \<longleftrightarrow> region_ok c \<and> vmAvailable c \<and> free_idx c = {..<bitmapMax c}"

lemma contiguous_bounds:
  "contiguous lo cs hi \<Longrightarrow> c \<in> set cs \<Longrightarrow> lo \<le> unat (base c) \<and> region_end c \<le> hi"
proof (induction cs arbitrary: lo)
  case (Cons d cs)
  have "lo \<le> hi" if "contiguous lo cs hi" for lo
    using that by (induction cs arbitrary: lo) (force simp: region_end_def)+
  then show ?case
    using Cons by (fastforce simp: region_end_def)
qed simp

lemma apart_no_overlap:
  "region_ok r \<Longrightarrow> region_ok s \<Longrightarrow> region_end r \<le> unat (base s) \<Longrightarrow> \<not> region_overlap r s \<and> \<not> region_overlap s r"
  by (auto simp: region_overlap_def checkAddress_iff region_end_def)

lemma contiguous_regions_ok:
  "contiguous lo cs hi \<Longrightarrow> \<forall>c \<in> set cs. region_ok c \<Longrightarrow> 0 < lo \<Longrightarrow> regions_ok cs"
proof (induction cs arbitrary: lo)
  case (Cons c cs)
  then have "\<forall>d \<in> set cs. \<not> region_overlap c d"
    using contiguous_bounds [of "region_end c" cs hi] apart_no_overlap by auto
  moreover have "base c \<noteq> 0"
    using Cons.prems(1,3) by auto
  ultimately show ?case
    using Cons.IH [of "region_end c"] Cons.prems by (auto simp: regions_ok_Cons region_end_def)
qed (simp add: regions_ok_def)

lemma init_children_spec:
  assumes "unat (base r) mod 4096 = 0" "span_end r \<le> 2 ^ 47"
  shows "unat offset mod 4096 = 0 \<Longrightarrow> unat offset + unat remaining = unat (len r) \<Longrightarrow>
     unat remaining div 4096 < n \<Longrightarrow>
     \<exists>cs hi. init_children n r offset remaining = Some (Inr cs) \<and> (\<forall>c \<in> set cs. fresh_child c)
       \<and> contiguous (unat (base r) + unat offset) cs hi \<and> hi \<le> span_end r \<and> span_end r \<le> hi + 16384"
proof (induction n arbitrary: offset remaining)
  case (Suc n)
  show ?case
  proof (cases "CanAllocate (base r + offset) remaining")
    case False
    then have "unat remaining \<le> 16384"
      by (simp add: CanAllocate_def arch_page_size_def kMinPages_def word_less_nat_alt)
    then show ?thesis
      using False Suc.prems(2) by (auto simp: span_end_def)
  next
    case True
    then have big: "unat remaining > 16384"
      by (simp add: CanAllocate_def arch_page_size_def kMinPages_def word_less_nat_alt)
    have rem: "unat (len r) - unat offset = unat remaining" and le: "unat offset \<le> unat (len r)"
      using Suc.prems(2) by simp_all
    from region_child_spec [OF Suc.prems(1) assms(1) le assms(2) [unfolded span_end_def], unfolded rem, OF big]
    obtain c where c: "region_child r offset = Inr c" "region_ok c"
      "unat (base c) = unat (base r) + unat offset" "vmAvailable c"
      "bitmapMax c + 1 = min 24576 (unat remaining div 4096)" "free_idx c = {..<bitmapMax c}"
      "allocatable c = word_of_nat ((bitmapMax c + 1) * 4096)"
      by blast
    define k where "k = (bitmapMax c + 1) * 4096"
    have k: "k \<le> unat remaining" "4096 \<le> k" "k mod 4096 = 0"
      using c(5) big by (auto simp: k_def min_def)
    have "unat remaining < 2 ^ 64"
      by (rule unat_u64_less)
    then have "k < 2 ^ 64"
      using k(1) by linarith
    then have alloc: "unat (allocatable c) = k"
      unfolding c(7) by (simp only: k_def unat_of_nat_u64)
    have rem': "unat (remaining - allocatable c) = unat remaining - k"
      using alloc k(1) by (simp add: unat_sub word_le_nat_alt)
    have "unat (len r) < 2 ^ 64"
      by (rule unat_u64_less)
    then have "unat offset + k < 2 ^ 64"
      using k(1) Suc.prems(2) by linarith
    then have off': "unat (offset + allocatable c) = unat offset + k"
      using alloc by (simp add: unat_word_ariths(1))
    have "(unat offset + k) mod 4096 = 0"
      using Suc.prems(1) k(3) by (simp flip: dvd_eq_mod_eq_0)
    moreover have "unat remaining div 4096 = Suc ((unat remaining - 4096) div 4096)"
      using big by (intro le_div_geq) simp_all
    then have "(unat remaining - k) div 4096 < n"
      using Suc.prems(3) div_le_mono [of "unat remaining - k" "unat remaining - 4096" 4096] k(2)
      by linarith
    ultimately obtain cs hi where cs: "init_children n r (offset + allocatable c) (remaining - allocatable c) = Some (Inr cs)"
      "\<forall>c \<in> set cs. fresh_child c" "contiguous (unat (base r) + (unat offset + k)) cs hi"
      "hi \<le> span_end r" "span_end r \<le> hi + 16384"
      using Suc.IH [of "offset + allocatable c" "remaining - allocatable c"] off' rem' Suc.prems(2) k(1)
      by auto
    have "region_end c = unat (base r) + (unat offset + k)"
      using c(3) by (simp add: region_end_def k_def)
    then show ?thesis
      using True c cs by (auto simp: fresh_child_def)
  qed
qed simp

text \<open>The frames in use: usable and not free.\<close>

definition used_frames :: "region list \<Rightarrow> u64 set" where
  "used_frames rs = usable_pages rs - frames rs"

lemma regions_ok_append:
  "regions_ok (xs @ ys) \<longleftrightarrow> regions_ok xs \<and> regions_ok ys \<and> (\<forall>x \<in> set xs. \<forall>y \<in> set ys. \<not> region_overlap x y)"
  by (auto simp: regions_ok_def sorted_wrt_append)

lemma usable_apart:
  assumes "regions_ok (xs @ ys)"
  shows "usable_pages xs \<inter> usable_pages ys = {}"
proof (rule equals0I)
  fix a assume "a \<in> usable_pages xs \<inter> usable_pages ys"
  then obtain r s where rs: "r \<in> set xs" "s \<in> set ys" "a \<in> page_addr r ` {..<bitmapMax r}"
    "a \<in> page_addr s ` {..<bitmapMax s}"
    by (auto simp: usable_pages_def)
  then have "region_ok r" "region_ok s" "\<not> region_overlap r s"
    using assms unfolding regions_ok_append by (simp_all add: regions_ok_def)
  then show False
    using rs usable_in_range unfolding region_overlap_def by metis
qed

lemma used_append:
  assumes "regions_ok (xs @ ys)"
  shows "used_frames (xs @ ys) = used_frames xs \<union> used_frames ys"
proof -
  have "frames xs \<subseteq> usable_pages xs" "frames ys \<subseteq> usable_pages ys"
    using assms frames_usable by (auto simp: regions_ok_append)
  moreover have "usable_pages (xs @ ys) = usable_pages xs \<union> usable_pages ys"
    by (auto simp: usable_pages_def)
  ultimately show ?thesis
    using usable_apart [OF assms] unfolding used_frames_def by (simp only: frames_simps) blast
qed

lemma used_fresh: "\<forall>c \<in> set cs. fresh_child c \<Longrightarrow> used_frames cs = {}"
  by (auto simp: used_frames_def usable_pages_def frames_def region_frames_def fresh_child_def)

lemma used_count:
  assumes "regions_ok rs"
  shows "card (used_frames rs) + card (frames rs) = capacity rs"
  using frames_usable [OF assms] card_usable [OF assms] finite_subset [OF frames_usable [OF assms]]
    card_mono [OF finite_usable frames_usable [OF assms]]
  by (simp add: used_frames_def card_Diff_subset)

lemma allocator_ok_iff:
  "allocator_ok p \<longleftrightarrow> regions_ok (all_regions p) \<and> unat (allocatedPages p) = card (used_frames (all_regions p))"
  using used_count by (force simp: allocator_ok_def)

definition chain_head :: "region \<Rightarrow> bool" where
  "chain_head r \<longleftrightarrow> region_ok r \<and> base r \<noteq> 0 \<and> region_end r \<le> span_end r \<and> span_end r \<le> 2 ^ 47"

lemma vm_irrelevant [simp]:
  "region_ok (r\<lparr>vmAvailable := b\<rparr>) = region_ok r" "base (r\<lparr>vmAvailable := b\<rparr>) = base r"
  "region_end (r\<lparr>vmAvailable := b\<rparr>) = region_end r"
  "used_frames [r\<lparr>vmAvailable := b\<rparr>] = used_frames [r]"
  by (auto simp: region_ok_def region_end_def used_frames_def usable_pages_def frames_def
      region_frames_def page_addr_def free_idx_def)

lemma unat_allocatable: "region_ok r \<Longrightarrow> unat (allocatable r) = (bitmapMax r + 1) * 4096"
  using unat_page_offset [of "bitmapMax r + 1"] by (simp add: region_ok_def)

lemma initNext_spec:
  assumes "chain_head r"
  shows "\<exists>cs hi. initNextIfNeeded [r] = Some (Inr (r\<lparr>vmAvailable := True\<rparr> # cs))
       \<and> (\<forall>c \<in> set cs. fresh_child c) \<and> contiguous (region_end r) cs hi
       \<and> hi \<le> span_end r \<and> span_end r \<le> hi + 16384"
proof -
  let ?r = "r\<lparr>vmAvailable := True\<rparr>" and ?rem = "len r - allocatable r"
  have ok: "region_ok r" "unat (base r) mod 4096 = 0" "span_end r \<le> 2 ^ 47" "region_end r \<le> span_end r"
    using assms by (auto simp: chain_head_def region_ok_def)
  note al = unat_allocatable [OF ok(1)]
  have "unat (allocatable r mod arch_page_size) = 0"
    using al by (simp add: arch_page_size_def unat_mod)
  then have aligned: "allocatable r mod arch_page_size = 0"
    by (simp add: unat_eq_0)
  have le: "unat (allocatable r) \<le> unat (len r)"
    using al ok(4) by (simp add: region_end_def span_end_def)
  then have rem: "unat (allocatable r) + unat ?rem = unat (len r)"
    by (simp add: unat_sub word_le_nat_alt)
  show ?thesis
  proof (cases "CanAllocate (base r + allocatable r) ?rem")
    case False
    then have "unat ?rem \<le> 16384"
      by (simp add: CanAllocate_def arch_page_size_def kMinPages_def word_less_nat_alt)
    then show ?thesis
      using False aligned ok(4) rem al
      by (intro exI [of _ "[]"] exI [of _ "region_end r"])
        (simp add: initNextIfNeeded_def Let_def region_end_def span_end_def)
  next
    case True
    then have "?rem \<noteq> 0"
      by (auto simp: CanAllocate_def)
    have fuel: "unat (?rem div arch_page_size) = unat ?rem div 4096"
      by (simp add: arch_page_size_def unat_div)
    have start: "unat (base r) + unat (allocatable r) = region_end r"
      using al by (simp add: region_end_def)
    have "span_end ?r \<le> 2 ^ 47" "unat (base ?r) mod 4096 = 0" "span_end ?r = span_end r"
      using ok(2,3) by (simp_all add: span_end_def)
    moreover have "unat (allocatable r) mod 4096 = 0"
      using al by simp
    ultimately obtain cs hi where
      "init_children (unat ?rem div 4096 + 1) ?r (allocatable r) ?rem = Some (Inr cs)"
      "\<forall>c \<in> set cs. fresh_child c" "contiguous (region_end r) cs hi" "hi \<le> span_end r"
      "span_end r \<le> hi + 16384"
      using init_children_spec [of ?r "allocatable r" ?rem "unat ?rem div 4096 + 1"] rem start by auto
    then show ?thesis
      using True aligned \<open>?rem \<noteq> 0\<close> fuel
      by (intro exI [of _ cs] exI [of _ hi]) (simp add: initNextIfNeeded_def Let_def)
  qed
qed

definition spans_apart :: "region \<Rightarrow> region \<Rightarrow> bool" where
  "spans_apart r s \<longleftrightarrow> span_end r \<le> unat (base s) \<or> span_end s \<le> unat (base r)"

lemma within_no_overlap:
  assumes "region_ok x" "region_ok y" "spans_apart r s"
    and "unat (base r) \<le> unat (base x)" "region_end x \<le> span_end r"
    and "unat (base s) \<le> unat (base y)" "region_end y \<le> span_end s"
  shows "\<not> region_overlap x y"
proof -
  have "region_end x \<le> unat (base y) \<or> region_end y \<le> unat (base x)"
    using assms(3-) by (auto simp: spans_apart_def)
  then show ?thesis
    using apart_no_overlap assms(1,2) by blast
qed

lemma heads_ok:
  "\<forall>r \<in> set rs. chain_head r \<Longrightarrow> sorted_wrt spans_apart rs \<Longrightarrow> regions_ok rs"
proof (induction rs)
  case (Cons r rs)
  then have "\<not> region_overlap r s" if "s \<in> set rs" for s
    using within_no_overlap [of r s r s] that by (auto simp: chain_head_def)
  then show ?case
    using Cons by (auto simp: regions_ok_Cons chain_head_def)
qed (simp add: regions_ok_def)

definition inside_span :: "region list \<Rightarrow> region \<Rightarrow> bool" where
  "inside_span rs c \<longleftrightarrow> (\<exists>r \<in> set rs. unat (base r) \<le> unat (base c) \<and> region_end c \<le> span_end r)"

lemma grown_chain_spec:
  assumes "chain_head r"
  shows "\<exists>ch. initNextIfNeeded [r] = Some (Inr ch) \<and> regions_ok ch \<and> used_frames ch = used_frames [r]
       \<and> (\<forall>c \<in> set ch. vmAvailable c \<and> inside_span [r] c)"
proof -
  obtain cs hi where cs: "initNextIfNeeded [r] = Some (Inr (r\<lparr>vmAvailable := True\<rparr> # cs))"
    "\<forall>c \<in> set cs. fresh_child c" "contiguous (region_end r) cs hi" "hi \<le> span_end r"
    using initNext_spec [OF assms] by blast
  let ?ch = "r\<lparr>vmAvailable := True\<rparr> # cs"
  have contig: "contiguous (unat (base r)) ?ch hi"
    using cs(3) by simp
  have oks: "\<forall>c \<in> set ?ch. region_ok c" "0 < unat (base r)"
    using cs(2) assms by (auto simp: fresh_child_def chain_head_def unat_gt_0)
  then have ok: "regions_ok ?ch"
    using contiguous_regions_ok [OF contig] by blast
  have "used_frames ([r\<lparr>vmAvailable := True\<rparr>] @ cs) = used_frames [r] \<union> used_frames cs"
    using used_append [of "[r\<lparr>vmAvailable := True\<rparr>]" cs] ok by simp
  then have "used_frames ?ch = used_frames [r]"
    using used_fresh [OF cs(2)] by simp
  moreover have "vmAvailable c \<and> inside_span [r] c" if "c \<in> set ?ch" for c
  proof -
    have "unat (base r) \<le> unat (base c)" "region_end c \<le> span_end r"
      using contiguous_bounds [OF contig that] cs(4) by simp_all
    then show ?thesis
      using that cs(2) by (auto simp: inside_span_def fresh_child_def)
  qed
  ultimately show ?thesis
    using cs(1) ok by blast
qed

lemma notify_chains_spec:
  "\<forall>r \<in> set rs. chain_head r \<Longrightarrow> sorted_wrt spans_apart rs \<Longrightarrow>
   \<exists>css. notify_chains (map (\<lambda>r. [r]) rs) = Some (Inr css) \<and> regions_ok (concat css)
     \<and> used_frames (concat css) = used_frames rs
     \<and> (\<forall>c \<in> set (concat css). vmAvailable c \<and> inside_span rs c)"
proof (induction rs)
  case Nil
  then show ?case
    by (simp add: regions_ok_def)
next
  case (Cons r rs)
  obtain ch where ch: "initNextIfNeeded [r] = Some (Inr ch)" "regions_ok ch" "used_frames ch = used_frames [r]"
    "\<forall>c \<in> set ch. vmAvailable c \<and> inside_span [r] c"
    using grown_chain_spec Cons.prems(1) by (metis list.set_intros(1))
  obtain css where css: "notify_chains (map (\<lambda>r. [r]) rs) = Some (Inr css)" "regions_ok (concat css)"
    "used_frames (concat css) = used_frames rs"
    "\<forall>c \<in> set (concat css). vmAvailable c \<and> inside_span rs c"
    using Cons by auto
  have "\<not> region_overlap x y" if xy: "x \<in> set ch" "y \<in> set (concat css)" for x y
  proof -
    obtain s where s: "s \<in> set rs" "unat (base s) \<le> unat (base y)" "region_end y \<le> span_end s"
      using css(4) xy(2) unfolding inside_span_def by blast
    have "region_ok x" "region_ok y" "spans_apart r s"
      using ch(2) css(2) xy Cons.prems(2) s(1) unfolding regions_ok_def by auto
    moreover have "unat (base r) \<le> unat (base x)" "region_end x \<le> span_end r"
      using ch(4) xy(1) by (auto simp: inside_span_def)
    ultimately show ?thesis
      using within_no_overlap s(2,3) by blast
  qed
  then have ok: "regions_ok (ch @ concat css)"
    using ch(2) css(2) regions_ok_append by blast
  have "regions_ok ([r] @ rs)"
    using heads_ok [OF Cons.prems] by simp
  then have "used_frames (ch @ concat css) = used_frames (r # rs)"
    using used_append [OF ok] used_append [of "[r]" rs] ch(3) css(3) by simp
  moreover have "\<forall>c \<in> set (ch @ concat css). vmAvailable c \<and> inside_span (r # rs) c"
    using ch(4) css(4) by (auto simp: inside_span_def)
  ultimately show ?case
    using ch(1) css(1) ok by auto
qed

section \<open>The contract of a frame allocator\<close>

text \<open>
  What the page tables and the memory objects rely on. Of a state, \<open>free\<close> are the frames it can
  give out, \<open>usable\<close> all that it manages, and \<open>zeroing\<close> says that memory is mapped, so that a
  frame is cleared before it is given out.
\<close>

fun alloc_n ::
  "('s \<Rightarrow> phys_mem \<Rightarrow> (u64 \<times> 's \<times> phys_mem) outcome) \<Rightarrow> nat \<Rightarrow> 's \<Rightarrow> phys_mem \<Rightarrow> (u64 list \<times> 's \<times> phys_mem) outcome" where
  "alloc_n alloc 0 s m = Inr ([], s, m)"
| "alloc_n alloc (Suc n) s m =
     obind (alloc s m) (\<lambda>(pa, s, m).
     obind (alloc_n alloc n s m) (\<lambda>(pas, s, m). Inr (pa # pas, s, m)))"

locale frame_allocator =
  fixes ok :: "'s \<Rightarrow> bool" and free :: "'s \<Rightarrow> u64 set" and usable :: "'s \<Rightarrow> u64 set"
    and zeroing :: "'s \<Rightarrow> bool"
    and alloc :: "'s \<Rightarrow> phys_mem \<Rightarrow> (u64 \<times> 's \<times> phys_mem) outcome"
    and dealloc :: "u64 \<Rightarrow> 's \<Rightarrow> 's outcome"
  assumes alloc_law: "ok s \<Longrightarrow> \<exists>pa s' m'. alloc s m = Inr (pa, s', m') \<and> ok s'
        \<and> usable s' = usable s \<and> zeroing s' = zeroing s
        \<and> (if free s = {} then pa = 0 \<and> free s' = {} \<and> m' = m
           else pa \<in> free s \<and> free s' = free s - {pa} \<and> (m' = m \<or> m' = zero_page pa m)
             \<and> (zeroing s \<longrightarrow> m' = zero_page pa m))"
    and dealloc_law: "ok s \<Longrightarrow> a \<in> usable s \<Longrightarrow> a \<notin> free s \<Longrightarrow>
        \<exists>s'. dealloc a s = Inr s' \<and> ok s' \<and> usable s' = usable s \<and> zeroing s' = zeroing s
           \<and> free s' = insert a (free s)"
    and free_usable: "ok s \<Longrightarrow> free s \<subseteq> usable s"
    and usable_frame: "ok s \<Longrightarrow> a \<in> usable s \<Longrightarrow> 0 < unat a \<and> unat a mod 4096 = 0 \<and> unat a + 4096 \<le> 2 ^ 47"
begin

lemma free_nonzero: "ok s \<Longrightarrow> 0 \<notin> free s"
  using free_usable usable_frame by fastforce

lemma alloc_nonzero:
  assumes "ok s" "alloc s m = Inr (pa, s', m')"
  shows "pa = 0 \<longleftrightarrow> free s = {}"
  using alloc_law [OF assms(1), of m] assms free_nonzero by (auto split: if_splits)

lemma alloc_n_frames:
  "ok s \<Longrightarrow> finite (free s) \<Longrightarrow> n \<le> card (free s) \<Longrightarrow>
   \<exists>pas s' m'. alloc_n alloc n s m = Inr (pas, s', m') \<and> ok s' \<and> length pas = n \<and> distinct pas
     \<and> set pas \<subseteq> free s \<and> free s' = free s - set pas \<and> usable s' = usable s"
proof (induction n arbitrary: s m)
  case (Suc n)
  then have "free s \<noteq> {}"
    by auto
  then obtain pa s1 m1 where s1: "alloc s m = Inr (pa, s1, m1)" "ok s1" "usable s1 = usable s"
    "pa \<in> free s" "free s1 = free s - {pa}"
    using alloc_law [OF Suc.prems(1), of m] by auto
  then have "n \<le> card (free s1)" "finite (free s1)"
    using Suc.prems(2,3) by simp_all
  then obtain pas s2 m2 where "alloc_n alloc n s1 m1 = Inr (pas, s2, m2)" "ok s2" "length pas = n"
    "distinct pas" "set pas \<subseteq> free s1" "free s2 = free s1 - set pas" "usable s2 = usable s1"
    using Suc.IH [OF s1(2), of m1] by metis
  with s1 show ?case
    by (intro exI [of _ "pa # pas"] exI [of _ s2] exI [of _ m2]) auto
qed simp

lemma dealloc_all:
  "ok s \<Longrightarrow> distinct pas \<Longrightarrow> set pas \<subseteq> usable s - free s \<Longrightarrow>
   \<exists>s'. put_all dealloc pas s = Inr s' \<and> ok s' \<and> free s' = free s \<union> set pas \<and> usable s' = usable s"
proof (induction pas arbitrary: s)
  case (Cons a pas)
  then obtain s1 where "dealloc a s = Inr s1" "ok s1" "usable s1 = usable s" "free s1 = insert a (free s)"
    using dealloc_law [of s a] by auto
  then show ?case
    using Cons.IH [of s1] Cons.prems by auto
qed simp

end

lemma usable_page_frame:
  assumes "regions_ok rs" "a \<in> usable_pages rs"
  shows "0 < unat a \<and> unat a mod 4096 = 0 \<and> unat a + 4096 \<le> 2 ^ 47"
proof -
  obtain r n where r: "region_ok r" "base r \<noteq> 0" "n < bitmapMax r" "a = page_addr r n"
    using assms by (auto simp: usable_pages_def regions_ok_def)
  then have a: "unat a = unat (base r) + n * 4096"
    by (simp add: unat_page_addr)
  have "0 < unat (base r)" "unat (base r) mod 4096 = 0"
    "unat (base r) + (bitmapMax r + 1) * 4096 \<le> 2 ^ 47"
    using r by (auto simp: region_ok_def unat_gt_0)
  then show ?thesis
    unfolding a using r(3) by (simp add: mod_add_eq)
qed

interpretation phys: frame_allocator allocator_ok "\<lambda>p. frames (all_regions p)"
  "\<lambda>p. usable_pages (all_regions p)" "\<lambda>p. \<forall>r \<in> set (all_regions p). vmAvailable r" allocPage freePage
proof
  show "\<exists>pa s' m'. allocPage s m = Inr (pa, s', m') \<and> allocator_ok s'
      \<and> usable_pages (all_regions s') = usable_pages (all_regions s)
      \<and> (\<forall>r \<in> set (all_regions s'). vmAvailable r) = (\<forall>r \<in> set (all_regions s). vmAvailable r)
      \<and> (if frames (all_regions s) = {} then pa = 0 \<and> frames (all_regions s') = {} \<and> m' = m
         else pa \<in> frames (all_regions s) \<and> frames (all_regions s') = frames (all_regions s) - {pa}
            \<and> (m' = m \<or> m' = zero_page pa m) \<and> ((\<forall>r \<in> set (all_regions s). vmAvailable r) \<longrightarrow> m' = zero_page pa m))"
    if "allocator_ok s" for s m
  proof -
    note alloc = allocPage_spec [OF that, of m]
    obtain pa s' m' where res: "allocPage s m = Inr (pa, s', m')" "allocator_ok s'"
      "list_all2 same_shape (all_regions s) (all_regions s')"
      "if frames (all_regions s) = {} then pa = 0 \<and> frames (all_regions s') = {} \<and> m' = m
       else pa \<noteq> 0 \<and> pa \<in> frames (all_regions s)
          \<and> frames (all_regions s') = frames (all_regions s) - {pa}
          \<and> (m' = m \<or> m' = zero_page pa m) \<and> ((\<forall>r \<in> set (all_regions s). vmAvailable r) \<longrightarrow> m' = zero_page pa m)"
      using alloc by blast
    then show ?thesis
      using usable_shape [OF res(3)] by (intro exI [of _ pa] exI [of _ s'] exI [of _ m']) simp
  qed
  show "\<exists>s'. freePage a s = Inr s' \<and> allocator_ok s'
      \<and> usable_pages (all_regions s') = usable_pages (all_regions s)
      \<and> (\<forall>r \<in> set (all_regions s'). vmAvailable r) = (\<forall>r \<in> set (all_regions s). vmAvailable r)
      \<and> frames (all_regions s') = insert a (frames (all_regions s))"
    if "allocator_ok s" "a \<in> usable_pages (all_regions s)" "a \<notin> frames (all_regions s)" for s a
    using freePage_spec [OF that] usable_shape by (metis (no_types, lifting))
  show "frames (all_regions s) \<subseteq> usable_pages (all_regions s)" if "allocator_ok s" for s
    using that frames_usable by (simp add: allocator_ok_def)
  show "0 < unat a \<and> unat a mod 4096 = 0 \<and> unat a + 4096 \<le> 2 ^ 47"
    if "allocator_ok s" "a \<in> usable_pages (all_regions s)" for s a
    using that usable_page_frame by (auto simp: allocator_ok_def)
qed

section \<open>Booting\<close>

text \<open>The ranges a platform reports: page aligned, above address 0, below 2^47, and disjoint.\<close>

definition range_ok :: "u64 \<times> u64 \<Rightarrow> bool" where
  "range_ok e \<longleftrightarrow> fst e \<noteq> 0 \<and> unat (fst e) mod 4096 = 0 \<and> unat (fst e) + unat (snd e) \<le> 2 ^ 47"

definition ranges_apart :: "u64 \<times> u64 \<Rightarrow> u64 \<times> u64 \<Rightarrow> bool" where
  "ranges_apart d e \<longleftrightarrow> unat (fst d) + unat (snd d) \<le> unat (fst e)
     \<or> unat (fst e) + unat (snd e) \<le> unat (fst d)"

definition fits :: "u64 \<times> u64 \<Rightarrow> bool" where
  "fits e \<longleftrightarrow> CanAllocate (fst e) (snd e)"

definition region_for :: "u64 \<times> u64 \<Rightarrow> region \<Rightarrow> bool" where
  "region_for e r \<longleftrightarrow> base r = fst e \<and> len r = snd e \<and> chain_head r
     \<and> free_idx r = {..<bitmapMax r} \<and> bitmapMax r + 1 = min 24576 (unat (snd e) div 4096)"

lemma region_create_head:
  assumes "range_ok e" "fits e"
  shows "\<exists>r. region_create (fst e) (snd e) = Inr r \<and> region_for e r"
proof -
  obtain r where r: "region_create (fst e) (snd e) = Inr r" "region_ok r" "base r = fst e" "len r = snd e"
    "bitmapMax r + 1 = min 24576 (unat (snd e) div 4096)" "free_idx r = {..<bitmapMax r}"
    using region_create_spec [of "fst e" "snd e"] assms by (auto simp: range_ok_def fits_def)
  have "(bitmapMax r + 1) * 4096 \<le> unat (snd e)"
    unfolding r(5) by (auto simp: min_def)
  then have "chain_head r"
    using assms(1) r by (simp add: chain_head_def region_end_def span_end_def range_ok_def)
  then show ?thesis
    using r by (auto simp: region_for_def)
qed

lemma add_regions_spec:
  "\<forall>e \<in> set es. range_ok e \<Longrightarrow> length acc + length (filter fits es) \<le> kMaxRegions \<Longrightarrow>
   \<exists>rs. add_regions (map Some es) acc = Inr (acc @ map (\<lambda>r. [r]) rs)
     \<and> list_all2 region_for (filter fits es) rs"
proof (induction es arbitrary: acc)
  case (Cons e es)
  show ?case
  proof (cases "fits e")
    case True
    then obtain r where r: "region_create (fst e) (snd e) = Inr r" "region_for e r"
      using region_create_head [of e] Cons.prems(1) by auto
    obtain rs where "add_regions (map Some es) (acc @ [[r]]) = Inr ((acc @ [[r]]) @ map (\<lambda>r. [r]) rs)"
      "list_all2 region_for (filter fits es) rs"
      using Cons.IH [of "acc @ [[r]]"] Cons.prems True by auto
    then show ?thesis
      using True r Cons.prems(2)
      by (cases e) (auto simp: fits_def [abs_def] intro!: exI [of _ "r # rs"])
  next
    case False
    then show ?thesis
      using Cons by (cases e) (auto simp: fits_def [abs_def])
  qed
qed simp

lemma regions_apart:
  "list_all2 region_for es rs \<Longrightarrow> sorted_wrt ranges_apart es \<Longrightarrow>
   sorted_wrt spans_apart rs \<and> (\<forall>r \<in> set rs. chain_head r) \<and> used_frames rs = {}"
proof (induction rule: list_all2_induct)
  case (Cons e es r rs)
  then have "spans_apart r s" if "s \<in> set rs" for s
    using that unfolding list_all2_conv_all_nth in_set_conv_nth
    by (auto simp: spans_apart_def span_end_def ranges_apart_def region_for_def)
  then have apart: "sorted_wrt spans_apart (r # rs)" "\<forall>s \<in> set (r # rs). chain_head s"
    using Cons by (auto simp: region_for_def)
  have "used_frames [r] = {}"
    using Cons(1) by (simp add: used_frames_def usable_pages_def frames_def region_frames_def region_for_def)
  moreover have "regions_ok ([r] @ rs)"
    using heads_ok [OF apart(2,1)] by simp
  ultimately show ?case
    using apart Cons.IH Cons.prems used_append [of "[r]" rs] by simp
qed (simp add: used_frames_def usable_pages_def)

lemma concat_singletons [simp]: "concat (map (\<lambda>r. [r]) rs) = rs"
  by (induction rs) simp_all

lemma sorted_wrt_filter_apart: "sorted_wrt ranges_apart es \<Longrightarrow> sorted_wrt ranges_apart (filter fits es)"
  by (simp add: sorted_wrt_filter)

section \<open>Properties\<close>

text \<open>
  C12: from any memory map of disjoint, page aligned ranges of which between one and ten are large
  enough, booting creates a consistent allocator with every usable page free; once virtual
  memory is up, growing the chains ends, adds the rest of each range and leaves a consistent
  allocator in which no frame is in use, no two regions overlap and frames are zeroed.
\<close>

theorem allocator_boot:
  assumes "\<forall>e \<in> set es. range_ok e" "sorted_wrt ranges_apart es"
    and "filter fits es \<noteq> []" "length (filter fits es) \<le> kMaxRegions"
  shows "\<exists>p p'. allocator_create (map Some es) = Inr p \<and> allocator_ok p
       \<and> notifyRegionsVm p = Some (Inr p') \<and> allocator_ok p'
       \<and> frames (all_regions p') = usable_pages (all_regions p')
       \<and> (\<forall>r \<in> set (all_regions p'). vmAvailable r)"
proof -
  obtain rs where rs: "add_regions (map Some es) [] = Inr (map (\<lambda>r. [r]) rs)"
    "list_all2 region_for (filter fits es) rs"
    using add_regions_spec [OF assms(1), of "[]"] assms(4) by auto
  note apart = regions_apart [OF rs(2) sorted_wrt_filter_apart [OF assms(2)]]
  let ?p = "\<lparr>regions = map (\<lambda>r. [r]) rs, allocatedPages = 0, reservedPages = 0\<rparr>"
  have "rs \<noteq> []"
    using rs(2) assms(3) by auto
  then have p: "allocator_create (map Some es) = Inr ?p" "allocator_ok ?p"
    using rs(1) apart heads_ok by (simp_all add: allocator_create_def allocator_ok_iff)
  obtain css where css: "notify_chains (map (\<lambda>r. [r]) rs) = Some (Inr css)" "regions_ok (concat css)"
    "used_frames (concat css) = {}" "\<forall>c \<in> set (concat css). vmAvailable c"
    using notify_chains_spec [of rs] apart by auto
  have "frames (concat css) = usable_pages (concat css)"
    using css(3) frames_usable [OF css(2)] by (auto simp: used_frames_def)
  moreover have "allocator_ok (?p\<lparr>regions := css\<rparr>)"
    using css(2,3) by (simp add: allocator_ok_iff)
  moreover have "notifyRegionsVm ?p = Some (Inr (?p\<lparr>regions := css\<rparr>))"
    using css(1) by (simp add: notifyRegionsVm_def)
  ultimately show ?thesis
    using p css(4) by (intro exI [of _ ?p] exI [of _ "?p\<lparr>regions := css\<rparr>"]) simp
qed

theorem allocator_boot_witness:
  "\<exists>p p'. allocator_create [Some (0x100000, 0x8000), Some (0x200000, 0x10000)] = Inr p \<and> allocator_ok p
     \<and> notifyRegionsVm p = Some (Inr p') \<and> allocator_ok p'"
  using allocator_boot [of "[(0x100000, 0x8000), (0x200000, 0x10000)]"]
  by (auto simp: range_ok_def ranges_apart_def fits_def CanAllocate_def kMaxRegions_def
      arch_page_size_def kMinPages_def)

text \<open>
  C2: allocating as many pages as are free gives that many different frames, each of them free
  before, none of them 0, page aligned and in reach of the identity map; giving them back, in
  any order, restores the set of free frames.
\<close>

theorem allocator_frames_distinct:
  assumes "allocator_ok p" "n \<le> card (frames (all_regions p))"
  shows "\<exists>pas p' m'. alloc_n allocPage n p m = Inr (pas, p', m') \<and> length pas = n \<and> distinct pas
       \<and> set pas \<subseteq> frames (all_regions p)
       \<and> (\<forall>a \<in> set pas. a \<noteq> 0 \<and> unat a mod 4096 = 0 \<and> unat a + 4096 \<le> 2 ^ 47)
       \<and> allocator_ok p' \<and> frames (all_regions p') = frames (all_regions p) - set pas
       \<and> (\<forall>qas. mset qas = mset pas \<longrightarrow> (\<exists>p''. put_all freePage qas p' = Inr p'' \<and> allocator_ok p''
            \<and> frames (all_regions p'') = frames (all_regions p)))"
proof -
  have fin: "finite (frames (all_regions p))"
    using phys.free_usable [OF assms(1)] finite_subset finite_usable by blast
  obtain pas p' m' where run: "alloc_n allocPage n p m = Inr (pas, p', m')"
    and res: "allocator_ok p'" "length pas = n" "distinct pas" "set pas \<subseteq> frames (all_regions p)"
    "frames (all_regions p') = frames (all_regions p) - set pas"
    "usable_pages (all_regions p') = usable_pages (all_regions p)"
    using phys.alloc_n_frames [OF assms(1) fin assms(2), of m] by blast
  have good: "\<forall>a \<in> set pas. a \<noteq> 0 \<and> unat a mod 4096 = 0 \<and> unat a + 4096 \<le> 2 ^ 47"
    using phys.usable_frame [OF assms(1)] phys.free_usable [OF assms(1)] res(4) by fastforce
  have "\<exists>p''. put_all freePage qas p' = Inr p'' \<and> allocator_ok p''
      \<and> frames (all_regions p'') = frames (all_regions p)" if "mset qas = mset pas" for qas
  proof -
    have qas: "distinct qas" "set qas = set pas"
      using that res(3) by (metis mset_eq_imp_distinct_iff, metis mset_eq_setD)
    then obtain p'' where "put_all freePage qas p' = Inr p''" "allocator_ok p''"
      "frames (all_regions p'') = frames (all_regions p') \<union> set qas"
      using phys.dealloc_all [OF res(1), of qas] res(4-6) phys.free_usable [OF assms(1)] by blast
    then show ?thesis
      using res(4,5) qas(2) by auto
  qed
  then show ?thesis
    using run res(1-5) good by blast
qed

text \<open>A small allocator: two regions of which the second is 16 KiB longer than its chain.\<close>

definition small_region :: "u64 \<Rightarrow> region" where
  "small_region b = region_init\<lparr>vmAvailable := True, base := b, len := 0x4000, allocatable := 0x4000,
     bitmapMax := 3, bitmap := 7 # replicate 383 0\<rparr>"

definition small_allocator :: allocator where
  "small_allocator = \<lparr>regions = [[small_region 0x100000], [small_region 0x200000]],
     allocatedPages = 0, reservedPages = 0\<rparr>"

lemma page_bit_small: "page_bit (7 # replicate 383 0) n \<longleftrightarrow> n < 3"
proof -
  have "bit (7 :: u64) k \<longleftrightarrow> k < 3" for k
    using bit_mask_iff [where ?'a = "64 word", of 3 k] by (auto simp: mask_eq_exp_minus_1)
  then show ?thesis
    by (auto simp: page_bit_def nth_Cons' div_eq_0_iff)
qed

lemma small_region_ok:
  assumes "unat b mod 4096 = 0" "unat b + 0x4000 \<le> 2 ^ 47"
  shows "region_ok (small_region b)" "free_idx (small_region b) = {..<3}"
  using assms by (auto simp: region_ok_def small_region_def region_init_def page_bit_small free_idx_def
      arch_page_size_def)

lemma small_allocator_ok: "allocator_ok small_allocator" "card (frames (all_regions small_allocator)) = 6"
proof -
  let ?rs = "[small_region 0x100000, small_region 0x200000]"
  have ok: "region_ok (small_region 0x100000)" "region_ok (small_region 0x200000)"
    "free_idx (small_region 0x100000) = {..<3}" "free_idx (small_region 0x200000) = {..<3}"
    by (rule small_region_ok; simp)+
  have "\<not> region_overlap (small_region 0x100000) (small_region 0x200000)"
    using apart_no_overlap [OF ok(1,2)] by (simp add: region_end_def small_region_def)
  then have rok: "regions_ok ?rs"
    using ok by (simp add: regions_ok_def small_region_def)
  have "used_frames ?rs = {}"
    using ok(3,4) by (auto simp: used_frames_def usable_pages_def frames_def region_frames_def small_region_def)
  then show "allocator_ok small_allocator"
    using rok by (simp add: allocator_ok_iff small_allocator_def)
  show "card (frames (all_regions small_allocator)) = 6"
    using used_count [OF rok] \<open>used_frames ?rs = {}\<close>
    by (simp add: small_allocator_def capacity_def small_region_def)
qed

theorem allocator_frames_distinct_witness:
  "\<exists>pas p' m' p''. alloc_n allocPage 2 small_allocator (\<lambda>_. 0) = Inr (pas, p', m')
     \<and> distinct pas \<and> length pas = 2 \<and> put_all freePage (rev pas) p' = Inr p''"
proof -
  have "2 \<le> card (frames (all_regions small_allocator))"
    by (simp add: small_allocator_ok(2))
  note run = allocator_frames_distinct [OF small_allocator_ok(1) this, of "\<lambda>_. 0"]
  obtain pas p' m' where run: "alloc_n allocPage 2 small_allocator (\<lambda>_. 0) = Inr (pas, p', m')"
    "length pas = 2" "distinct pas"
    "\<forall>qas. mset qas = mset pas \<longrightarrow> (\<exists>p''. put_all freePage qas p' = Inr p'' \<and> allocator_ok p''
       \<and> frames (all_regions p'') = frames (all_regions small_allocator))"
    using run by blast
  then show ?thesis
    by (metis mset_rev)
qed

text \<open>
  C13: a page that is allocated is taken out of the free frames and cleared, and nothing else in
  memory changes; when no frame is free the answer is 0 and nothing changes at all.
\<close>

theorem allocPage_takes_zeroed:
  assumes "allocator_ok p" "\<forall>r \<in> set (all_regions p). vmAvailable r"
  shows "\<exists>pa p' m'. allocPage p m = Inr (pa, p', m') \<and> allocator_ok p'
       \<and> (if frames (all_regions p) = {} then pa = 0 \<and> m' = m \<and> allocatedPages p' = allocatedPages p
          else pa \<in> frames (all_regions p) \<and> frames (all_regions p') = frames (all_regions p) - {pa}
             \<and> (\<forall>a. m' a = (if a - pa < 4096 then 0 else m a))
             \<and> unat (allocatedPages p') = unat (allocatedPages p) + 1)"
proof -
  obtain pa p' m' where run: "allocPage p m = Inr (pa, p', m')" "allocator_ok p'"
    "usable_pages (all_regions p') = usable_pages (all_regions p)"
    "if frames (all_regions p) = {} then pa = 0 \<and> frames (all_regions p') = {} \<and> m' = m
     else pa \<in> frames (all_regions p) \<and> frames (all_regions p') = frames (all_regions p) - {pa}
        \<and> (m' = m \<or> m' = zero_page pa m) \<and> ((\<forall>r \<in> set (all_regions p). vmAvailable r) \<longrightarrow> m' = zero_page pa m)"
    using phys.alloc_law [OF assms(1), of m] by blast
  have count: "unat (allocatedPages q) = card (usable_pages (all_regions q)) - card (frames (all_regions q))"
    if "allocator_ok q" for q
    using that card_usable [of "all_regions q"] by (auto simp: allocator_ok_def)
  have le: "finite (frames (all_regions p))" "card (frames (all_regions p)) \<le> card (usable_pages (all_regions p))"
    using finite_subset [OF phys.free_usable [OF assms(1)] finite_usable]
      card_mono [OF finite_usable phys.free_usable [OF assms(1)]] by simp_all
  show ?thesis
  proof (cases "frames (all_regions p) = {}")
    case True
    then have "unat (allocatedPages p') = unat (allocatedPages p)"
      using run(2-4) count [OF run(2)] count [OF assms(1)] by simp
    then show ?thesis
      using run True by (auto simp: word_unat_eq_iff)
  next
    case False
    then have pa: "pa \<in> frames (all_regions p)" "frames (all_regions p') = frames (all_regions p) - {pa}"
      "m' = zero_page pa m"
      using run(4) assms(2) by auto
    have "card (frames (all_regions p)) = Suc (card (frames (all_regions p')))"
      using pa(1,2) le(1) by (metis card_Suc_Diff1)
    then have "unat (allocatedPages p') = unat (allocatedPages p) + 1"
      using count [OF run(2)] count [OF assms(1)] run(3) le(2) by simp
    then show ?thesis
      using run(1,2) pa False by (auto simp: zero_page_def arch_page_size_def)
  qed
qed

theorem allocPage_takes_zeroed_witness:
  "\<exists>pa p' m'. allocPage small_allocator (\<lambda>_. 5) = Inr (pa, p', m') \<and> m' pa = 0
     \<and> unat (allocatedPages p') = 1"
proof -
  have ne: "frames (all_regions small_allocator) \<noteq> {}"
    using small_allocator_ok(2) by force
  have vm: "\<forall>r \<in> set (all_regions small_allocator). vmAvailable r"
    and none: "unat (allocatedPages small_allocator) = 0"
    by (simp_all add: small_allocator_def small_region_def)
  obtain pa p' m' where "allocPage small_allocator (\<lambda>_. 5) = Inr (pa, p', m')"
    "\<forall>a. m' a = (if a - pa < 4096 then 0 else 5)" "unat (allocatedPages p') = 0 + 1"
    using allocPage_takes_zeroed [OF small_allocator_ok(1) vm, of "\<lambda>_. 5"] ne none by auto
  then show ?thesis
    by simp
qed

text \<open>
  C21: of the pages a region counts as allocatable, its last one can never be allocated: a region
  that was just created has one free page fewer than it reports, and handing that last page to
  the region to free it panics.
\<close>

theorem last_page_unallocatable:
  assumes "range_ok (b, l)" "CanAllocate b l"
  shows "\<exists>r. region_create b l = Inr r
       \<and> card (region_frames r) + 1 = unat (allocatable r div arch_page_size)
       \<and> checkAddress r (page_addr r (bitmapMax r))
       \<and> region_free1 (page_addr r (bitmapMax r)) r = Inl (Panic ''attempting to free invalid page'')"
proof -
  obtain r where r: "region_create b l = Inr r" "region_for (b, l) r"
    using region_create_head [of "(b, l)"] assms by (auto simp: fits_def)
  then have ok: "region_ok r" "free_idx r = {..<bitmapMax r}"
    by (simp_all add: region_for_def chain_head_def)
  have "inj_on (page_addr r) {..<bitmapMax r}"
    by (rule inj_on_subset [OF page_addr_inj [OF ok(1)]]) auto
  then have "card (region_frames r) = bitmapMax r"
    by (simp add: region_frames_def ok(2) card_image)
  moreover have "unat (allocatable r div arch_page_size) = bitmapMax r + 1"
    using unat_allocatable [OF ok(1)] by (simp add: arch_page_size_def unat_div)
  moreover have a: "unat (page_addr r (bitmapMax r)) = unat (base r) + bitmapMax r * 4096"
    using unat_page_addr [OF ok(1)] by simp
  then have chk: "checkAddress r (page_addr r (bitmapMax r))"
    by (simp add: checkAddress_iff [OF ok(1)])
  moreover have "unat ((page_addr r (bitmapMax r) - base r) div arch_page_size) = bitmapMax r"
    using a by (simp add: arch_page_size_def unat_div unat_sub word_le_nat_alt)
  then have "region_free1 (page_addr r (bitmapMax r)) r = Inl (Panic ''attempting to free invalid page'')"
    using chk by (simp add: region_free1_def Let_def)
  ultimately show ?thesis
    using r(1) by auto
qed

theorem last_page_unallocatable_witness:
  "\<exists>r. region_create 0x100000 0x8000 = Inr r
     \<and> card (region_frames r) + 1 = unat (allocatable r div arch_page_size)"
  using last_page_unallocatable [of "0x100000" "0x8000"]
  by (auto simp: range_ok_def CanAllocate_def arch_page_size_def kMinPages_def)

text \<open>
  A region that starts at physical address 0 loses its first page: the allocator takes the
  answer 0 for \<open>out of memory\<close> although the page has been marked as allocated, goes on to the
  next region, and the page stays marked.
\<close>

theorem page_zero_leaks:
  assumes "region_ok r" "base r = 0" "free_idx r = {0}"
  shows "\<exists>r'. alloc_chain [r] m = Inr (0, [r'], zero r 0 m) \<and> region_frames r = {0} \<and> region_frames r' = {}"
proof -
  obtain pa r' m' where r': "region_alloc r m = Inr (pa, r', m')" "same_shape r r'" "takes_page r m pa r' m'"
    using region_alloc_spec [OF assms(1), of m] assms(3) by auto
  then have "pa = 0" "free_idx r' = {}" "m' = zero r 0 m"
    using assms(2,3) by (auto simp: takes_page_def page_addr_def)
  then show ?thesis
    using r'(1) assms(2,3) by (auto simp: region_frames_def page_addr_def)
qed

definition zero_region :: region where
  "zero_region = region_init\<lparr>len := 0x4000, allocatable := 0x4000, bitmapMax := 3, bitmap := 1 # replicate 383 0\<rparr>"

theorem page_zero_leaks_witness:
  "\<exists>r'. alloc_chain [zero_region] (\<lambda>_. 0) = Inr (0, [r'], zero zero_region 0 (\<lambda>_. 0)) \<and> region_frames r' = {}"
proof -
  have "page_bit (1 # replicate 383 0) n \<longleftrightarrow> n = 0" for n
    by (auto simp: page_bit_def nth_Cons' bit_1_iff div_eq_0_iff)
  then have "region_ok zero_region" "base zero_region = 0" "free_idx zero_region = {0}"
    by (auto simp: region_ok_def zero_region_def region_init_def free_idx_def arch_page_size_def)
  then show ?thesis
    using page_zero_leaks [of zero_region "\<lambda>_. 0"] by blast
qed

end
