(* ===== verification/Page_Table.thy ===== *)
theory Page_Table
  imports Phys_Mem
begin

text \<open>
  The amd64 page tables, \<^verbatim>\<open>kernel/arch/x86_64/src/vm/PTEHandler.h\<close> and \<^verbatim>\<open>PTEHandler.cpp\<close>: the
  handlers with their parent and children, the tables as words of physical memory, and the
  operations that map, unmap and resolve pages by walking the four levels. Tables come from the
  physical allocator. The theory shows that for user addresses the operations implement a map from
  pages to entries: mapping a page sets exactly that page, whatever tables have to be allocated on
  the way, and running out of memory changes no mapping.

  Physical memory is reached through the identity mapping of the loader or through the aperture;
  both name the same word. An address past the end of the aperture becomes a null pointer in the
  code and a fault here. Logging, the processor's control register and its TLB are left out.
\<close>

unbundle bit_operations_syntax

section \<open>Flags and addresses\<close>

definition pf_Present :: u64 where "pf_Present = 0x1"
definition pf_Writable :: u64 where "pf_Writable = 0x2"
definition pf_UserAccess :: u64 where "pf_UserAccess = 0x4"
definition pf_PWT :: u64 where "pf_PWT = 0x8"
definition pf_PCD :: u64 where "pf_PCD = 0x10"
definition pf_Accessed :: u64 where "pf_Accessed = 0x20"
definition pf_Dirty :: u64 where "pf_Dirty = 0x40"
definition pf_PAT :: u64 where "pf_PAT = 0x80"
definition pf_Global :: u64 where "pf_Global = 0x100"
definition pf_NoExecute :: u64 where "pf_NoExecute = 0x8000000000000000"

definition pf_FlagsMask :: u64 where
  "pf_FlagsMask = pf_Present OR pf_Writable OR pf_UserAccess OR pf_PWT OR pf_PCD OR pf_PAT OR pf_Accessed
     OR pf_Dirty OR pf_Global OR pf_NoExecute"

definition TestFlags :: "u64 \<Rightarrow> bool" where
  "TestFlags f = (f \<noteq> 0)"

definition pt_Success :: int where "pt_Success = 0"
definition pt_NoMapping :: int where "pt_NoMapping = 1"
definition pt_NoPageToUnmap :: int where "pt_NoPageToUnmap = 1"
definition pt_AddrNotCanonical :: int where "pt_AddrNotCanonical = -1"
definition pt_NoMemory :: int where "pt_NoMemory = -2"
definition pt_AlreadyMappedLP :: int where "pt_AlreadyMappedLP = -4"

definition kKernelBoundary :: u64 where "kKernelBoundary = 0x8000000000000000"
definition kPhysApertureSize :: u64 where "kPhysApertureSize = 512"

definition noncanonical :: "u64 \<Rightarrow> bool" where
  "noncanonical virt \<longleftrightarrow> virt > 0x00007FFFFFFFFFFF \<and> virt < 0xFFFF800000000000"

text \<open>The index of level \<open>k\<close>, from the root: bits 39, 30, 21 and 12 on.\<close>

definition table_idx :: "nat \<Rightarrow> u64 \<Rightarrow> u64" where
  "table_idx k virt = drop_bit (39 - 9 * k) virt AND 0x1FF"

definition entry_addr :: "u64 \<Rightarrow> u64" where
  "entry_addr e = (e AND NOT 0xFFF) AND NOT pf_FlagsMask"

section \<open>State\<close>

record pte_handler =
  pth_parent :: "nat option"
  pth_children :: "nat list"
  pml4Phys :: u64
  physToDealloc :: "u64 list"

record pt_state =
  pt_mem :: phys_mem
  pt_phys :: allocator
  pt_handlers :: "nat \<rightharpoonup> pte_handler"
  gPhysApertureAvailable :: bool
  gPhysApertureGlobal :: bool

definition with_handler :: "nat \<Rightarrow> pt_state \<Rightarrow> (pte_handler \<Rightarrow> 'a outcome) \<Rightarrow> 'a outcome" where
  "with_handler h s k = (case pt_handlers s h of None \<Rightarrow> Inl BadAccess | Some hn \<Rightarrow> k hn)"

definition aperture_ok :: "u64 \<Rightarrow> bool" where
  "aperture_ok tableBase \<longleftrightarrow> \<not> tableBase > kPhysApertureSize * 1024 * 1024 * 1024"

definition readTable :: "u64 \<Rightarrow> u64 \<Rightarrow> pt_state \<Rightarrow> u64 outcome" where
  "readTable tableBase off s =
     require (off \<le> 511) ''table offset out of range''
       (if aperture_ok tableBase then Inr (pt_mem s (tableBase + 8 * off)) else Inl NullDeref)"

definition writeTable :: "u64 \<Rightarrow> u64 \<Rightarrow> u64 \<Rightarrow> pt_state \<Rightarrow> pt_state outcome" where
  "writeTable tableBase off val s =
     require (off \<le> 511) ''table offset out of range''
       (if aperture_ok tableBase then Inr (s\<lparr>pt_mem := (pt_mem s)(tableBase + 8 * off := val)\<rparr>)
        else Inl NullDeref)"

definition pt_allocPage :: "pt_state \<Rightarrow> (u64 \<times> pt_state) outcome" where
  "pt_allocPage s =
     obind (allocPage (pt_phys s) (pt_mem s)) (\<lambda>(page, p, m).
     let s = s\<lparr>pt_phys := p, pt_mem := m\<rparr> in
     if page = 0 then Inr (page, s)
     else if aperture_ok page then Inr (page, s\<lparr>pt_mem := zero_page page m\<rparr>) else Inl NullDeref)"

section \<open>Construction\<close>

text \<open>\<^verbatim>\<open>arch_supports_nx\<close> asks the processor, so its answer is the parameter \<open>nx\<close>.\<close>

definition aperture_entry :: "bool \<Rightarrow> bool \<Rightarrow> u64 \<Rightarrow> nat \<Rightarrow> u64" where
  "aperture_entry nx glob physBase j =
     (let val = (physBase + of_nat j * 0x40000000) OR 0x83;
          val = (if nx then val OR pf_NoExecute else val)
      in if glob then val OR pf_Global else val)"

fun fill_pdpt :: "bool \<Rightarrow> u64 \<Rightarrow> u64 \<Rightarrow> nat list \<Rightarrow> pt_state \<Rightarrow> pt_state outcome" where
  "fill_pdpt nx pdpt physBase [] s = Inr s"
| "fill_pdpt nx pdpt physBase (j # js) s =
     obind (writeTable pdpt (of_nat j) (aperture_entry nx (gPhysApertureGlobal s) physBase j) s)
       (fill_pdpt nx pdpt physBase js)"

fun init_aperture :: "bool \<Rightarrow> u64 \<Rightarrow> nat list \<Rightarrow> pt_state \<Rightarrow> pt_state outcome" where
  "init_aperture nx pml4 [] s = Inr s"
| "init_aperture nx pml4 (i # is) s =
     obind (pt_allocPage s) (\<lambda>(pdpt, s).
     require (pdpt \<noteq> 0) ''failed to allocate PDPT'' (
     obind (fill_pdpt nx pdpt (of_nat i * 0x8000000000) [0..<512] s) (\<lambda>s.
     let pml4e = (pdpt AND NOT 0xFFF) OR 0x3;
         pml4e = (if nx then pml4e OR pf_NoExecute else pml4e) in
     obind (writeTable pml4 (256 + of_nat i) pml4e s) (init_aperture nx pml4 is))))"

definition initKernel :: "bool \<Rightarrow> u64 \<Rightarrow> pt_state \<Rightarrow> pt_state outcome" where
  "initKernel nx pml4 s = init_aperture nx pml4 [0..<unat (kPhysApertureSize div 512)] s"

fun copy_entries :: "u64 \<Rightarrow> u64 \<Rightarrow> nat list \<Rightarrow> pt_state \<Rightarrow> pt_state outcome" where
  "copy_entries from to [] s = Inr s"
| "copy_entries from to (i # is) s =
     obind (readTable from (of_nat i) s) (\<lambda>e. obind (writeTable to (of_nat i) e s) (copy_entries from to is))"

definition initWithParent :: "nat \<Rightarrow> nat \<Rightarrow> u64 \<Rightarrow> pt_state \<Rightarrow> pt_state outcome" where
  "initWithParent h parent pml4 s =
     with_handler parent s (\<lambda>ph.
     obind (copy_entries (pml4Phys ph) pml4 [255..<512] s) (\<lambda>s.
     Inr (s\<lparr>pt_handlers := (pt_handlers s)(parent \<mapsto> ph\<lparr>pth_children := pth_children ph @ [h]\<rparr>)\<rparr>)))"

text \<open>The constructor of the handler at \<open>h\<close>.\<close>

definition pte_create :: "bool \<Rightarrow> nat \<Rightarrow> nat option \<Rightarrow> pt_state \<Rightarrow> pt_state outcome" where
  "pte_create nx h parent s =
     obind (pt_allocPage s) (\<lambda>(pml4, s).
     require (pml4 \<noteq> 0) ''failed to allocate PML4'' (
     let s = s\<lparr>pt_handlers := (pt_handlers s)(h \<mapsto>
                 \<lparr>pth_parent = parent, pth_children = [], pml4Phys = pml4, physToDealloc = []\<rparr>)\<rparr> in
     case parent of Some kernelPte \<Rightarrow> initWithParent h kernelPte pml4 s
     | None \<Rightarrow> initKernel nx pml4 s))"

text \<open>The destructor: frees the pages it recorded and leaves the parent's list.\<close>

definition pte_destroy :: "nat \<Rightarrow> pt_state \<Rightarrow> pt_state outcome" where
  "pte_destroy h s =
     with_handler h s (\<lambda>hn.
     obind (put_all freePage (physToDealloc hn) (pt_phys s)) (\<lambda>p.
     let s = s\<lparr>pt_phys := p\<rparr> in
     case pth_parent hn of None \<Rightarrow> Inr (s\<lparr>pt_handlers := (pt_handlers s)(h := None)\<rparr>)
     | Some parent \<Rightarrow> with_handler parent s (\<lambda>ph.
         require (h \<in> set (pth_children ph)) ''failed to remove child map from parent''
           (Inr (s\<lparr>pt_handlers := ((pt_handlers s)
                    (parent \<mapsto> ph\<lparr>pth_children := removeAll h (pth_children ph)\<rparr>))(h := None)\<rparr>)))))"

definition InitialKernelMapLoad :: "pt_state \<Rightarrow> pt_state" where
  "InitialKernelMapLoad s = s\<lparr>gPhysApertureAvailable := True\<rparr>"

section \<open>Mapping\<close>

fun broadcast :: "nat list \<Rightarrow> u64 \<Rightarrow> u64 \<Rightarrow> pt_state \<Rightarrow> pt_state outcome" where
  "broadcast [] idx entry s = Inr s"
| "broadcast (c # cs) idx entry s =
     with_handler c s (\<lambda>ch.
     obind (if pml4Phys ch \<noteq> 0 then writeTable (pml4Phys ch) idx entry s else Inr s) (broadcast cs idx entry))"

definition broadcastKernelPml4Update :: "nat \<Rightarrow> u64 \<Rightarrow> u64 \<Rightarrow> pt_state \<Rightarrow> pt_state outcome" where
  "broadcastKernelPml4Update h idx entry s = with_handler h s (\<lambda>hn. broadcast (pth_children hn) idx entry s)"

text \<open>
  Allocating the next table and entering it at an index of the current one, which the code does at
  three levels; \<open>None\<close> when there is no memory.
\<close>

definition alloc_table :: "u64 \<Rightarrow> u64 \<Rightarrow> u64 \<Rightarrow> pt_state \<Rightarrow> (u64 option \<times> pt_state) outcome" where
  "alloc_table virt table idx s =
     obind (pt_allocPage s) (\<lambda>(page, s).
     if page = 0 then Inr (None, s)
     else
       let entry = page OR 3; entry = (if virt < kKernelBoundary then entry OR 4 else entry)
       in obind (writeTable table idx entry s) (\<lambda>s. Inr (Some entry, s)))"

definition present :: "u64 \<Rightarrow> bool" where "present e \<longleftrightarrow> e AND 1 \<noteq> 0"

definition large :: "u64 \<Rightarrow> bool" where "large e \<longleftrightarrow> e AND 0x80 \<noteq> 0"

definition make_pte :: "bool \<Rightarrow> u64 \<Rightarrow> bool \<Rightarrow> bool \<Rightarrow> bool \<Rightarrow> bool \<Rightarrow> u64" where
  "make_pte nx phys write execute global user =
     (let pte = entry_addr phys OR pf_Present;
          pte = (if write then pte OR pf_Writable else pte);
          pte = (if global then pte OR pf_Global else pte);
          pte = (if user then pte OR pf_UserAccess else pte)
      in if \<not> execute \<and> nx then pte OR pf_NoExecute else pte)"

text \<open>The last steps, from the page directory on, and the steps before them.\<close>

definition map_pdt :: "u64 \<Rightarrow> u64 \<Rightarrow> u64 \<Rightarrow> pt_state \<Rightarrow> (int \<times> pt_state) outcome" where
  "map_pdt virt pte pdtAddr s =
     obind (readTable pdtAddr (table_idx 2 virt) s) (\<lambda>pdte.
     obind (if \<not> present pdte then alloc_table virt pdtAddr (table_idx 2 virt) s else Inr (Some pdte, s)) (\<lambda>(e, s).
     case e of None \<Rightarrow> Inr (pt_NoMemory, s)
     | Some pdte' \<Rightarrow>
         if present pdte \<and> large pdte then Inr (pt_AlreadyMappedLP, s)
         else obind (writeTable (entry_addr pdte') (table_idx 3 virt) pte s) (\<lambda>s. Inr (pt_Success, s))))"

definition map_pdpt :: "u64 \<Rightarrow> u64 \<Rightarrow> u64 \<Rightarrow> pt_state \<Rightarrow> (int \<times> pt_state) outcome" where
  "map_pdpt virt pte pdptAddr s =
     obind (readTable pdptAddr (table_idx 1 virt) s) (\<lambda>pdpte.
     obind (if \<not> present pdpte then alloc_table virt pdptAddr (table_idx 1 virt) s else Inr (Some pdpte, s)) (\<lambda>(e, s).
     case e of None \<Rightarrow> Inr (pt_NoMemory, s)
     | Some pdpte' \<Rightarrow>
         if present pdpte \<and> large pdpte then Inr (pt_AlreadyMappedLP, s)
         else map_pdt virt pte (entry_addr pdpte') s))"

definition map_pml4 :: "nat \<Rightarrow> pte_handler \<Rightarrow> u64 \<Rightarrow> u64 \<Rightarrow> pt_state \<Rightarrow> (int \<times> pt_state) outcome" where
  "map_pml4 h hn virt0 pte s =
     (let virt = virt0 AND 0xFFFFFFFFFFFF in
      obind (readTable (pml4Phys hn) (table_idx 0 virt) s) (\<lambda>pml4e.
      obind (if \<not> present pml4e then alloc_table virt (pml4Phys hn) (table_idx 0 virt) s else Inr (Some pml4e, s)) (\<lambda>(e, s).
      case e of None \<Rightarrow> Inr (pt_NoMemory, s)
      | Some pml4e' \<Rightarrow>
          obind (if \<not> present pml4e \<and> virt0 \<ge> kKernelBoundary \<and> gPhysApertureAvailable s \<and> pth_parent hn = None
                 then broadcastKernelPml4Update h (table_idx 0 virt) pml4e' s else Inr s) (\<lambda>s.
          map_pdpt virt pte (entry_addr pml4e') s))))"

text \<open>
  The whole function. Requests for kernel addresses go to the parent, so the number of handlers up
  to the root bounds the recursion; \<open>None\<close> stands for running out of it.
\<close>

fun mapPage :: "nat \<Rightarrow> bool \<Rightarrow> nat \<Rightarrow> u64 \<Rightarrow> u64 \<Rightarrow> bool \<Rightarrow> bool \<Rightarrow> bool \<Rightarrow> bool \<Rightarrow> bool
    \<Rightarrow> pt_state \<Rightarrow> (int \<times> pt_state) outcome option" where
  "mapPage 0 nx h phys virt write execute global user noCache s = None"
| "mapPage (Suc n) nx h phys virt write execute global user noCache s =
     (case pt_handlers s h of None \<Rightarrow> Some (Inl BadAccess)
      | Some hn \<Rightarrow>
          if noncanonical virt then Some (Inr (pt_AddrNotCanonical, s))
          else if pth_parent hn \<noteq> None \<and> virt \<ge> kKernelBoundary
          then mapPage n nx (the (pth_parent hn)) phys virt write execute global user noCache s
          else Some (map_pml4 h hn virt (make_pte nx phys write execute global user) s))"

section \<open>Unmapping and resolving\<close>

definition unmapPage :: "nat \<Rightarrow> u64 \<Rightarrow> pt_state \<Rightarrow> (int \<times> pt_state) outcome" where
  "unmapPage h virt0 s =
     (let virt = virt0 AND 0xFFFFFFFFFFFF in
      with_handler h s (\<lambda>hn.
      obind (readTable (pml4Phys hn) (table_idx 0 virt) s) (\<lambda>pml4e.
      if \<not> present pml4e then Inr (pt_NoPageToUnmap, s)
      else
        obind (readTable (entry_addr pml4e) (table_idx 1 virt) s) (\<lambda>pdpte.
        if \<not> present pdpte then Inr (pt_NoPageToUnmap, s)
        else if large pdpte then Inr (pt_AlreadyMappedLP, s)
        else
          obind (readTable (entry_addr pdpte) (table_idx 2 virt) s) (\<lambda>pdte.
          if \<not> present pdte then Inr (pt_NoPageToUnmap, s)
          else if large pdte then Inr (pt_AlreadyMappedLP, s)
          else obind (writeTable (entry_addr pdte) (table_idx 3 virt) 0 s) (\<lambda>s. Inr (pt_Success, s)))))))"

definition gater :: "u64 \<Rightarrow> u64 \<Rightarrow> bool \<Rightarrow> u64" where
  "gater flags pte access =
     (let flags = (if TestFlags (pte AND pf_NoExecute) then flags OR pf_NoExecute else flags);
          flags = (if \<not> TestFlags (pte AND pf_Writable) then flags AND NOT pf_Writable else flags);
          flags = (if \<not> TestFlags (pte AND pf_UserAccess) then flags AND NOT pf_UserAccess else flags)
      in if access then
           let flags = (if TestFlags (pte AND pf_Accessed) then flags OR pf_Accessed else flags)
           in if TestFlags (pte AND pf_Dirty) then flags OR pf_Dirty else flags
         else flags)"

definition pml4_flags :: "u64 \<Rightarrow> u64" where
  "pml4_flags pml4e =
     (let flags = (if TestFlags (pml4e AND pf_NoExecute) then pf_NoExecute else 0);
          flags = (if TestFlags (pml4e AND pf_Writable) then flags OR pf_Writable else flags)
      in if TestFlags (pml4e AND pf_UserAccess) then flags OR pf_UserAccess else flags)"

text \<open>The status with, when it is success, the address and the flags that were written out.\<close>

definition Resolve :: "u64 \<Rightarrow> u64 \<Rightarrow> pt_state \<Rightarrow> (int \<times> (u64 \<times> u64) option) outcome" where
  "Resolve pml4 virt0 s =
     (if noncanonical virt0 then Inr (pt_AddrNotCanonical, None)
      else let virt = virt0 AND 0xFFFFFFFFFFFF in
        obind (readTable pml4 (table_idx 0 virt) s) (\<lambda>pml4e.
        if \<not> present pml4e then Inr (pt_NoMapping, None)
        else let flags = pml4_flags pml4e in
          obind (readTable (entry_addr pml4e) (table_idx 1 virt) s) (\<lambda>pdpte.
          if \<not> present pdpte then Inr (pt_NoMapping, None)
          else if large pdpte then
            Inr (pt_Success, Some (((pdpte AND NOT 0x3FFFFFFF) AND NOT pf_FlagsMask) + (virt AND 0x3FFFFFFF),
                                   gater flags pdpte True))
          else let flags = gater flags pdpte False in
            obind (readTable (entry_addr pdpte) (table_idx 2 virt) s) (\<lambda>pdte.
            if \<not> present pdte then Inr (pt_NoMapping, None)
            else if large pdte then
              Inr (pt_Success, Some (((pdte AND NOT 0x1FFFFF) AND NOT pf_FlagsMask) + (virt AND 0x1FFFFF),
                                     gater flags pdte True))
            else let flags = gater flags pdte False in
              obind (readTable (entry_addr pdte) (table_idx 3 virt) s) (\<lambda>pte.
              if \<not> present pte then Inr (pt_NoMapping, None)
              else Inr (pt_Success, Some (entry_addr pte + (virt AND 0xFFF), gater flags pte True)))))))"

record page_mapping =
  pm_phys :: "u64 option"
  pm_write :: bool
  pm_execute :: bool
  pm_global :: bool
  pm_user :: bool

definition getMapping :: "bool \<Rightarrow> nat \<Rightarrow> u64 \<Rightarrow> pt_state \<Rightarrow> (int \<times> page_mapping) outcome" where
  "getMapping nx h virt s =
     with_handler h s (\<lambda>hn.
     obind (Resolve (pml4Phys hn) virt s) (\<lambda>(ret, out).
     let flags = (case out of None \<Rightarrow> 0 | Some (_, f) \<Rightarrow> f) in
     Inr (if ret = pt_Success then 0 else if ret = pt_NoMapping then 1 else ret,
          \<lparr>pm_phys = map_option fst out, pm_write = TestFlags (flags AND pf_Writable),
           pm_execute = (if nx then \<not> TestFlags (flags AND pf_NoExecute) else True),
           pm_global = TestFlags (flags AND pf_Global), pm_user = TestFlags (flags AND pf_UserAccess)\<rparr>)))"

definition ResolvePml4Virt :: "u64 \<Rightarrow> u64 \<Rightarrow> pt_state \<Rightarrow> (int \<times> u64 option) outcome" where
  "ResolvePml4Virt pml4 virt s = obind (Resolve pml4 virt s) (\<lambda>(ret, out). Inr (ret, map_option fst out))"

section \<open>Words in tables\<close>

text \<open>A frame that can hold a table: aligned and within the aperture.\<close>

definition table_frame :: "u64 \<Rightarrow> bool" where
  "table_frame t \<longleftrightarrow> unat t mod 4096 = 0 \<and> unat t + 4096 \<le> 2 ^ 39"

lemma table_idx_less: "unat (table_idx k v) < 512"
proof -
  have "table_idx k v \<le> 0x1FF"
    unfolding table_idx_def by (simp add: word_and_le1)
  then have "unat (table_idx k v) \<le> unat (0x1FF :: u64)"
    unfolding word_le_nat_alt .
  then show ?thesis
    by simp
qed

lemma table_idx_le: "table_idx k v \<le> 511"
  using table_idx_less [of k v] by (simp add: word_le_nat_alt)

lemma unat_slot:
  assumes "table_frame t" "unat x < 512"
  shows "unat (t + 8 * x) = unat t + 8 * unat x"
proof -
  have e: "unat (8 * x) = 8 * unat x"
    using assms(2) by (simp add: unat_word_ariths(2))
  have "(2 :: nat) ^ 39 < 2 ^ 64"
    by simp
  then have "unat t + 8 * unat x < 2 ^ 64"
    using assms unfolding table_frame_def by linarith
  then show ?thesis
    using e by (simp add: unat_word_ariths(1))
qed

lemma slot_word_inj:
  assumes "table_frame t" "table_frame t'" "unat x < 512" "unat y < 512" "t + 8 * x = t' + 8 * y"
  shows "t = t' \<and> x = y"
proof -
  have eq: "unat t + 8 * unat x = unat t' + 8 * unat y"
    using assms(5) unat_slot [OF assms(1,3)] unat_slot [OF assms(2,4)] by simp
  obtain a b where ab: "unat t = 4096 * a" "unat t' = 4096 * b"
    using assms(1,2) unfolding table_frame_def by (metis mod_0_imp_dvd dvd_def)
  have "8 * unat x < 4096" "8 * unat y < 4096"
    using assms(3,4) by simp_all
  then have "a = b"
    using eq unfolding ab by linarith
  then show ?thesis
    using eq ab by (simp add: word_unat_eq_iff)
qed

lemma slot_inj:
  assumes "table_frame t" "table_frame t'" "t + 8 * table_idx k v = t' + 8 * table_idx k' v'"
  shows "t = t' \<and> table_idx k v = table_idx k' v'"
  using slot_word_inj [OF assms(1,2) table_idx_less table_idx_less assms(3)] .

lemma in_page_iff:
  assumes "table_frame p"
  shows "a - p < arch_page_size \<longleftrightarrow> unat p \<le> unat a \<and> unat a < unat p + 4096"
proof (cases "p \<le> a")
  case True
  then have "unat (a - p) = unat a - unat p"
    by (simp add: unat_sub)
  then show ?thesis
    using True by (auto simp: word_less_nat_alt arch_page_size_def word_le_nat_alt)
next
  case False
  have s: "(2 :: nat) ^ 39 < 2 ^ 64"
    by simp
  have lt: "unat a < unat p"
    using False by (simp add: word_le_nat_alt)
  have "unat (a - p) = 2 ^ 64 + unat a - unat p"
    using False by (simp add: unat_sub_if' word_le_nat_alt)
  then have "4096 \<le> unat (a - p)"
    using assms lt s unfolding table_frame_def by linarith
  then show ?thesis
    using lt by (simp add: word_less_nat_alt arch_page_size_def)
qed

lemma slot_in_page:
  assumes "table_frame t" "table_frame p"
  shows "t + 8 * table_idx k v - p < arch_page_size \<longleftrightarrow> t = p"
proof -
  let ?i = "unat (table_idx k v)"
  obtain a b where ab: "unat t = 4096 * a" "unat p = 4096 * b"
    using assms unfolding table_frame_def by (metis mod_0_imp_dvd dvd_def)
  have "8 * ?i < 4096"
    using table_idx_less [of k v] by simp
  then have "(4096 * b \<le> 4096 * a + 8 * ?i \<and> 4096 * a + 8 * ?i < 4096 * b + 4096) \<longleftrightarrow> a = b"
    by linarith
  then show ?thesis
    using ab by (simp add: in_page_iff [OF assms(2)] unat_slot [OF assms(1) table_idx_less] word_unat_eq_iff)
qed

section \<open>Walking the tables\<close>

text \<open>
  The table that a walk for \<open>v\<close> reaches at level \<open>k\<close>: the root at level 0, the page table at
  level 3. Walks with the same indices up to a level reach the same table there.
\<close>

fun walk :: "phys_mem \<Rightarrow> u64 \<Rightarrow> u64 \<Rightarrow> nat \<Rightarrow> u64 option" where
  "walk m r v 0 = Some r"
| "walk m r v (Suc k) = (case walk m r v k of None \<Rightarrow> None
     | Some t \<Rightarrow> let e = m (t + 8 * table_idx k v) in if present e then Some (entry_addr e) else None)"

definition same_idx :: "nat \<Rightarrow> u64 \<Rightarrow> u64 \<Rightarrow> bool" where
  "same_idx k v v' \<longleftrightarrow> (\<forall>i < k. table_idx i v = table_idx i v')"

lemma same_idx_Suc: "same_idx (Suc k) v v' \<longleftrightarrow> same_idx k v v' \<and> table_idx k v = table_idx k v'"
  by (auto simp: same_idx_def less_Suc_eq)

lemma same_idx_refl [simp]: "same_idx k v v"
  by (simp add: same_idx_def)

lemma same_idx_mono: "same_idx k v v' \<Longrightarrow> j \<le> k \<Longrightarrow> same_idx j v v'"
  by (simp add: same_idx_def)

lemma walk_same_idx: "same_idx k v v' \<Longrightarrow> walk m r v k = walk m r v' k"
  by (induction k) (auto simp: same_idx_Suc split: option.splits)

lemma walk_Some_le: "walk m r v k \<noteq> None \<Longrightarrow> j \<le> k \<Longrightarrow> walk m r v j \<noteq> None"
proof (induction k)
  case (Suc k)
  then show ?case
    by (cases "j = Suc k") (auto split: option.splits)
qed simp

text \<open>Entries that point to tables: writable, for the user, executable and not a large page.\<close>

definition table_entry :: "u64 \<Rightarrow> bool" where
  "table_entry e \<longleftrightarrow> e AND pf_Writable \<noteq> 0 \<and> e AND pf_UserAccess \<noteq> 0 \<and> e AND pf_NoExecute = 0 \<and> \<not> large e"

definition user_addr :: "u64 \<Rightarrow> bool" where
  "user_addr v \<longleftrightarrow> v \<le> 0x00007FFFFFFFFFFF"

text \<open>
  The tables for user addresses below the root \<open>r\<close> form a tree: all are frames that are not free,
  no two walks meet in a table unless their indices agree, and the entries are those of tables.
\<close>

definition pt_tree :: "phys_mem \<Rightarrow> u64 \<Rightarrow> u64 set \<Rightarrow> bool" where
  "pt_tree m r F \<longleftrightarrow>
     (\<forall>v k t. user_addr v \<longrightarrow> k \<le> 3 \<longrightarrow> walk m r v k = Some t \<longrightarrow> table_frame t \<and> t \<notin> F) \<and>
     (\<forall>v v' j k t. user_addr v \<longrightarrow> user_addr v' \<longrightarrow> j \<le> 3 \<longrightarrow> k \<le> 3 \<longrightarrow>
        walk m r v j = Some t \<longrightarrow> walk m r v' k = Some t \<longrightarrow> j = k \<and> same_idx k v v') \<and>
     (\<forall>v k t. user_addr v \<longrightarrow> k \<le> 2 \<longrightarrow> walk m r v k = Some t \<longrightarrow>
        present (m (t + 8 * table_idx k v)) \<longrightarrow> table_entry (m (t + 8 * table_idx k v)))"

lemma pt_treeD:
  assumes "pt_tree m r F" "user_addr v"
  shows "k \<le> 3 \<Longrightarrow> walk m r v k = Some t \<Longrightarrow> table_frame t"
    and "k \<le> 3 \<Longrightarrow> walk m r v k = Some t \<Longrightarrow> t \<notin> F"
    and "user_addr v' \<Longrightarrow> j \<le> 3 \<Longrightarrow> k \<le> 3 \<Longrightarrow> walk m r v j = Some t \<Longrightarrow> walk m r v' k = Some t \<Longrightarrow> j = k"
    and "user_addr v' \<Longrightarrow> j \<le> 3 \<Longrightarrow> k \<le> 3 \<Longrightarrow> walk m r v j = Some t \<Longrightarrow> walk m r v' k = Some t
           \<Longrightarrow> same_idx k v v'"
    and "k \<le> 2 \<Longrightarrow> walk m r v k = Some t \<Longrightarrow> present (m (t + 8 * table_idx k v))
           \<Longrightarrow> table_entry (m (t + 8 * table_idx k v))"
  using assms unfolding pt_tree_def by blast+

text \<open>The entry that maps the page of an address.\<close>

definition pte_of :: "phys_mem \<Rightarrow> u64 \<Rightarrow> u64 \<Rightarrow> u64 option" where
  "pte_of m r v = (case walk m r v 3 of None \<Rightarrow> None
     | Some t \<Rightarrow> let e = m (t + 8 * table_idx 3 v) in if present e then Some e else None)"

text \<open>Two slots of the tree are the same word only for the same level and the same indices.\<close>

lemma tree_slot_eq:
  assumes tree: "pt_tree m r F" and u: "user_addr v" "user_addr v'" and le: "j \<le> 3" "k \<le> 3"
    and w: "walk m r v j = Some t" "walk m r v' k = Some t'"
  shows "t + 8 * table_idx j v = t' + 8 * table_idx k v' \<longleftrightarrow> j = k \<and> same_idx (Suc k) v v'"
proof
  assume "t + 8 * table_idx j v = t' + 8 * table_idx k v'"
  then have "t = t'" "table_idx j v = table_idx k v'"
    using slot_inj [OF pt_treeD(1) [OF tree u(1) le(1) w(1)] pt_treeD(1) [OF tree u(2) le(2) w(2)]] by auto
  then show "j = k \<and> same_idx (Suc k) v v'"
    using pt_treeD(3,4) [OF tree u le] w by (auto simp: same_idx_Suc)
next
  assume "j = k \<and> same_idx (Suc k) v v'"
  then show "t + 8 * table_idx j v = t' + 8 * table_idx k v'"
    using w walk_same_idx [of k v v' m r] by (auto simp: same_idx_Suc)
qed

section \<open>Entries\<close>

lemma and_not_disjoint: "x AND y = 0 \<Longrightarrow> x AND NOT y = (x :: u64)"
  by (auto simp: bit_eq_iff bit_simps)

lemma frame_mask:
  assumes "table_frame p"
  shows "p AND 0x7FFFFFF000 = p"
proof -
  have "unat (take_bit 12 p) = 0"
    unfolding unsigned_take_bit_eq using assms by (simp add: table_frame_def take_bit_eq_mod)
  then have "p AND mask 12 = 0"
    by (simp add: take_bit_eq_mask unat_eq_zero)
  then have 1: "p AND NOT (mask 12) = p"
    by (rule and_not_disjoint)
  have "unat p < 2 ^ 39"
    using assms unfolding table_frame_def by linarith
  then have "unat (take_bit 39 p) = unat p"
    unfolding unsigned_take_bit_eq by (rule take_bit_nat_eq_self)
  then have 2: "p AND mask 39 = p"
    by (simp add: take_bit_eq_mask word_unat_eq_iff)
  have "p AND 0x7FFFFFF000 = (p AND mask 39) AND NOT (mask 12)"
    by (simp add: and.assoc mask_numeral)
  then show ?thesis
    using 1 2 by simp
qed

lemma frame_and: "table_frame p \<Longrightarrow> p AND x = p AND (0x7FFFFFF000 AND x)"
  using frame_mask [of p] by (simp flip: and.assoc)

lemma frame_and_keep: "table_frame p \<Longrightarrow> 0x7FFFFFF000 AND x = 0x7FFFFFF000 \<Longrightarrow> p AND x = p"
  using frame_and [of p x] frame_mask [of p] by simp

lemma frame_and_drop: "table_frame p \<Longrightarrow> 0x7FFFFFF000 AND x = 0 \<Longrightarrow> p AND x = 0"
  using frame_and [of p x] by simp

lemma pf_FlagsMask_eq: "pf_FlagsMask = 0x80000000000001FF"
  by (simp add: pf_FlagsMask_def pf_Present_def pf_Writable_def pf_UserAccess_def pf_PWT_def pf_PCD_def
        pf_Accessed_def pf_Dirty_def pf_PAT_def pf_Global_def pf_NoExecute_def)

lemma new_table_entry:
  assumes "table_frame p"
  shows "entry_addr (p OR 7) = p" "present (p OR 7)" "table_entry (p OR 7)"
  using assms
  by (simp_all add: entry_addr_def pf_FlagsMask_eq present_def table_entry_def large_def pf_Writable_def
        pf_UserAccess_def pf_NoExecute_def frame_and_keep frame_and_drop bit.conj_disj_distrib2 and.assoc)

lemma not_present_0 [simp]: "\<not> present 0"
  by (simp add: present_def)

section \<open>Changing the tree\<close>

text \<open>Entering a new, zeroed table \<open>p\<close> at a slot of level \<open>k\<close> that was not present.\<close>

definition add_table :: "u64 \<Rightarrow> u64 \<Rightarrow> nat \<Rightarrow> u64 \<Rightarrow> phys_mem \<Rightarrow> phys_mem" where
  "add_table p t k v m = (zero_page p m)(t + 8 * table_idx k v := p OR 7)"

lemma add_table_slot:
  assumes tree: "pt_tree m r F" and u: "user_addr v" "user_addr v'" and k: "k \<le> 2" "j \<le> 3"
    and w: "walk m r v k = Some t" "walk m r v' j = Some t'" and p: "p \<in> F" "table_frame p"
  shows "add_table p t k v m (t' + 8 * table_idx j v')
    = (if j = k \<and> same_idx (Suc k) v v' then p OR 7 else m (t' + 8 * table_idx j v'))"
proof -
  have "t' \<noteq> p"
    using pt_treeD(2) [OF tree u(2) k(2) w(2)] p(1) by auto
  then have "\<not> t' + 8 * table_idx j v' - p < arch_page_size"
    using slot_in_page [OF pt_treeD(1) [OF tree u(2) k(2) w(2)] p(2)] by simp
  moreover have "t' + 8 * table_idx j v' = t + 8 * table_idx k v \<longleftrightarrow> j = k \<and> same_idx (Suc k) v v'"
    using tree_slot_eq [OF tree u _ k(2) w] k(1) by (auto simp: eq_commute)
  ultimately show ?thesis
    by (simp add: add_table_def zero_page_def)
qed

lemma add_table_new_slot:
  assumes tree: "pt_tree m r F" and u: "user_addr v" and k: "k \<le> 2" and w: "walk m r v k = Some t"
    and p: "p \<in> F" "table_frame p"
  shows "add_table p t k v m (p + 8 * table_idx j v') = 0"
proof -
  have "t \<noteq> p" "table_frame t"
    using pt_treeD(1,2) [OF tree u _ w] k p(1) by auto
  then have "t + 8 * table_idx k v \<noteq> p + 8 * table_idx j v'"
    using slot_inj [of t p k v j v'] p(2) by auto
  moreover have "p + 8 * table_idx j v' - p < arch_page_size"
    using slot_in_page [OF p(2) p(2)] by simp
  ultimately show ?thesis
    by (simp add: add_table_def zero_page_def)
qed

lemma walk_add_table:
  assumes tree: "pt_tree m r F" and u: "user_addr v" "user_addr v'" and k: "k \<le> 2"
    and w: "walk m r v k = Some t" "\<not> present (m (t + 8 * table_idx k v))" and p: "p \<in> F" "table_frame p"
  shows "j \<le> 3 \<Longrightarrow> walk (add_table p t k v m) r v' j
    = (if k < j \<and> same_idx (Suc k) v v' then if j = Suc k then Some p else None else walk m r v' j)"
proof (induction j)
  case (Suc j)
  let ?m = "add_table p t k v m"
  have IH: "walk ?m r v' j = (if k < j \<and> same_idx (Suc k) v v' then if j = Suc k then Some p else None else walk m r v' j)"
    using Suc by simp
  show ?case
  proof (cases "k < j \<and> same_idx (Suc k) v v'")
    case True
    then show ?thesis
      using IH add_table_new_slot [OF tree u(1) k w(1) p, of j v'] by auto
  next
    case False
    then have eq: "walk ?m r v' j = walk m r v' j"
      using IH by (simp only: if_False)
    show ?thesis
    proof (cases "walk m r v' j")
      case None
      then have "\<not> (j = k \<and> same_idx (Suc k) v v')"
        using w(1) walk_same_idx [of k v v' m r] same_idx_mono [of "Suc k" v v' k] by auto
      then show ?thesis
        using None eq False by (auto simp: less_Suc_eq)
    next
      case (Some t')
      have "?m (t' + 8 * table_idx j v') = (if j = k \<and> same_idx (Suc k) v v' then p OR 7 else m (t' + 8 * table_idx j v'))"
        using add_table_slot [OF tree u k _ w(1) Some p] Suc.prems by simp
      then show ?thesis
        using Some eq False new_table_entry [OF p(2)] by (auto simp: less_Suc_eq)
    qed
  qed
qed simp

lemma add_table_tree:
  assumes tree: "pt_tree m r F" and u: "user_addr v" and k: "k \<le> 2"
    and w: "walk m r v k = Some t" "\<not> present (m (t + 8 * table_idx k v))" and p: "p \<in> F" "table_frame p"
  shows "pt_tree (add_table p t k v m) r (F - {p})"
proof -
  let ?m = "add_table p t k v m"
  have walks: "j \<le> 3 \<Longrightarrow> walk ?m r v' j
      = (if k < j \<and> same_idx (Suc k) v v' then if j = Suc k then Some p else None else walk m r v' j)"
    if "user_addr v'" for v' j
    by (rule walk_add_table [OF tree u that k w p])
  have old: "t' \<noteq> p" "table_frame t'" "t' \<notin> F" if "user_addr v'" "j \<le> 3" "walk m r v' j = Some t'" for v' j t'
    using pt_treeD(1,2) [OF tree that] p(1) by auto
  have frames: "table_frame t' \<and> t' \<notin> F - {p}" if "user_addr v'" "j \<le> 3" "walk ?m r v' j = Some t'" for v' j t'
    using that walks [OF that(1,2)] old [OF that(1,2)] p(2) by (auto split: if_splits)
  have inj: "i = j \<and> same_idx j v1 v2"
    if "user_addr v1" "user_addr v2" "i \<le> 3" "j \<le> 3" "walk ?m r v1 i = Some t'" "walk ?m r v2 j = Some t'" for v1 v2 i j t'
  proof (cases "t' = p")
    case True
    then have "i = Suc k" "j = Suc k" "same_idx (Suc k) v v1" "same_idx (Suc k) v v2"
      using that walks [OF that(1,3)] walks [OF that(2,4)] old(1) by (auto split: if_splits)
    then show ?thesis
      by (auto simp: same_idx_def)
  next
    case False
    then have "walk m r v1 i = Some t'" "walk m r v2 j = Some t'"
      using that walks [OF that(1,3)] walks [OF that(2,4)] by (auto split: if_splits)
    then show ?thesis
      using pt_treeD(3,4) [OF tree that(1,2,3,4)] by blast
  qed
  have entries: "table_entry (?m (t' + 8 * table_idx j v'))"
    if "user_addr v'" "j \<le> 2" "walk ?m r v' j = Some t'" "present (?m (t' + 8 * table_idx j v'))" for v' j t'
  proof (cases "t' = p")
    case True
    then show ?thesis
      using that(4) add_table_new_slot [OF tree u k w(1) p] by simp
  next
    case False
    then have w': "walk m r v' j = Some t'"
      using that(3) walks [OF that(1), of j] that(2) by (auto split: if_splits)
    then show ?thesis
      using that(4) add_table_slot [OF tree u that(1) k _ w(1) w' p] new_table_entry [OF p(2)]
        pt_treeD(5) [OF tree that(1,2) w'] that(2) by (auto split: if_splits)
  qed
  show ?thesis
    unfolding pt_tree_def using frames inj entries by blast
qed

lemma add_table_pte:
  assumes tree: "pt_tree m r F" and u: "user_addr v" "user_addr v'" and k: "k \<le> 2"
    and w: "walk m r v k = Some t" "\<not> present (m (t + 8 * table_idx k v))" and p: "p \<in> F" "table_frame p"
  shows "pte_of (add_table p t k v m) r v' = pte_of m r v'"
proof -
  let ?m = "add_table p t k v m"
  have walk3: "walk ?m r v' 3 = (if same_idx (Suc k) v v' then if 3 = Suc k then Some p else None else walk m r v' 3)"
    using walk_add_table [OF tree u k w p, of 3] k by simp
  show ?thesis
  proof (cases "same_idx (Suc k) v v'")
    case True
    then have "walk m r v' (Suc k) = None"
      using w walk_same_idx [of k v v' m r] by (simp add: same_idx_Suc)
    then have "walk m r v' 3 = None"
      using walk_Some_le [of m r v' 3 "Suc k"] k by fastforce
    then show ?thesis
      using walk3 True add_table_new_slot [OF tree u(1) k w(1) p, of 3 v'] by (auto simp: pte_of_def Let_def)
  next
    case False
    then show ?thesis
      using walk3 add_table_slot [OF tree u k _ w(1) _ p, of 3] k
      by (auto simp: pte_of_def split: option.splits)
  qed
qed

text \<open>Writing a page table entry.\<close>

lemma walk_set_pte:
  assumes tree: "pt_tree m r F" and u: "user_addr v" "user_addr v'" and w: "walk m r v 3 = Some t"
  shows "j \<le> 3 \<Longrightarrow> walk (m(t + 8 * table_idx 3 v := e)) r v' j = walk m r v' j"
proof (induction j)
  case (Suc j)
  have "t' + 8 * table_idx j v' \<noteq> t + 8 * table_idx 3 v" if "walk m r v' j = Some t'" for t'
    using tree_slot_eq [OF tree u(2,1) _ _ that w] Suc.prems by auto
  then show ?case
    using Suc by (auto split: option.splits)
qed simp

lemma set_pte_tree:
  assumes tree: "pt_tree m r F" and u: "user_addr v" and w: "walk m r v 3 = Some t"
  shows "pt_tree (m(t + 8 * table_idx 3 v := e)) r F"
proof -
  let ?m = "m(t + 8 * table_idx 3 v := e)"
  have walks: "j \<le> 3 \<Longrightarrow> walk ?m r v' j = walk m r v' j" if "user_addr v'" for v' j
    by (rule walk_set_pte [OF tree u that w])
  have "?m (t' + 8 * table_idx j v') = m (t' + 8 * table_idx j v')"
    if "user_addr v'" "j \<le> 2" "walk m r v' j = Some t'" for v' j t'
    using tree_slot_eq [OF tree that(1) u _ _ that(3) w] that(2) by auto
  then show ?thesis
    using tree walks unfolding pt_tree_def by (simp del: fun_upd_apply)
qed

lemma set_pte_pte:
  assumes tree: "pt_tree m r F" and u: "user_addr v" "user_addr v'" and w: "walk m r v 3 = Some t"
  shows "pte_of (m(t + 8 * table_idx 3 v := e)) r v'
    = (if same_idx 4 v v' then if present e then Some e else None else pte_of m r v')"
proof (cases "walk m r v' 3")
  case None
  then have "\<not> same_idx 3 v v'"
    using w walk_same_idx [of 3 v v' m r] by auto
  then have "\<not> same_idx 4 v v'"
    using same_idx_mono [of 4 v v' 3] by auto
  then show ?thesis
    using None walk_set_pte [OF tree u w, of 3 e] by (simp add: pte_of_def)
next
  case (Some t')
  then show ?thesis
    using walk_set_pte [OF tree u w, of 3 e] tree_slot_eq [OF tree u _ _ w Some]
    by (auto simp: pte_of_def Let_def eval_nat_numeral)
qed

section \<open>The operations on the tree\<close>

abbreviation free_frames :: "pt_state \<Rightarrow> u64 set" where
  "free_frames s \<equiv> frames (all_regions (pt_phys s))"

definition pt_inv :: "pt_state \<Rightarrow> u64 \<Rightarrow> bool" where
  "pt_inv s r \<longleftrightarrow> allocator_ok (pt_phys s)
     \<and> (\<forall>a \<in> usable_pages (all_regions (pt_phys s)). unat a + 4096 \<le> 2 ^ 39)
     \<and> pt_tree (pt_mem s) r (free_frames s)"

text \<open>A step that may take frames for tables but changes no mapping.\<close>

definition pt_same :: "u64 \<Rightarrow> pt_state \<Rightarrow> pt_state \<Rightarrow> bool" where
  "pt_same r s s' \<longleftrightarrow> pt_inv s' r \<and> pt_handlers s' = pt_handlers s
     \<and> (\<forall>v. user_addr v \<longrightarrow> pte_of (pt_mem s') r v = pte_of (pt_mem s) r v)"

lemma pt_same_refl: "pt_inv s r \<Longrightarrow> pt_same r s s"
  by (simp add: pt_same_def)

lemma pt_same_trans: "pt_same r s s' \<Longrightarrow> pt_same r s' s'' \<Longrightarrow> pt_same r s s''"
  by (simp add: pt_same_def)

lemma aperture_table: "table_frame t \<Longrightarrow> aperture_ok t"
  by (auto simp: aperture_ok_def kPhysApertureSize_def table_frame_def word_less_nat_alt)

lemma readTable_slot:
  "table_frame t \<Longrightarrow> readTable t (table_idx k v) s = Inr (pt_mem s (t + 8 * table_idx k v))"
  using table_idx_le [of k v] by (simp add: readTable_def aperture_table require_def)

lemma writeTable_slot:
  "table_frame t \<Longrightarrow> writeTable t (table_idx k v) e s
     = Inr (s\<lparr>pt_mem := (pt_mem s)(t + 8 * table_idx k v := e)\<rparr>)"
  using table_idx_le [of k v] by (simp add: writeTable_def aperture_table require_def)

lemma zero_page_twice: "zero_page p (zero_page p m) = zero_page p m"
  by (auto simp: zero_page_def)

lemma pt_allocPage_spec:
  assumes ok: "allocator_ok (pt_phys s)" "\<forall>a \<in> usable_pages (all_regions (pt_phys s)). unat a + 4096 \<le> 2 ^ 39"
  shows "\<exists>page p m. pt_allocPage s = Inr (page, s\<lparr>pt_phys := p, pt_mem := m\<rparr>) \<and> allocator_ok p
    \<and> usable_pages (all_regions p) = usable_pages (all_regions (pt_phys s))
    \<and> (if free_frames s = {} then page = 0 \<and> frames (all_regions p) = {} \<and> m = pt_mem s
       else page \<noteq> 0 \<and> page \<in> free_frames s \<and> table_frame page \<and> frames (all_regions p) = free_frames s - {page}
          \<and> m = zero_page page (pt_mem s))"
proof -
  obtain page p m where a: "allocPage (pt_phys s) (pt_mem s) = Inr (page, p, m)" "allocator_ok p"
    "usable_pages (all_regions p) = usable_pages (all_regions (pt_phys s))"
    "if free_frames s = {} then page = 0 \<and> frames (all_regions p) = {} \<and> m = pt_mem s
     else page \<in> free_frames s \<and> frames (all_regions p) = free_frames s - {page}
        \<and> (m = pt_mem s \<or> m = zero_page page (pt_mem s))"
    using phys.alloc_law [OF ok(1), of "pt_mem s"] by (metis (no_types, lifting))
  show ?thesis
  proof (cases "free_frames s = {}")
    case True
    then show ?thesis
      using a by (intro exI [of _ 0] exI [of _ p] exI [of _ m]) (simp add: pt_allocPage_def)
  next
    case False
    then have u: "page \<in> usable_pages (all_regions (pt_phys s))"
      using a(4) phys.free_usable [OF ok(1)] by auto
    have f: "table_frame page" "page \<noteq> 0"
      using phys.usable_frame [OF ok(1) u] ok(2) u by (auto simp: table_frame_def)
    then show ?thesis
      using a False aperture_table [OF f(1)] zero_page_twice
      by (intro exI [of _ page] exI [of _ p] exI [of _ "zero_page page (pt_mem s)"])
        (auto simp: pt_allocPage_def Let_def)
  qed
qed

lemma alloc_table_spec:
  assumes inv: "pt_inv s r" and u: "user_addr v" and k: "k \<le> 2"
    and w: "walk (pt_mem s) r v k = Some t" "\<not> present (pt_mem s (t + 8 * table_idx k v))"
  shows "\<exists>e s'. alloc_table v t (table_idx k v) s = Inr (e, s') \<and> pt_same r s s'
    \<and> (case e of None \<Rightarrow> free_frames s' = {} | Some e' \<Rightarrow> walk (pt_mem s') r v (Suc k) = Some (entry_addr e'))"
proof -
  have ok: "allocator_ok (pt_phys s)" "\<forall>a \<in> usable_pages (all_regions (pt_phys s)). unat a + 4096 \<le> 2 ^ 39"
    and tree: "pt_tree (pt_mem s) r (free_frames s)"
    using inv by (simp_all add: pt_inv_def)
  have t: "table_frame t"
    using pt_treeD(1) [OF tree u _ w(1)] k by simp
  have low: "v < kKernelBoundary"
    using u unfolding user_addr_def kKernelBoundary_def by (rule le_less_trans) simp
  obtain page p m where a: "pt_allocPage s = Inr (page, s\<lparr>pt_phys := p, pt_mem := m\<rparr>)" "allocator_ok p"
    "usable_pages (all_regions p) = usable_pages (all_regions (pt_phys s))"
    "if free_frames s = {} then page = 0 \<and> frames (all_regions p) = {} \<and> m = pt_mem s
     else page \<noteq> 0 \<and> page \<in> free_frames s \<and> table_frame page \<and> frames (all_regions p) = free_frames s - {page}
          \<and> m = zero_page page (pt_mem s)"
    using pt_allocPage_spec [OF ok] by blast
  show ?thesis
  proof (cases "free_frames s = {}")
    case True
    then have "pt_same r s (s\<lparr>pt_phys := p, pt_mem := m\<rparr>)"
      using a ok(2) tree by (simp add: pt_same_def pt_inv_def)
    then show ?thesis
      using True a by (intro exI [of _ None] exI [of _ "s\<lparr>pt_phys := p, pt_mem := m\<rparr>"]) (simp add: alloc_table_def)
  next
    case False
    then have p: "page \<noteq> 0" "page \<in> free_frames s" "table_frame page" "frames (all_regions p) = free_frames s - {page}"
      "m = zero_page page (pt_mem s)"
      using a(4) by simp_all
    let ?s = "s\<lparr>pt_phys := p, pt_mem := add_table page t k v (pt_mem s)\<rparr>"
    have "pt_same r s ?s"
      using add_table_tree [OF tree u k w p(2,3)] add_table_pte [OF tree u _ k w p(2,3)] a(2,3) ok(2) p(4)
      by (simp add: pt_same_def pt_inv_def)
    moreover have "walk (pt_mem ?s) r v (Suc k) = Some (entry_addr (page OR 7))"
      using walk_add_table [OF tree u u k w p(2,3), of "Suc k"] k new_table_entry(1) [OF p(3)]
      by (simp del: walk.simps)
    moreover have "(page OR 3) OR 4 = page OR 7"
      by (simp add: or.assoc)
    ultimately show ?thesis
      using a(1) p(1,5) low writeTable_slot [OF t, of k v]
      by (intro exI [of _ "Some (page OR 7)"] exI [of _ ?s])
        (simp add: alloc_table_def add_table_def Let_def del: walk.simps)
  qed
qed

text \<open>One level of \<^verbatim>\<open>mapPage\<close>: read the entry and allocate the next table when it is missing.\<close>

lemma map_level:
  assumes inv: "pt_inv s r" and u: "user_addr v" and k: "k \<le> 2" and w: "walk (pt_mem s) r v k = Some t"
  shows "\<exists>e o' s'. readTable t (table_idx k v) s = Inr e
    \<and> (if \<not> present e then alloc_table v t (table_idx k v) s else Inr (Some e, s)) = Inr (o', s')
    \<and> pt_same r s s' \<and> \<not> (present e \<and> large e)
    \<and> (case o' of None \<Rightarrow> free_frames s' = {} | Some e' \<Rightarrow> walk (pt_mem s') r v (Suc k) = Some (entry_addr e'))"
proof -
  have tree: "pt_tree (pt_mem s) r (free_frames s)"
    using inv by (simp add: pt_inv_def)
  let ?e = "pt_mem s (t + 8 * table_idx k v)"
  have read: "readTable t (table_idx k v) s = Inr ?e"
    using readTable_slot [OF pt_treeD(1) [OF tree u _ w]] k by simp
  show ?thesis
  proof (cases "present ?e")
    case True
    then have "\<not> large ?e"
      using pt_treeD(5) [OF tree u k w] by (simp add: table_entry_def)
    then show ?thesis
      using read True w pt_same_refl [OF inv]
      by (intro exI [of _ ?e] exI [of _ "Some ?e"] exI [of _ s]) simp
  next
    case False
    then show ?thesis
      using read alloc_table_spec [OF inv u k w False] by (intro exI [of _ ?e]) simp
  qed
qed

text \<open>What mapping does: either the page is mapped, or memory ran out and no mapping changed.\<close>

definition map_result :: "u64 \<Rightarrow> u64 \<Rightarrow> u64 \<Rightarrow> pt_state \<Rightarrow> (int \<times> pt_state) outcome \<Rightarrow> bool" where
  "map_result r v pte s res \<longleftrightarrow> (\<exists>st s'. res = Inr (st, s') \<and> pt_inv s' r \<and> pt_handlers s' = pt_handlers s \<and>
     (st = pt_Success \<and> (\<forall>v'. user_addr v' \<longrightarrow>
          pte_of (pt_mem s') r v' = (if same_idx 4 v v' then Some pte else pte_of (pt_mem s) r v'))
      \<or> st = pt_NoMemory \<and> free_frames s' = {} \<and>
          (\<forall>v'. user_addr v' \<longrightarrow> pte_of (pt_mem s') r v' = pte_of (pt_mem s) r v')))"

lemma map_result_same: "pt_same r s s' \<Longrightarrow> map_result r v pte s' res \<Longrightarrow> map_result r v pte s res"
  unfolding map_result_def pt_same_def by auto

lemma map_result_NoMemory: "pt_same r s s' \<Longrightarrow> free_frames s' = {} \<Longrightarrow> map_result r v pte s (Inr (pt_NoMemory, s'))"
  by (simp add: map_result_def pt_same_def)

lemma map_pte_result:
  assumes inv: "pt_inv s r" and u: "user_addr v" and w: "walk (pt_mem s) r v 3 = Some t" and pte: "present pte"
  shows "map_result r v pte s (obind (writeTable t (table_idx 3 v) pte s) (\<lambda>s. Inr (pt_Success, s)))"
proof -
  have tree: "pt_tree (pt_mem s) r (free_frames s)"
    using inv by (simp add: pt_inv_def)
  show ?thesis
    using writeTable_slot [OF pt_treeD(1) [OF tree u _ w]] set_pte_tree [OF tree u w] set_pte_pte [OF tree u _ w] inv pte
    by (simp add: map_result_def pt_inv_def del: fun_upd_apply)
qed

lemma map_pdt_result:
  assumes inv: "pt_inv s r" and u: "user_addr v" and w: "walk (pt_mem s) r v 2 = Some t" and pte: "present pte"
  shows "map_result r v pte s (map_pdt v pte t s)"
proof -
  obtain e o' s' where l: "readTable t (table_idx 2 v) s = Inr e"
    "(if \<not> present e then alloc_table v t (table_idx 2 v) s else Inr (Some e, s)) = Inr (o', s')"
    "pt_same r s s'" "\<not> (present e \<and> large e)"
    "case o' of None \<Rightarrow> free_frames s' = {} | Some e' \<Rightarrow> walk (pt_mem s') r v (Suc 2) = Some (entry_addr e')"
    using map_level [OF inv u _ w] by auto
  have eq: "map_pdt v pte t s = (case o' of None \<Rightarrow> Inr (pt_NoMemory, s')
      | Some pdte' \<Rightarrow> obind (writeTable (entry_addr pdte') (table_idx 3 v) pte s') (\<lambda>s. Inr (pt_Success, s)))"
    unfolding map_pdt_def using l(1,2,4) by (auto split: option.splits)
  show ?thesis
  proof (cases o')
    case None
    then show ?thesis
      using eq l(3,5) map_result_NoMemory by simp
  next
    case (Some e')
    have "pt_inv s' r" "walk (pt_mem s') r v 3 = Some (entry_addr e')"
      using l(3,5) Some by (simp_all add: pt_same_def eval_nat_numeral)
    from map_result_same [OF l(3) map_pte_result [OF this(1) u this(2) pte]]
    show ?thesis
      using eq Some by simp
  qed
qed

lemma map_pdpt_result:
  assumes inv: "pt_inv s r" and u: "user_addr v" and w: "walk (pt_mem s) r v 1 = Some t" and pte: "present pte"
  shows "map_result r v pte s (map_pdpt v pte t s)"
proof -
  obtain e o' s' where l: "readTable t (table_idx 1 v) s = Inr e"
    "(if \<not> present e then alloc_table v t (table_idx 1 v) s else Inr (Some e, s)) = Inr (o', s')"
    "pt_same r s s'" "\<not> (present e \<and> large e)"
    "case o' of None \<Rightarrow> free_frames s' = {} | Some e' \<Rightarrow> walk (pt_mem s') r v (Suc 1) = Some (entry_addr e')"
    using map_level [OF inv u _ w] by auto
  have eq: "map_pdpt v pte t s = (case o' of None \<Rightarrow> Inr (pt_NoMemory, s')
      | Some pdpte' \<Rightarrow> map_pdt v pte (entry_addr pdpte') s')"
    unfolding map_pdpt_def using l(1,2,4) by (auto split: option.splits)
  show ?thesis
  proof (cases o')
    case None
    then show ?thesis
      using eq l(3,5) map_result_NoMemory by simp
  next
    case (Some e')
    have "pt_inv s' r" "walk (pt_mem s') r v 2 = Some (entry_addr e')"
      using l(3,5) Some by (simp_all add: pt_same_def eval_nat_numeral)
    from map_result_same [OF l(3) map_pdt_result [OF this(1) u this(2) pte]]
    show ?thesis
      using eq Some by simp
  qed
qed

lemma user_mask: "user_addr v \<Longrightarrow> v AND 0xFFFFFFFFFFFF = v"
proof -
  assume "user_addr v"
  then have "unat v < 2 ^ 48"
    by (simp add: user_addr_def word_le_nat_alt)
  then have "unat (take_bit 48 v) = unat v"
    unfolding unsigned_take_bit_eq by (rule take_bit_nat_eq_self)
  then show ?thesis
    by (simp add: take_bit_eq_mask mask_numeral word_unat_eq_iff)
qed

lemma user_canonical: "user_addr v \<Longrightarrow> \<not> noncanonical v"
  by (auto simp: user_addr_def noncanonical_def)

lemma user_low: "user_addr v \<Longrightarrow> \<not> v \<ge> kKernelBoundary"
  unfolding user_addr_def kKernelBoundary_def not_le by (erule le_less_trans) simp

lemma map_pml4_result:
  assumes inv: "pt_inv s (pml4Phys hn)" and u: "user_addr v" and pte: "present pte"
  shows "map_result (pml4Phys hn) v pte s (map_pml4 h hn v pte s)"
proof -
  obtain e o' s' where l: "readTable (pml4Phys hn) (table_idx 0 v) s = Inr e"
    "(if \<not> present e then alloc_table v (pml4Phys hn) (table_idx 0 v) s else Inr (Some e, s)) = Inr (o', s')"
    "pt_same (pml4Phys hn) s s'" "\<not> (present e \<and> large e)"
    "case o' of None \<Rightarrow> free_frames s' = {}
       | Some e' \<Rightarrow> walk (pt_mem s') (pml4Phys hn) v (Suc 0) = Some (entry_addr e')"
    using map_level [OF inv u, of 0 "pml4Phys hn"] by auto
  have eq: "map_pml4 h hn v pte s = (case o' of None \<Rightarrow> Inr (pt_NoMemory, s')
      | Some pml4e' \<Rightarrow> map_pdpt v pte (entry_addr pml4e') s')"
    unfolding map_pml4_def Let_def user_mask [OF u] using l(1,2) user_low [OF u] by (simp split: option.splits)
  show ?thesis
  proof (cases o')
    case None
    then show ?thesis
      using eq l(3,5) map_result_NoMemory by simp
  next
    case (Some e')
    have "pt_inv s' (pml4Phys hn)" "walk (pt_mem s') (pml4Phys hn) v 1 = Some (entry_addr e')"
      using l(3,5) Some by (simp_all add: pt_same_def)
    from map_result_same [OF l(3) map_pdpt_result [OF this(1) u this(2) pte]]
    show ?thesis
      using eq Some by simp
  qed
qed

section \<open>Resolving and unmapping\<close>

lemma walk_step:
  "walk m r v k = Some t \<Longrightarrow>
   walk m r v (Suc k) = (if present (m (t + 8 * table_idx k v)) then Some (entry_addr (m (t + 8 * table_idx k v))) else None)"
  by (simp add: Let_def)

text \<open>The flags of a walk through table entries are those of the last entry.\<close>

lemma and_flag_disj:
  "table_entry e \<Longrightarrow> TestFlags (e AND pf_Writable)" "table_entry e \<Longrightarrow> TestFlags (e AND pf_UserAccess)"
  "table_entry e \<Longrightarrow> \<not> TestFlags (e AND pf_NoExecute)"
  by (simp_all add: table_entry_def TestFlags_def)

lemma pml4_flags_table: "table_entry e \<Longrightarrow> pml4_flags e = pf_Writable OR pf_UserAccess"
  by (simp add: pml4_flags_def Let_def and_flag_disj)

lemma gater_table: "table_entry e \<Longrightarrow> gater f e False = f"
  by (simp add: gater_def Let_def and_flag_disj)

definition leaf_flags :: "u64 \<Rightarrow> u64" where
  "leaf_flags pte = gater (pf_Writable OR pf_UserAccess) pte True"

lemma Resolve_user:
  assumes inv: "pt_inv s r" and u: "user_addr v"
  shows "Resolve r v s = Inr (case pte_of (pt_mem s) r v of None \<Rightarrow> (pt_NoMapping, None)
    | Some pte \<Rightarrow> (pt_Success, Some (entry_addr pte + (v AND 0xFFF), leaf_flags pte)))"
proof -
  let ?m = "pt_mem s"
  have tree: "pt_tree ?m r (free_frames s)"
    using inv by (simp add: pt_inv_def)
  have rd: "readTable t (table_idx k v) s = Inr (?m (t + 8 * table_idx k v))" if "k \<le> 3" "walk ?m r v k = Some t" for k t
    by (rule readTable_slot [OF pt_treeD(1) [OF tree u that]])
  have te: "table_entry (?m (t + 8 * table_idx k v))" "\<not> large (?m (t + 8 * table_idx k v))"
    if "k \<le> 2" "walk ?m r v k = Some t" "present (?m (t + 8 * table_idx k v))" for k t
    using pt_treeD(5) [OF tree u that] by (simp_all add: table_entry_def)
  have none: "pte_of ?m r v = None" if "walk ?m r v k = None" "k \<le> 3" for k
    using that walk_Some_le [of ?m r v 3 k] by (cases "walk ?m r v 3") (auto simp: pte_of_def)
  let ?e0 = "?m (r + 8 * table_idx 0 v)"
  show ?thesis
  proof (cases "present ?e0")
    case False
    then show ?thesis
      using none [of 1] rd [of 0 r] user_canonical [OF u]
      by (simp add: Resolve_def user_mask [OF u] Let_def)
  next
    case p0: True
    define t1 where "t1 = entry_addr ?e0"
    have w1: "walk ?m r v 1 = Some t1"
      using p0 by (simp add: t1_def)
    let ?e1 = "?m (t1 + 8 * table_idx 1 v)"
    show ?thesis
    proof (cases "present ?e1")
      case False
      then show ?thesis
        using none [of 2] rd [of 0 r] rd [OF _ w1] walk_step [OF w1] p0 user_canonical [OF u] t1_def
        by (simp add: Resolve_def user_mask [OF u] Let_def eval_nat_numeral)
    next
      case p1: True
      define t2 where "t2 = entry_addr ?e1"
      have w2: "walk ?m r v 2 = Some t2"
        using walk_step [OF w1] p1 by (simp add: t2_def eval_nat_numeral)
      let ?e2 = "?m (t2 + 8 * table_idx 2 v)"
      have start: "Resolve r v s = (if \<not> present ?e2 then Inr (pt_NoMapping, None)
          else obind (readTable (entry_addr ?e2) (table_idx 3 v) s) (\<lambda>pte.
            if \<not> present pte then Inr (pt_NoMapping, None)
            else Inr (pt_Success, Some (entry_addr pte + (v AND 0xFFF), leaf_flags pte))))"
        using rd [of 0 r] rd [OF _ w1] rd [OF _ w2] te [of 0 r] te [OF _ w1] te [OF _ w2] p0 p1 user_canonical [OF u]
          t1_def t2_def unfolding leaf_flags_def
        by (cases "present ?e2") (simp_all add: Resolve_def user_mask [OF u] Let_def gater_table pml4_flags_table)
      show ?thesis
      proof (cases "present ?e2")
        case False
        then show ?thesis
          using none [of 3] walk_step [OF w2] start by (simp add: eval_nat_numeral)
      next
        case True
        then have "walk ?m r v 3 = Some (entry_addr ?e2)"
          using walk_step [OF w2] by (simp add: eval_nat_numeral)
        then show ?thesis
          using True start rd [of 3] by (simp add: pte_of_def Let_def)
      qed
    qed
  qed
qed

lemma unmapPage_user:
  assumes inv: "pt_inv s (pml4Phys hn)" and h: "pt_handlers s h = Some hn" and u: "user_addr v"
  shows "\<exists>st s'. unmapPage h v s = Inr (st, s') \<and> pt_inv s' (pml4Phys hn) \<and> pt_handlers s' = pt_handlers s
    \<and> (st = pt_Success \<or> st = pt_NoPageToUnmap \<and> pte_of (pt_mem s) (pml4Phys hn) v = None)
    \<and> (\<forall>v'. user_addr v' \<longrightarrow> pte_of (pt_mem s') (pml4Phys hn) v'
          = (if same_idx 4 v v' then None else pte_of (pt_mem s) (pml4Phys hn) v'))"
proof -
  let ?m = "pt_mem s" and ?r = "pml4Phys hn"
  have tree: "pt_tree ?m ?r (free_frames s)"
    using inv by (simp add: pt_inv_def)
  have rd: "readTable t (table_idx k v) s = Inr (?m (t + 8 * table_idx k v))" if "k \<le> 3" "walk ?m ?r v k = Some t" for k t
    by (rule readTable_slot [OF pt_treeD(1) [OF tree u that]])
  have te: "\<not> large (?m (t + 8 * table_idx k v))"
    if "k \<le> 2" "walk ?m ?r v k = Some t" "present (?m (t + 8 * table_idx k v))" for k t
    using pt_treeD(5) [OF tree u that] by (simp add: table_entry_def)
  have code: "unmapPage h v s = (case walk ?m ?r v 3 of None \<Rightarrow> Inr (pt_NoPageToUnmap, s)
      | Some t \<Rightarrow> obind (writeTable t (table_idx 3 v) 0 s) (\<lambda>s. Inr (pt_Success, s)))"
    using rd [of 0] rd [of 1] rd [of 2] te [of 1] te [of 2] h
    by (auto simp: unmapPage_def user_mask [OF u] with_handler_def Let_def eval_nat_numeral)
  show ?thesis
  proof (cases "walk ?m ?r v 3")
    case None
    have "pte_of ?m ?r v' = None" if "same_idx 4 v v'" for v'
      using None walk_same_idx [of 3 v v' ?m ?r] same_idx_mono [OF that, of 3] by (simp add: pte_of_def)
    then show ?thesis
      using None code inv by (auto simp: pte_of_def)
  next
    case (Some t)
    then show ?thesis
      using code writeTable_slot [OF pt_treeD(1) [OF tree u _ Some]] set_pte_tree [OF tree u Some]
        set_pte_pte [OF tree u _ Some] inv
      by (simp add: pt_inv_def del: fun_upd_apply)
  qed
qed

section \<open>Pages and rights\<close>

text \<open>Two user addresses have the same indices when they are in the same page.\<close>

lemma bit_table_idx: "bit (table_idx k v) j \<longleftrightarrow> j < 9 \<and> bit v (39 - 9 * k + j)"
proof -
  have "table_idx k v = take_bit 9 (drop_bit (39 - 9 * k) v)"
    by (simp add: table_idx_def take_bit_eq_mask mask_numeral)
  then show ?thesis
    by (auto simp: bit_take_bit_iff bit_drop_bit_eq add.commute)
qed

lemma user_bits: "user_addr v \<Longrightarrow> bit v n \<Longrightarrow> n < 47"
proof -
  assume v: "user_addr v" "bit v n"
  then have "unat v < 2 ^ 47"
    by (simp add: user_addr_def word_le_nat_alt)
  then have "unat (take_bit 47 v) = unat v"
    unfolding unsigned_take_bit_eq by (rule take_bit_nat_eq_self)
  then have "take_bit 47 v = v"
    by (simp add: word_unat_eq_iff)
  then show "n < 47"
    using v(2) by (metis bit_take_bit_iff)
qed

lemma same_page:
  assumes "user_addr v" "user_addr v'"
  shows "same_idx 4 v v' \<longleftrightarrow> drop_bit 12 v = drop_bit 12 v'"
proof
  assume same: "same_idx 4 v v'"
  have "bit v (12 + i) = bit v' (12 + i)" for i
  proof (cases "i < 36")
    case True
    let ?k = "3 - i div 9" and ?j = "i mod 9"
    have "i div 9 \<le> 3" "9 * (i div 9) + ?j = i"
      using True by auto
    then have "39 - 9 * ?k + ?j = 12 + i" "?k < 4" "?j < 9"
      by arith+
    then show ?thesis
      using same bit_table_idx [of ?k v ?j] bit_table_idx [of ?k v' ?j] by (simp add: same_idx_def)
  next
    case False
    then show ?thesis
      using user_bits [OF assms(1), of "12 + i"] user_bits [OF assms(2), of "12 + i"] by auto
  qed
  then show "drop_bit 12 v = drop_bit 12 v'"
    by (simp add: bit_eq_iff bit_drop_bit_eq)
next
  assume eq: "drop_bit 12 v = drop_bit 12 v'"
  have bits: "bit v n = bit v' n" if "12 \<le> n" for n
    using that eq bit_drop_bit_eq [of 12 v] bit_drop_bit_eq [of 12 v'] by (metis comp_apply le_add_diff_inverse)
  show "same_idx 4 v v'"
    unfolding same_idx_def using bits by (auto simp: bit_eq_iff bit_table_idx)
qed

lemma make_pte_present: "present (make_pte nx phys w x g u)"
  by (simp add: make_pte_def present_def Let_def pf_Present_def pf_Writable_def pf_Global_def pf_UserAccess_def
        pf_NoExecute_def bit.conj_disj_distrib2 and.assoc)

lemma make_pte_addr: "entry_addr (make_pte nx phys w x g u) = entry_addr phys"
  by (simp add: make_pte_def Let_def entry_addr_def pf_FlagsMask_eq pf_Present_def pf_Writable_def pf_Global_def
        pf_UserAccess_def pf_NoExecute_def bit.conj_disj_distrib2 and.assoc)

lemma leaf_flags_make_pte:
  fixes phys w x g u nx
  defines "f \<equiv> leaf_flags (make_pte nx phys w x g u)"
  shows "TestFlags (f AND pf_Writable) = w" "TestFlags (f AND pf_UserAccess) = u"
    "TestFlags (f AND pf_NoExecute) = (\<not> x \<and> nx)" "\<not> TestFlags (f AND pf_Global)"
proof -
  let ?e = "make_pte nx phys w x g u"
  note defs = pf_FlagsMask_eq pf_Present_def pf_Writable_def pf_Global_def pf_UserAccess_def pf_NoExecute_def
    pf_Accessed_def pf_Dirty_def
  have e: "TestFlags (?e AND pf_Writable) = w" "TestFlags (?e AND pf_UserAccess) = u"
    "TestFlags (?e AND pf_NoExecute) = (\<not> x \<and> nx)" "\<not> TestFlags (?e AND pf_Accessed)" "\<not> TestFlags (?e AND pf_Dirty)"
    by (simp_all add: make_pte_def Let_def entry_addr_def TestFlags_def defs bit.conj_disj_distrib2 and.assoc)
  have "f = (if \<not> x \<and> nx then pf_NoExecute else 0) OR (if w then pf_Writable else 0) OR (if u then pf_UserAccess else 0)"
    unfolding f_def leaf_flags_def gater_def Let_def e
    using e(4,5) by (simp add: defs)
  then show "TestFlags (f AND pf_Writable) = w" "TestFlags (f AND pf_UserAccess) = u"
    "TestFlags (f AND pf_NoExecute) = (\<not> x \<and> nx)" "\<not> TestFlags (f AND pf_Global)"
    by (simp_all add: TestFlags_def defs)
qed

text \<open>What \<^verbatim>\<open>getMapping\<close> reports for an entry.\<close>

definition mapping_of :: "bool \<Rightarrow> u64 \<Rightarrow> u64 option \<Rightarrow> int \<times> page_mapping" where
  "mapping_of nx v pte =
     (let flags = (case pte of None \<Rightarrow> 0 | Some e \<Rightarrow> leaf_flags e) in
      (if pte = None then 1 else 0,
       \<lparr>pm_phys = map_option (\<lambda>e. entry_addr e + (v AND 0xFFF)) pte, pm_write = TestFlags (flags AND pf_Writable),
        pm_execute = (if nx then \<not> TestFlags (flags AND pf_NoExecute) else True),
        pm_global = TestFlags (flags AND pf_Global), pm_user = TestFlags (flags AND pf_UserAccess)\<rparr>))"

lemma getMapping_user:
  assumes "pt_inv s (pml4Phys hn)" "pt_handlers s h = Some hn" "user_addr v"
  shows "getMapping nx h v s = Inr (mapping_of nx v (pte_of (pt_mem s) (pml4Phys hn) v))"
  using assms(2) Resolve_user [OF assms(1,3)]
  by (simp add: getMapping_def with_handler_def mapping_of_def pt_Success_def pt_NoMapping_def Let_def
        split: option.splits)

lemma mapping_of_make_pte:
  "mapping_of nx v (Some (make_pte nx phys w x g u)) =
     (0, \<lparr>pm_phys = Some (entry_addr phys + (v AND 0xFFF)), pm_write = w, pm_execute = (x \<or> \<not> nx),
          pm_global = False, pm_user = u\<rparr>)"
  using leaf_flags_make_pte [of nx phys w x g u]
  by (cases nx) (simp_all add: mapping_of_def make_pte_addr)

section \<open>A new handler\<close>

lemma fill_pdpt_spec:
  assumes t: "table_frame pdpt"
  shows "set js \<subseteq> {..<512} \<Longrightarrow> \<exists>m'. fill_pdpt nx pdpt pb js s = Inr (s\<lparr>pt_mem := m'\<rparr>)
    \<and> (\<forall>a. \<not> a - pdpt < arch_page_size \<longrightarrow> m' a = pt_mem s a)"
proof (induction js arbitrary: s)
  case Nil
  show ?case
    by (intro exI [of _ "pt_mem s"]) simp
next
  case (Cons j js)
  let ?m = "(pt_mem s)(pdpt + 8 * of_nat j := aperture_entry nx (gPhysApertureGlobal s) pb j)"
  have j: "j < 512"
    using Cons.prems by simp
  have "(of_nat j :: u64) \<le> 511"
    using j by (simp add: word_le_nat_alt unat_of_nat_u64)
  then have w: "writeTable pdpt (of_nat j) (aperture_entry nx (gPhysApertureGlobal s) pb j) s = Inr (s\<lparr>pt_mem := ?m\<rparr>)"
    using aperture_table [OF t] by (simp add: writeTable_def require_def)
  obtain m' where m': "fill_pdpt nx pdpt pb js (s\<lparr>pt_mem := ?m\<rparr>) = Inr (s\<lparr>pt_mem := m'\<rparr>)"
    "\<forall>a. \<not> a - pdpt < arch_page_size \<longrightarrow> m' a = ?m a"
    using Cons.IH [of "s\<lparr>pt_mem := ?m\<rparr>"] Cons.prems by auto
  have "8 * of_nat j < arch_page_size"
    using j by (simp add: arch_page_size_def word_less_nat_alt unat_word_ariths(2) unat_of_nat_u64)
  then show ?case
    using w m' by (intro exI [of _ m']) auto
qed

text \<open>The user half of a root table is empty.\<close>

definition user_empty :: "phys_mem \<Rightarrow> u64 \<Rightarrow> bool" where
  "user_empty m r \<longleftrightarrow> (\<forall>i < 256. \<not> present (m (r + 8 * of_nat i)))"

lemma nat_slot_eq:
  assumes "table_frame t" "table_frame t'" "i < 512" "j < 512"
  shows "t + 8 * of_nat i = t' + 8 * of_nat j \<longleftrightarrow> t = t' \<and> i = j"
proof -
  have u: "unat (of_nat i :: u64) = i" "unat (of_nat j :: u64) = j"
    using assms(3,4) by (simp_all add: unat_of_nat_u64)
  show ?thesis
    using slot_word_inj [OF assms(1,2), of "of_nat i" "of_nat j"] assms(3,4) u by (metis (no_types))
qed

lemma copy_entries_spec:
  assumes t: "table_frame from" "table_frame to" "from \<noteq> to"
  shows "set is \<subseteq> {255..<512} \<Longrightarrow> user_empty (pt_mem s) to \<Longrightarrow> \<not> present (pt_mem s (from + 8 * of_nat 255)) \<Longrightarrow>
    \<exists>m'. copy_entries from to is s = Inr (s\<lparr>pt_mem := m'\<rparr>) \<and> user_empty m' to"
proof (induction "is" arbitrary: s)
  case Nil
  then show ?case
    by (intro exI [of _ "pt_mem s"]) simp
next
  case (Cons i "is")
  have i: "255 \<le> i" "i < 512"
    using Cons.prems(1) by simp_all
  let ?m = "(pt_mem s)(to + 8 * of_nat i := pt_mem s (from + 8 * of_nat i))"
  have "(of_nat i :: u64) \<le> 511"
    using i by (simp add: word_le_nat_alt unat_of_nat_u64)
  then have step: "copy_entries from to (i # is) s = copy_entries from to is (s\<lparr>pt_mem := ?m\<rparr>)"
    using aperture_table [OF t(1)] aperture_table [OF t(2)] by (simp add: readTable_def writeTable_def require_def)
  have "user_empty ?m to"
    unfolding user_empty_def
  proof (intro allI impI)
    fix j :: nat
    assume j: "j < 256"
    show "\<not> present (?m (to + 8 * of_nat j))"
    proof (cases "j = i")
      case True
      then have "i = 255"
        using i j by simp
      then show ?thesis
        using Cons.prems(3) True by simp
    next
      case False
      then show ?thesis
        using Cons.prems(2) j i nat_slot_eq [OF t(2,2), of j i] by (simp add: user_empty_def)
    qed
  qed
  moreover have "\<not> present (?m (from + 8 * of_nat 255))"
    using Cons.prems(3) t nat_slot_eq [OF t(1,2), of 255 i] i by simp
  ultimately have "\<exists>m'. copy_entries from to is (s\<lparr>pt_mem := ?m\<rparr>) = Inr (s\<lparr>pt_mem := m'\<rparr>) \<and> user_empty m' to"
    using Cons.IH [of "s\<lparr>pt_mem := ?m\<rparr>"] Cons.prems(1) by (simp del: fun_upd_apply)
  then show ?case
    unfolding step .
qed

lemma user_idx0: "user_addr v \<Longrightarrow> \<exists>i < 256. table_idx 0 v = of_nat i"
proof -
  assume v: "user_addr v"
  have "bit (table_idx 0 v) n \<Longrightarrow> n < 8" for n
    using user_bits [OF v, of "39 + n"] by (simp add: bit_table_idx)
  then have "take_bit 8 (table_idx 0 v) = table_idx 0 v"
    by (auto simp: bit_eq_iff bit_take_bit_iff)
  then have "unat (table_idx 0 v) = take_bit 8 (unat (table_idx 0 v))"
    by (metis unsigned_take_bit_eq)
  then have "unat (table_idx 0 v) < 256"
    using take_bit_nat_less_exp [of 8 "unat (table_idx 0 v)"] by simp
  then show ?thesis
    by (intro exI [of _ "unat (table_idx 0 v)"]) simp
qed

lemma empty_tree:
  assumes e: "user_empty m r" and r: "table_frame r" "r \<notin> F"
  shows "pt_tree m r F" "user_addr v \<Longrightarrow> pte_of m r v = None"
proof -
  have none: "\<not> present (m (r + 8 * table_idx 0 v))" if "user_addr v" for v
    using user_idx0 [OF that] e by (auto simp: user_empty_def)
  have walks: "walk m r v k = (if k = 0 then Some r else None)" if "user_addr v" for v k
    using none [OF that] by (induction k) (auto split: if_splits)
  show "pt_tree m r F"
    unfolding pt_tree_def using none r by (auto simp: walks same_idx_def split: if_splits)
  show "user_addr v \<Longrightarrow> pte_of m r v = None"
    by (simp add: pte_of_def walks)
qed

lemma user_empty_zero_page:
  assumes "table_frame r"
  shows "user_empty (zero_page r m) r"
proof -
  have "r + 8 * of_nat i - r < arch_page_size" if "i < 256" for i
    using that by (simp add: arch_page_size_def word_less_nat_alt unat_word_ariths(2) unat_of_nat_u64)
  then show ?thesis
    by (simp add: user_empty_def zero_page_def)
qed

lemma nat_slot_in_page:
  assumes "table_frame r" "table_frame p" "r \<noteq> p" "i < 512"
  shows "\<not> r + 8 * of_nat i - p < arch_page_size"
proof -
  obtain a b where ab: "unat r = 4096 * a" "unat p = 4096 * b"
    using assms(1,2) unfolding table_frame_def by (metis mod_0_imp_dvd dvd_def)
  have "a \<noteq> b"
    using assms(3) ab by (auto simp: word_unat_eq_iff)
  moreover have "unat (r + 8 * of_nat i) = 4096 * a + 8 * i"
    using unat_slot [OF assms(1), of "of_nat i"] assms(4) ab by (simp add: unat_of_nat_u64)
  ultimately show ?thesis
    using assms(4) by (simp add: in_page_iff [OF assms(2)] ab)
qed

lemma user_empty_other_page:
  assumes "table_frame r" "table_frame p" "r \<noteq> p" "user_empty m r" "\<And>a. \<not> a - p < arch_page_size \<Longrightarrow> m' a = m a"
  shows "user_empty m' r"
  using assms(4) assms(5) [OF nat_slot_in_page [OF assms(1-3)]] by (simp add: user_empty_def)

lemma initKernel_ok:
  assumes ok: "allocator_ok (pt_phys s)" "\<forall>a \<in> usable_pages (all_regions (pt_phys s)). unat a + 4096 \<le> 2 ^ 39"
    and r: "table_frame r" "r \<notin> free_frames s" "user_empty (pt_mem s) r" and f: "free_frames s \<noteq> {}"
  shows "\<exists>s'. initKernel nx r s = Inr s' \<and> pt_inv s' r \<and> user_empty (pt_mem s') r \<and> pt_handlers s' = pt_handlers s"
proof -
  obtain page p m where a: "pt_allocPage s = Inr (page, s\<lparr>pt_phys := p, pt_mem := m\<rparr>)" "allocator_ok p"
    "usable_pages (all_regions p) = usable_pages (all_regions (pt_phys s))"
    "page \<noteq> 0" "page \<in> free_frames s" "table_frame page" "frames (all_regions p) = free_frames s - {page}"
    "m = zero_page page (pt_mem s)"
    using pt_allocPage_spec [OF ok] f by auto
  have ne: "r \<noteq> page"
    using r(2) a(5) by auto
  have "set [0..<512] \<subseteq> {..<512 :: nat}"
    by (auto simp del: upt_rec_numeral)
  from fill_pdpt_spec [OF a(6) this, of nx 0 "s\<lparr>pt_phys := p, pt_mem := m\<rparr>"]
  obtain m1 where m1: "fill_pdpt nx page 0 [0..<512] (s\<lparr>pt_phys := p, pt_mem := m\<rparr>) = Inr (s\<lparr>pt_phys := p, pt_mem := m1\<rparr>)"
    "\<forall>a. \<not> a - page < arch_page_size \<longrightarrow> m1 a = m a"
    by (auto simp del: upt_rec_numeral)
  have "user_empty m r"
    using user_empty_other_page [OF r(1) a(6) ne r(3), of m] a(8) by (simp add: zero_page_def)
  then have e1: "user_empty m1 r"
    using user_empty_other_page [OF r(1) a(6) ne, of m m1] m1(2) by blast
  define e where "e = (if nx then ((page AND NOT 0xFFF) OR 3) OR pf_NoExecute else (page AND NOT 0xFFF) OR 3)"
  let ?s = "s\<lparr>pt_phys := p, pt_mem := m1(r + 8 * of_nat 256 := e)\<rparr>"
  have e2: "user_empty (pt_mem ?s) r"
    using e1 nat_slot_eq [OF r(1) r(1), of _ 256] by (auto simp: user_empty_def)
  have "pt_inv ?s r"
    using a(2,3,7) ok(2) empty_tree(1) [OF e2 r(1), of "free_frames s - {page}"] r(2) by (simp add: pt_inv_def)
  moreover have "initKernel nx r s = Inr ?s"
    using a(1,4) m1(1) aperture_table [OF r(1)]
    by (simp add: initKernel_def kPhysApertureSize_def writeTable_def require_def e_def Let_def
          upt_rec [of 0 "Suc 0"] del: upt_rec_numeral)
  ultimately show ?thesis
    using e2 by auto
qed

text \<open>What the constructor needs of the parent: a root table whose entry 255 is unused.\<close>

definition parent_ok :: "nat option \<Rightarrow> pt_state \<Rightarrow> bool" where
  "parent_ok parent s \<longleftrightarrow> (case parent of None \<Rightarrow> True | Some q \<Rightarrow>
     \<exists>ph. pt_handlers s q = Some ph \<and> table_frame (pml4Phys ph) \<and> pml4Phys ph \<notin> free_frames s
       \<and> \<not> present (pt_mem s (pml4Phys ph + 8 * of_nat 255)))"

lemma pte_create_ok:
  assumes ok: "allocator_ok (pt_phys s)" "\<forall>a \<in> usable_pages (all_regions (pt_phys s)). unat a + 4096 \<le> 2 ^ 39"
    and f: "2 \<le> card (free_frames s)" and h: "pt_handlers s h = None" and par: "parent_ok parent s"
  shows "\<exists>s' hn. pte_create nx h parent s = Inr s' \<and> pt_handlers s' h = Some hn \<and> pt_inv s' (pml4Phys hn)
    \<and> user_empty (pt_mem s') (pml4Phys hn)"
proof -
  have "free_frames s \<noteq> {}"
    using f by auto
  then obtain r p m where a: "pt_allocPage s = Inr (r, s\<lparr>pt_phys := p, pt_mem := m\<rparr>)" "allocator_ok p"
    "usable_pages (all_regions p) = usable_pages (all_regions (pt_phys s))"
    "r \<noteq> 0" "r \<in> free_frames s" "table_frame r" "frames (all_regions p) = free_frames s - {r}" "m = zero_page r (pt_mem s)"
    using pt_allocPage_spec [OF ok] by auto
  let ?hn = "\<lparr>pth_parent = parent, pth_children = [], pml4Phys = r, physToDealloc = []\<rparr>"
  let ?s = "s\<lparr>pt_phys := p, pt_mem := m, pt_handlers := (pt_handlers s)(h \<mapsto> ?hn)\<rparr>"
  have e: "user_empty m r"
    using user_empty_zero_page [OF a(6)] a(8) by simp
  have "card (frames (all_regions p)) = card (free_frames s) - 1"
    using a(5,7) by simp
  then have ne: "frames (all_regions p) \<noteq> {}"
    using f by fastforce
  show ?thesis
  proof (cases parent)
    case None
    have "\<exists>s'. initKernel nx r ?s = Inr s' \<and> pt_inv s' r \<and> user_empty (pt_mem s') r \<and> pt_handlers s' = pt_handlers ?s"
      using a(2,3,6,7) ok(2) ne e by (intro initKernel_ok) auto
    then show ?thesis
      using a(1,4) None by (auto simp: pte_create_def require_def Let_def)
  next
    case (Some q)
    then obtain ph where ph: "pt_handlers s q = Some ph" "table_frame (pml4Phys ph)" "pml4Phys ph \<notin> free_frames s"
      "\<not> present (pt_mem s (pml4Phys ph + 8 * of_nat 255))"
      using par by (auto simp: parent_ok_def)
    have qh: "q \<noteq> h" "pml4Phys ph \<noteq> r"
      using ph(1,3) h a(5) by auto
    have "\<not> present (pt_mem ?s (pml4Phys ph + 8 * of_nat 255))"
      using ph(4) nat_slot_in_page [OF ph(2) a(6) qh(2), of 255] a(8) by (simp add: zero_page_def)
    moreover have "set [255..<512] \<subseteq> {255..<512 :: nat}"
      by (simp del: upt_rec_numeral)
    ultimately obtain m' where m': "copy_entries (pml4Phys ph) r [255..<512] ?s = Inr (?s\<lparr>pt_mem := m'\<rparr>)" "user_empty m' r"
      using copy_entries_spec [OF ph(2) a(6) qh(2), of "[255..<512]" ?s] e by (auto simp del: upt_rec_numeral)
    let ?t = "?s\<lparr>pt_mem := m', pt_handlers := (pt_handlers ?s)(q \<mapsto> ph\<lparr>pth_children := pth_children ph @ [h]\<rparr>)\<rparr>"
    have "pt_inv ?t r"
      using a(2,3,7) ok(2) empty_tree(1) [OF m'(2) a(6), of "free_frames s - {r}"] by (simp add: pt_inv_def)
    moreover have "pte_create nx h parent s = Inr ?t"
      using a(1,4) Some qh(1) ph(1) m'(1) by (simp add: pte_create_def initWithParent_def with_handler_def require_def Let_def del: upt_rec_numeral)
    ultimately show ?thesis
      using qh(1) m'(2) by (intro exI [of _ ?t] exI [of _ ?hn]) simp
  qed
qed

lemma mapPage_user:
  assumes inv: "pt_inv s (pml4Phys hn)" and h: "pt_handlers s h = Some hn" and u: "user_addr v"
  shows "\<exists>st s'. mapPage (Suc n) nx h phys v w x g us nc s = Some (Inr (st, s'))
    \<and> pt_inv s' (pml4Phys hn) \<and> pt_handlers s' = pt_handlers s
    \<and> (st = pt_Success \<and> (\<forall>v'. user_addr v' \<longrightarrow> getMapping nx h v' s' =
          (if drop_bit 12 v' = drop_bit 12 v
           then Inr (0, \<lparr>pm_phys = Some (entry_addr phys + (v' AND 0xFFF)), pm_write = w,
                         pm_execute = (x \<or> \<not> nx), pm_global = False, pm_user = us\<rparr>)
           else getMapping nx h v' s))
      \<or> st = pt_NoMemory \<and> free_frames s' = {} \<and>
          (\<forall>v'. user_addr v' \<longrightarrow> getMapping nx h v' s' = getMapping nx h v' s))"
proof -
  let ?pte = "make_pte nx phys w x g us"
  have run: "mapPage (Suc n) nx h phys v w x g us nc s = Some (map_pml4 h hn v ?pte s)"
    using h user_canonical [OF u] user_low [OF u] by simp
  obtain st s' where s': "map_pml4 h hn v ?pte s = Inr (st, s')" "pt_inv s' (pml4Phys hn)" "pt_handlers s' = pt_handlers s"
    "st = pt_Success \<and> (\<forall>v'. user_addr v' \<longrightarrow>
          pte_of (pt_mem s') (pml4Phys hn) v' = (if same_idx 4 v v' then Some ?pte else pte_of (pt_mem s) (pml4Phys hn) v'))
      \<or> st = pt_NoMemory \<and> free_frames s' = {} \<and>
          (\<forall>v'. user_addr v' \<longrightarrow> pte_of (pt_mem s') (pml4Phys hn) v' = pte_of (pt_mem s) (pml4Phys hn) v')"
    using map_pml4_result [OF inv u make_pte_present [of nx phys w x g us], of h] unfolding map_result_def by blast
  have get: "getMapping nx h v' s' = Inr (mapping_of nx v' (pte_of (pt_mem s') (pml4Phys hn) v'))"
    "getMapping nx h v' s = Inr (mapping_of nx v' (pte_of (pt_mem s) (pml4Phys hn) v'))" if "user_addr v'" for v'
    using getMapping_user [OF s'(2) _ that] getMapping_user [OF inv h that] s'(3) h by simp_all
  show ?thesis
    using run s' get same_page [OF u] mapping_of_make_pte [of nx _ phys w x g us]
    by (intro exI [of _ st] exI [of _ s']) (auto simp: eq_commute)
qed

text \<open>An empty table over an allocator with six frames.\<close>

definition small_handler :: pte_handler where
  "small_handler = \<lparr>pth_parent = None, pth_children = [], pml4Phys = 0x300000, physToDealloc = []\<rparr>"

definition small_pt :: pt_state where
  "small_pt = \<lparr>pt_mem = (\<lambda>_. 0), pt_phys = small_allocator, pt_handlers = [0 \<mapsto> small_handler],
     gPhysApertureAvailable = True, gPhysApertureGlobal = True\<rparr>"

lemma small_usable:
  "usable_pages (all_regions small_allocator) = {0x100000, 0x101000, 0x102000, 0x200000, 0x201000, 0x202000}"
  by (auto simp: usable_pages_def small_allocator_def small_region_def page_addr_def arch_page_size_def
        eval_nat_numeral lessThan_Suc)

lemma small_pt_inv: "pt_inv small_pt (pml4Phys small_handler)" "pt_handlers small_pt 0 = Some small_handler"
proof -
  have "frames (all_regions small_allocator) \<subseteq> usable_pages (all_regions small_allocator)"
    by (rule phys.free_usable [OF small_allocator_ok(1)])
  then have "0x300000 \<notin> frames (all_regions small_allocator)"
    by (auto simp: small_usable)
  then have "pt_tree (\<lambda>_. 0) 0x300000 (frames (all_regions small_allocator))"
    by (intro empty_tree(1)) (simp_all add: user_empty_def table_frame_def)
  then show "pt_inv small_pt (pml4Phys small_handler)"
    using small_allocator_ok(1) by (simp add: pt_inv_def small_pt_def small_handler_def small_usable)
qed (simp add: small_pt_def)

lemma user_addr_example: "user_addr 0x400123"
  by (simp add: user_addr_def)

section \<open>Properties\<close>

text \<open>
  C29: Mapping a page of user memory implements an update of a map. Whatever tables have to be
  allocated on the way, the call returns; on success the page resolves to the given frame with
  the given rights, at every offset, and every other user page resolves as before; otherwise the
  physical allocator is empty and no page resolves differently. The global flag is never
  reported.
\<close>

theorem page_table_map:
  assumes "pt_inv s (pml4Phys hn)" "pt_handlers s h = Some hn" "user_addr v"
  shows "\<exists>st s'. mapPage (Suc n) nx h phys v w x g us nc s = Some (Inr (st, s'))
    \<and> pt_inv s' (pml4Phys hn)
    \<and> (st = pt_Success \<and> (\<forall>v'. user_addr v' \<longrightarrow> getMapping nx h v' s' =
          (if drop_bit 12 v' = drop_bit 12 v
           then Inr (0, \<lparr>pm_phys = Some (entry_addr phys + (v' AND 0xFFF)), pm_write = w,
                         pm_execute = (x \<or> \<not> nx), pm_global = False, pm_user = us\<rparr>)
           else getMapping nx h v' s))
      \<or> st = pt_NoMemory \<and> free_frames s' = {} \<and>
          (\<forall>v'. user_addr v' \<longrightarrow> getMapping nx h v' s' = getMapping nx h v' s))"
  using mapPage_user [OF assms] by blast

theorem page_table_map_witness:
  "\<exists>st s'. mapPage (Suc 0) True 0 0x5000 0x400123 True False False True False small_pt = Some (Inr (st, s'))
     \<and> pt_inv s' (pml4Phys small_handler) \<and> (st = pt_Success \<or> st = pt_NoMemory)"
  using page_table_map [OF small_pt_inv user_addr_example, of 0 True "0x5000" True False False True False] by blast

text \<open>
  C30: Unmapping a page of user memory implements the removal from a map: afterwards the page does
  not resolve, every other user page resolves as before, and the call reports that there was
  nothing to unmap only for a page that did not resolve.
\<close>

theorem page_table_unmap:
  assumes "pt_inv s (pml4Phys hn)" "pt_handlers s h = Some hn" "user_addr v"
  shows "\<exists>st s'. unmapPage h v s = Inr (st, s') \<and> pt_inv s' (pml4Phys hn)
    \<and> (st = pt_Success \<or> st = pt_NoPageToUnmap \<and> getMapping nx h v s = Inr (mapping_of nx v None))
    \<and> (\<forall>v'. user_addr v' \<longrightarrow> getMapping nx h v' s' =
          (if drop_bit 12 v' = drop_bit 12 v then Inr (mapping_of nx v' None) else getMapping nx h v' s))"
proof -
  obtain st s' where s': "unmapPage h v s = Inr (st, s')" "pt_inv s' (pml4Phys hn)" "pt_handlers s' = pt_handlers s"
    "st = pt_Success \<or> st = pt_NoPageToUnmap \<and> pte_of (pt_mem s) (pml4Phys hn) v = None"
    "\<forall>v'. user_addr v' \<longrightarrow> pte_of (pt_mem s') (pml4Phys hn) v'
          = (if same_idx 4 v v' then None else pte_of (pt_mem s) (pml4Phys hn) v')"
    using unmapPage_user [OF assms] by blast
  have get: "getMapping nx h v' s' = Inr (mapping_of nx v' (pte_of (pt_mem s') (pml4Phys hn) v'))"
    "getMapping nx h v' s = Inr (mapping_of nx v' (pte_of (pt_mem s) (pml4Phys hn) v'))" if "user_addr v'" for v'
    using getMapping_user [OF s'(2) _ that] getMapping_user [OF assms(1,2) that] s'(3) assms(2) by simp_all
  show ?thesis
    using s' get same_page [OF assms(3)] assms(3) by (intro exI [of _ st] exI [of _ s']) (auto simp: eq_commute)
qed

theorem page_table_unmap_witness:
  "\<exists>st s'. unmapPage 0 0x400123 small_pt = Inr (st, s') \<and> pt_inv s' (pml4Phys small_handler)"
  using page_table_unmap [OF small_pt_inv user_addr_example, of True] by blast

text \<open>
  C31: A new handler, for the kernel with its window onto physical memory or for a task with the
  kernel's entries copied, has well formed tables in which no user address is mapped, provided the
  allocator has two frames and entry 255 of the parent, which is copied as well, is unused.
\<close>

theorem page_table_fresh:
  assumes "allocator_ok (pt_phys s)" "\<forall>a \<in> usable_pages (all_regions (pt_phys s)). unat a + 4096 \<le> 2 ^ 39"
    "2 \<le> card (free_frames s)" "pt_handlers s h = None" "parent_ok parent s"
  shows "\<exists>s' hn. pte_create nx h parent s = Inr s' \<and> pt_handlers s' h = Some hn \<and> pt_inv s' (pml4Phys hn)
    \<and> (\<forall>v. user_addr v \<longrightarrow> getMapping nx h v s' = Inr (mapping_of nx v None))"
proof -
  obtain s' hn where s': "pte_create nx h parent s = Inr s'" "pt_handlers s' h = Some hn" "pt_inv s' (pml4Phys hn)"
    "user_empty (pt_mem s') (pml4Phys hn)"
    using pte_create_ok [OF assms] by blast
  have "table_frame (pml4Phys hn)" "pml4Phys hn \<notin> free_frames s'"
    using s'(3) pt_treeD(1,2) [of "pt_mem s'" "pml4Phys hn" "free_frames s'" 0 0 "pml4Phys hn"]
    by (simp_all add: pt_inv_def user_addr_def)
  then show ?thesis
    using s' getMapping_user [OF s'(3,2)] empty_tree(2) [OF s'(4)] by auto
qed

theorem page_table_fresh_witness:
  "\<exists>s' hn. pte_create True 1 (Some 0) small_pt = Inr s' \<and> pt_handlers s' 1 = Some hn \<and> pt_inv s' (pml4Phys hn)"
proof -
  have "pml4Phys small_handler \<notin> free_frames small_pt"
    using small_pt_inv(1) pt_treeD(2) [of "pt_mem small_pt" "pml4Phys small_handler" "free_frames small_pt" 0 0]
    by (simp add: pt_inv_def user_addr_def)
  then have "parent_ok (Some 0) small_pt"
    using small_pt_inv(2) by (simp add: parent_ok_def) (simp add: small_pt_def small_handler_def table_frame_def)
  moreover have "pt_phys small_pt = small_allocator" "pt_handlers small_pt 1 = None"
    by (simp_all add: small_pt_def)
  ultimately show ?thesis
    using page_table_fresh [of small_pt 1 "Some 0" True] small_allocator_ok by (auto simp: small_usable)
qed

end
