(* ===== verification/Smart_Pointers.thy ===== *)
theory Smart_Pointers
  imports Kush_Prelude
begin

text \<open>
  Reference counted pointers, \<^verbatim>\<open>kernel/src/runtime/SmartPointers.h\<close>. The state holds the info
  blocks that the pointers share, the shared and weak pointers that exist (program variables and,
  for classes with \<^verbatim>\<open>SharedFromThis\<close>, the weak reference inside the object), and the objects
  whose deleter has run. Every access to an info block that was deleted is a fault. The theory
  shows that programs over the constructors, assignments, destructors and \<^verbatim>\<open>lock\<close> never fault,
  delete an object exactly when its last shared pointer goes away, and leak no info block; and
  what happens when a weak pointer is copied, for which the class declares no constructor.

  Counters have the width of \<^verbatim>\<open>size_t\<close>. The atomic operations are single steps; the loop of
  \<^verbatim>\<open>lock\<close> repeats only when another processor interferes.
\<close>

section \<open>State\<close>

record info_block =
  useCount :: u64
  weakCount :: u64
  pointee :: objid

record smart_ptr =
  sp_info :: "nat option"
  sp_obj :: "objid option"

definition null_ptr :: smart_ptr where
  "null_ptr = \<lparr>sp_info = None, sp_obj = None\<rparr>"

text \<open>Weak pointers are variables, or the member \<^verbatim>\<open>_weakRef\<close> of an object.\<close>

datatype weak_var = WeakVar nat | WeakRefOf objid

record sp_env =
  infos :: "nat \<rightharpoonup> info_block"
  strong :: "nat \<rightharpoonup> smart_ptr"
  weak :: "weak_var \<rightharpoonup> smart_ptr"
  deleted :: "objid list"

section \<open>Counting\<close>

definition with_info :: "nat \<Rightarrow> sp_env \<Rightarrow> (info_block \<Rightarrow> 'a outcome) \<Rightarrow> 'a outcome" where
  "with_info i e k = (case infos e i of None \<Rightarrow> Inl BadAccess | Some b \<Rightarrow> k b)"

definition set_info :: "nat \<Rightarrow> info_block option \<Rightarrow> sp_env \<Rightarrow> sp_env" where
  "set_info i b e = e\<lparr>infos := (infos e)(i := b)\<rparr>"

definition incrementStrongRefs :: "smart_ptr \<Rightarrow> sp_env \<Rightarrow> sp_env outcome" where
  "incrementStrongRefs p e = (case sp_info p of None \<Rightarrow> Inr e | Some i \<Rightarrow>
     with_info i e (\<lambda>b. Inr (set_info i (Some (b\<lparr>useCount := useCount b + 1\<rparr>)) e)))"

definition incrementWeakRefs :: "smart_ptr \<Rightarrow> sp_env \<Rightarrow> sp_env outcome" where
  "incrementWeakRefs p e = (case sp_info p of None \<Rightarrow> Inr e | Some i \<Rightarrow>
     with_info i e (\<lambda>b. Inr (set_info i (Some (b\<lparr>weakCount := weakCount b + 1\<rparr>)) e)))"

definition decrementWeakRefs :: "smart_ptr \<Rightarrow> sp_env \<Rightarrow> (smart_ptr \<times> sp_env) outcome" where
  "decrementWeakRefs p e = (case sp_info p of None \<Rightarrow> Inr (p, e) | Some i \<Rightarrow>
     with_info i e (\<lambda>b.
       let b = b\<lparr>weakCount := weakCount b - 1\<rparr> in
       if weakCount b = 0 then Inr (p\<lparr>sp_info := None\<rparr>, set_info i None e)
       else Inr (p, set_info i (Some b) e)))"

text \<open>
  Running the deleter: the object is gone, and so is the weak reference inside it, whose
  destructor runs with the object's.
\<close>

definition destroy_object :: "objid \<Rightarrow> sp_env \<Rightarrow> sp_env outcome" where
  "destroy_object obj e =
     (let e = e\<lparr>deleted := obj # deleted e\<rparr> in
      case weak e (WeakRefOf obj) of None \<Rightarrow> Inr e
      | Some w \<Rightarrow> obind (decrementWeakRefs w e) (\<lambda>(w, e).
          Inr (e\<lparr>weak := (weak e)(WeakRefOf obj := None)\<rparr>)))"

definition decrementStrongRefs :: "smart_ptr \<Rightarrow> sp_env \<Rightarrow> (smart_ptr \<times> sp_env) outcome" where
  "decrementStrongRefs p e = (case sp_info p of None \<Rightarrow> Inr (p, e) | Some i \<Rightarrow>
     with_info i e (\<lambda>b.
       let b = b\<lparr>useCount := useCount b - 1\<rparr>; e = set_info i (Some b) e in
       if useCount b = 0 then
         obind (destroy_object (pointee b) e) (\<lambda>e.
         let p = p\<lparr>sp_obj := None\<rparr> in
         with_info i e (\<lambda>b.
           let b = b\<lparr>weakCount := weakCount b - 1\<rparr> in
           if weakCount b = 0 then Inr (p\<lparr>sp_info := None\<rparr>, set_info i None e)
           else Inr (p, set_info i (Some b) e)))
       else Inr (p, e)))"

section \<open>Operations\<close>

definition new_info :: "nat \<Rightarrow> objid \<Rightarrow> sp_env \<Rightarrow> sp_env" where
  "new_info i obj e = set_info i (Some \<lparr>useCount = 1, weakCount = 1, pointee = obj\<rparr>) e"

text \<open>\<^verbatim>\<open>SharedPtr(U *)\<close> of a plain object; \<open>i\<close> is where the allocator put the info block.\<close>

definition shared_create :: "nat \<Rightarrow> objid \<Rightarrow> nat \<Rightarrow> sp_env \<Rightarrow> sp_env outcome" where
  "shared_create i obj v e =
     (let e = new_info i obj e
      in Inr (e\<lparr>strong := (strong e)(v \<mapsto> \<lparr>sp_info = Some i, sp_obj = Some obj\<rparr>)\<rparr>))"

text \<open>
  \<^verbatim>\<open>SharedPtr(U *)\<close> of an object with a weak reference to itself: that reference is used when
  it is set; otherwise it is assigned from a temporary weak pointer.
\<close>

definition shared_create_this :: "nat \<Rightarrow> objid \<Rightarrow> nat \<Rightarrow> sp_env \<Rightarrow> sp_env outcome" where
  "shared_create_this i obj v e =
     (case weak e (WeakRefOf obj) of None \<Rightarrow> Inl BadAccess | Some w \<Rightarrow>
      if sp_obj w \<noteq> None then
        obind (incrementStrongRefs w e) (\<lambda>e. Inr (e\<lparr>strong := (strong e)(v \<mapsto> w)\<rparr>))
      else
        let e = new_info i obj e; p = \<lparr>sp_info = Some i, sp_obj = Some obj\<rparr> in
        obind (incrementWeakRefs p e) (\<lambda>e.
        obind (decrementWeakRefs w e) (\<lambda>(w, e).
        obind (incrementWeakRefs p e) (\<lambda>e.
        obind (decrementWeakRefs p e) (\<lambda>(tmp, e).
        Inr (e\<lparr>weak := (weak e)(WeakRefOf obj \<mapsto> p), strong := (strong e)(v \<mapsto> p)\<rparr>))))))"

definition shared_copy :: "nat \<Rightarrow> nat \<Rightarrow> sp_env \<Rightarrow> sp_env outcome" where
  "shared_copy v src e = (case strong e src of None \<Rightarrow> Inl BadAccess | Some p \<Rightarrow>
     obind (incrementStrongRefs p e) (\<lambda>e. Inr (e\<lparr>strong := (strong e)(v \<mapsto> p)\<rparr>)))"

definition shared_assign :: "nat \<Rightarrow> nat \<Rightarrow> sp_env \<Rightarrow> sp_env outcome" where
  "shared_assign v src e =
     (if v = src then Inr e
      else case strong e v of None \<Rightarrow> Inl BadAccess | Some old \<Rightarrow>
        obind (decrementStrongRefs old e) (\<lambda>(old, e).
        case strong e src of None \<Rightarrow> Inl BadAccess | Some p \<Rightarrow>
        obind (incrementStrongRefs p e) (\<lambda>e. Inr (e\<lparr>strong := (strong e)(v \<mapsto> p)\<rparr>))))"

definition shared_assign_null :: "nat \<Rightarrow> sp_env \<Rightarrow> sp_env outcome" where
  "shared_assign_null v e = (case strong e v of None \<Rightarrow> Inl BadAccess | Some old \<Rightarrow>
     obind (decrementStrongRefs old e) (\<lambda>(old, e). Inr (e\<lparr>strong := (strong e)(v \<mapsto> null_ptr)\<rparr>)))"

definition shared_destruct :: "nat \<Rightarrow> sp_env \<Rightarrow> sp_env outcome" where
  "shared_destruct v e = (case strong e v of None \<Rightarrow> Inl BadAccess | Some old \<Rightarrow>
     obind (decrementStrongRefs old e) (\<lambda>(old, e). Inr (e\<lparr>strong := (strong e)(v := None)\<rparr>)))"

definition weak_create :: "nat \<Rightarrow> nat \<Rightarrow> sp_env \<Rightarrow> sp_env outcome" where
  "weak_create w src e = (case strong e src of None \<Rightarrow> Inl BadAccess | Some p \<Rightarrow>
     obind (incrementWeakRefs p e) (\<lambda>e. Inr (e\<lparr>weak := (weak e)(WeakVar w \<mapsto> p)\<rparr>)))"

definition weak_assign :: "nat \<Rightarrow> weak_var \<Rightarrow> sp_env \<Rightarrow> sp_env outcome" where
  "weak_assign w src e =
     (if WeakVar w = src then Inr e
      else case weak e (WeakVar w) of None \<Rightarrow> Inl BadAccess | Some old \<Rightarrow>
        obind (decrementWeakRefs old e) (\<lambda>(old, e).
        case weak e src of None \<Rightarrow> Inl BadAccess | Some p \<Rightarrow>
        obind (incrementWeakRefs p e) (\<lambda>e. Inr (e\<lparr>weak := (weak e)(WeakVar w \<mapsto> p)\<rparr>))))"

definition weak_assign_null :: "nat \<Rightarrow> sp_env \<Rightarrow> sp_env outcome" where
  "weak_assign_null w e = (case weak e (WeakVar w) of None \<Rightarrow> Inl BadAccess | Some old \<Rightarrow>
     obind (decrementWeakRefs old e) (\<lambda>(old, e). Inr (e\<lparr>weak := (weak e)(WeakVar w \<mapsto> null_ptr)\<rparr>)))"

definition weak_destruct :: "nat \<Rightarrow> sp_env \<Rightarrow> sp_env outcome" where
  "weak_destruct w e = (case weak e (WeakVar w) of None \<Rightarrow> Inl BadAccess | Some old \<Rightarrow>
     obind (decrementWeakRefs old e) (\<lambda>(old, e). Inr (e\<lparr>weak := (weak e)(WeakVar w := None)\<rparr>)))"

text \<open>
  The copy constructor the compiler supplies for weak pointers, which \<^verbatim>\<open>weakFromThis\<close> returns
  its result with: the members are copied and no count changes.
\<close>

definition weak_copy :: "nat \<Rightarrow> weak_var \<Rightarrow> sp_env \<Rightarrow> sp_env outcome" where
  "weak_copy w src e = (case weak e src of None \<Rightarrow> Inl BadAccess | Some p \<Rightarrow>
     Inr (e\<lparr>weak := (weak e)(WeakVar w \<mapsto> p)\<rparr>))"

text \<open>The counters, which both classes read with the same code.\<close>

definition getStrongRefs :: "smart_ptr \<Rightarrow> sp_env \<Rightarrow> u64 outcome" where
  "getStrongRefs p e = (case sp_info p of None \<Rightarrow> Inr 0 | Some i \<Rightarrow>
     with_info i e (\<lambda>b. Inr (useCount b)))"

definition getWeakRefs :: "smart_ptr \<Rightarrow> sp_env \<Rightarrow> u64 outcome" where
  "getWeakRefs p e = (case sp_info p of None \<Rightarrow> Inr 0 | Some i \<Rightarrow>
     with_info i e (\<lambda>b. Inr (weakCount b)))"

definition weak_expired :: "smart_ptr \<Rightarrow> sp_env \<Rightarrow> bool outcome" where
  "weak_expired w e = obind (getStrongRefs w e) (\<lambda>n. Inr (n = 0))"

definition weak_lock :: "nat \<Rightarrow> weak_var \<Rightarrow> sp_env \<Rightarrow> sp_env outcome" where
  "weak_lock v src e = (case weak e src of None \<Rightarrow> Inl BadAccess | Some w \<Rightarrow>
     case sp_info w of None \<Rightarrow> Inr (e\<lparr>strong := (strong e)(v \<mapsto> null_ptr)\<rparr>)
     | Some i \<Rightarrow> with_info i e (\<lambda>b.
         if useCount b = 0 then Inr (e\<lparr>strong := (strong e)(v \<mapsto> null_ptr)\<rparr>)
         else let e = set_info i (Some (b\<lparr>useCount := useCount b + 1\<rparr>)) e
              in Inr (e\<lparr>strong := (strong e)(v \<mapsto> w)\<rparr>)))"

definition sharedFromThis :: "nat \<Rightarrow> objid \<Rightarrow> sp_env \<Rightarrow> sp_env outcome" where
  "sharedFromThis v obj e = weak_lock v (WeakRefOf obj) e"

section \<open>Programs\<close>

datatype sp_cmd =
    CreateObject objid
  | SharedCreate nat objid nat
  | SharedCreateThis nat objid nat
  | SharedCopy nat nat
  | SharedAssign nat nat
  | SharedAssignNull nat
  | SharedDestruct nat
  | WeakCreate nat nat
  | WeakAssign nat weak_var
  | WeakAssignNull nat
  | WeakDestruct nat
  | WeakLock nat weak_var

text \<open>\<open>CreateObject\<close> constructs an object with \<^verbatim>\<open>SharedFromThis\<close>, whose weak reference is null.\<close>

fun sp_exec :: "sp_cmd \<Rightarrow> sp_env \<Rightarrow> sp_env outcome" where
  "sp_exec (CreateObject obj) e = Inr (e\<lparr>weak := (weak e)(WeakRefOf obj \<mapsto> null_ptr)\<rparr>)"
| "sp_exec (SharedCreate i obj v) e = shared_create i obj v e"
| "sp_exec (SharedCreateThis i obj v) e = shared_create_this i obj v e"
| "sp_exec (SharedCopy v src) e = shared_copy v src e"
| "sp_exec (SharedAssign v src) e = shared_assign v src e"
| "sp_exec (SharedAssignNull v) e = shared_assign_null v e"
| "sp_exec (SharedDestruct v) e = shared_destruct v e"
| "sp_exec (WeakCreate w src) e = weak_create w src e"
| "sp_exec (WeakAssign w src) e = weak_assign w src e"
| "sp_exec (WeakAssignNull w) e = weak_assign_null w e"
| "sp_exec (WeakDestruct w) e = weak_destruct w e"
| "sp_exec (WeakLock v src) e = weak_lock v src e"

fun sp_run :: "sp_cmd list \<Rightarrow> sp_env \<Rightarrow> sp_env outcome" where
  "sp_run [] e = Inr e"
| "sp_run (c # cs) e = obind (sp_exec c e) (sp_run cs)"

definition sp_empty :: sp_env where
  "sp_empty = \<lparr>infos = Map.empty, strong = Map.empty, weak = Map.empty, deleted = []\<rparr>"

section \<open>Invariant\<close>

text \<open>How many pointers of a group refer to each info block.\<close>

definition refs :: "('v \<rightharpoonup> smart_ptr) \<Rightarrow> nat \<Rightarrow> nat" where
  "refs m i = card {v. \<exists>p. m v = Some p \<and> sp_info p = Some i}"

fun addref :: "nat option \<Rightarrow> (nat \<Rightarrow> nat) \<Rightarrow> nat \<Rightarrow> nat" where
  "addref None f = f"
| "addref (Some i) f = f(i := f i + 1)"

definition info_ok :: "objid set \<Rightarrow> nat \<Rightarrow> nat \<Rightarrow> info_block option \<Rightarrow> bool" where
  "info_ok del ns nw ob = (case ob of None \<Rightarrow> ns = 0 \<and> nw = 0
     | Some b \<Rightarrow> useCount b = of_nat ns \<and> weakCount b = of_nat (nw + (if 0 < ns then 1 else 0))
                \<and> (0 < ns \<or> 0 < nw) \<and> (pointee b \<in> del \<longleftrightarrow> ns = 0))"

definition ptr_ok :: "(nat \<rightharpoonup> info_block) \<Rightarrow> smart_ptr \<Rightarrow> bool" where
  "ptr_ok I p = (case sp_info p of None \<Rightarrow> sp_obj p = None
     | Some i \<Rightarrow> \<forall>b. I i = Some b \<longrightarrow> sp_obj p = Some (pointee b))"

text \<open>
  The invariant relative to given counts \<open>ns\<close> and \<open>nw\<close>; between an operation's change of a
  counter and its change of the pointer they differ by one from the pointers that exist.
\<close>

definition sp_inv :: "sp_env \<Rightarrow> (nat \<Rightarrow> nat) \<Rightarrow> (nat \<Rightarrow> nat) \<Rightarrow> bool" where
  "sp_inv e ns nw \<longleftrightarrow>
     finite (dom (strong e)) \<and> finite (dom (weak e)) \<and> distinct (deleted e) \<and>
     (\<forall>i. info_ok (set (deleted e)) (ns i) (nw i) (infos e i)) \<and>
     (\<forall>v p. strong e v = Some p \<longrightarrow> ptr_ok (infos e) p) \<and>
     (\<forall>w p. weak e w = Some p \<longrightarrow> ptr_ok (infos e) p) \<and>
     (\<forall>obj p. weak e (WeakRefOf obj) = Some p \<longrightarrow>
        obj \<notin> set (deleted e) \<and> (sp_obj p = None \<or> sp_obj p = Some obj)) \<and>
     (\<forall>i j b c. infos e i = Some b \<longrightarrow> infos e j = Some c \<longrightarrow> pointee b = pointee c \<longrightarrow> i = j) \<and>
     (\<forall>i b p. infos e i = Some b \<longrightarrow> weak e (WeakRefOf (pointee b)) = Some p \<longrightarrow> sp_info p = Some i)"

definition sp_ok :: "sp_env \<Rightarrow> bool" where
  "sp_ok e = sp_inv e (refs (strong e)) (refs (weak e))"

lemma refs_upd_Some:
  assumes "finite (dom m)"
  shows "refs (m(v \<mapsto> p)) = addref (sp_info p) (refs (m(v := None)))"
proof
  fix i
  define S where "S = {u. \<exists>q. (m(v := None)) u = Some q \<and> sp_info q = Some i}"
  have fin: "finite S" "v \<notin> S"
    by (rule finite_subset [OF _ assms]) (auto simp: S_def split: if_splits)
  have upd: "{u. \<exists>q. (m(v \<mapsto> p)) u = Some q \<and> sp_info q = Some i}
          = (if sp_info p = Some i then insert v S else S)"
    by (auto simp: S_def split: if_splits)
  have "refs (m(v \<mapsto> p)) i = card S + (if sp_info p = Some i then 1 else 0)"
    unfolding refs_def upd using fin by simp
  moreover have "refs (m(v := None)) i = card S"
    by (simp add: refs_def S_def)
  ultimately show "refs (m(v \<mapsto> p)) i = addref (sp_info p) (refs (m(v := None))) i"
    by (cases "sp_info p") auto
qed

lemma refs_split:
  "finite (dom m) \<Longrightarrow> m v = Some p \<Longrightarrow> refs m = addref (sp_info p) (refs (m(v := None)))"
  using refs_upd_Some [of m v p] by (simp add: fun_upd_idem)

lemma refs_upd_fresh:
  "finite (dom m) \<Longrightarrow> m v = None \<Longrightarrow> refs (m(v \<mapsto> p)) = addref (sp_info p) (refs m)"
  using refs_upd_Some [of m v p] by (simp add: fun_upd_idem)

lemma refs_pos:
  "finite (dom m) \<Longrightarrow> m v = Some p \<Longrightarrow> sp_info p = Some i \<Longrightarrow> 0 < refs m i"
  by (simp add: refs_split)

lemma refs_le_dom:
  assumes "finite (dom m)"
  shows "refs m i \<le> card (dom m)"
  unfolding refs_def by (rule card_mono [OF assms]) auto

lemma refs_pos_ex:
  assumes "0 < refs m i"
  obtains v p where "m v = Some p" "sp_info p = Some i"
proof -
  have "{v. \<exists>p. m v = Some p \<and> sp_info p = Some i} \<noteq> {}"
    using assms unfolding refs_def card_gt_0_iff by blast
  then show ?thesis
    using that by blast
qed

lemma ptr_ok_set:
  "ptr_ok I p \<Longrightarrow> (\<forall>b'. ob = Some b' \<longrightarrow> (\<exists>b. I i = Some b \<and> pointee b = pointee b'))
   \<Longrightarrow> ptr_ok (I(i := ob)) p"
  by (auto simp: ptr_ok_def split: option.splits)

lemma sp_invD:
  assumes "sp_inv e ns nw"
  shows "finite (dom (strong e))" "finite (dom (weak e))" "distinct (deleted e)"
    and "info_ok (set (deleted e)) (ns i) (nw i) (infos e i)"
    and "strong e v = Some p \<Longrightarrow> ptr_ok (infos e) p"
    and "weak e w = Some p \<Longrightarrow> ptr_ok (infos e) p"
    and "weak e (WeakRefOf obj) = Some p \<Longrightarrow> obj \<notin> set (deleted e)"
    and "weak e (WeakRefOf obj) = Some p \<Longrightarrow> sp_obj p = None \<or> sp_obj p = Some obj"
    and "infos e i = Some b \<Longrightarrow> infos e j = Some c \<Longrightarrow> pointee b = pointee c \<Longrightarrow> i = j"
    and "infos e i = Some b \<Longrightarrow> weak e (WeakRefOf (pointee b)) = Some p \<Longrightarrow> sp_info p = Some i"
  using assms unfolding sp_inv_def by blast+

lemma sp_invI:
  assumes "finite (dom (strong e))" "finite (dom (weak e))" "distinct (deleted e)"
    and "\<And>i. info_ok (set (deleted e)) (ns i) (nw i) (infos e i)"
    and "\<And>v p. strong e v = Some p \<Longrightarrow> ptr_ok (infos e) p"
    and "\<And>w p. weak e w = Some p \<Longrightarrow> ptr_ok (infos e) p"
    and "\<And>obj p. weak e (WeakRefOf obj) = Some p \<Longrightarrow>
           obj \<notin> set (deleted e) \<and> (sp_obj p = None \<or> sp_obj p = Some obj)"
    and "\<And>i j b c. infos e i = Some b \<Longrightarrow> infos e j = Some c \<Longrightarrow> pointee b = pointee c \<Longrightarrow> i = j"
    and "\<And>i b p. infos e i = Some b \<Longrightarrow> weak e (WeakRefOf (pointee b)) = Some p \<Longrightarrow> sp_info p = Some i"
  shows "sp_inv e ns nw"
  using assms unfolding sp_inv_def by blast

text \<open>One info block changes or is freed, and an object may be deleted on the way.\<close>

lemma sp_inv_update:
  assumes inv: "sp_inv e ns nw" and b: "infos e i = Some b"
    and same: "\<And>b'. ob = Some b' \<Longrightarrow> pointee b' = pointee b"
    and ok: "\<And>j. info_ok (set D) (ns' j) (nw' j) (((infos e)(i := ob)) j)"
    and D: "distinct D" "set (deleted e) \<subseteq> set D"
    and W: "\<And>w p. W w = Some p \<Longrightarrow> weak e w = Some p"
    and WD: "\<And>obj p. W (WeakRefOf obj) = Some p \<Longrightarrow> obj \<notin> set D"
  shows "sp_inv (e\<lparr>infos := (infos e)(i := ob), deleted := D, weak := W\<rparr>) ns' nw'"
proof -
  have ptr: "ptr_ok (infos e) p \<Longrightarrow> ptr_ok ((infos e)(i := ob)) p" for p
    using b same by (auto intro!: ptr_ok_set)
  have shape: "\<exists>c'. infos e j = Some c' \<and> pointee c' = pointee c"
    if "((infos e)(i := ob)) j = Some c" for j c
    using b same that by (auto split: if_splits)
  show ?thesis
  proof (rule sp_invI)
    fix j k c d
    assume "infos (e\<lparr>infos := (infos e)(i := ob), deleted := D, weak := W\<rparr>) j = Some c"
      "infos (e\<lparr>infos := (infos e)(i := ob), deleted := D, weak := W\<rparr>) k = Some d"
      "pointee c = pointee d"
    then show "j = k"
      using shape [of j c] shape [of k d] sp_invD(9) [OF inv, of j _ k] by auto
  next
    fix j c p
    assume "infos (e\<lparr>infos := (infos e)(i := ob), deleted := D, weak := W\<rparr>) j = Some c"
      "weak (e\<lparr>infos := (infos e)(i := ob), deleted := D, weak := W\<rparr>) (WeakRefOf (pointee c)) = Some p"
    then show "sp_info p = Some j"
      using shape [of j c] sp_invD(10) [OF inv, of j _ p] W by auto
  next
    fix w p
    assume "weak (e\<lparr>infos := (infos e)(i := ob), deleted := D, weak := W\<rparr>) w = Some p"
    then show "ptr_ok (infos (e\<lparr>infos := (infos e)(i := ob), deleted := D, weak := W\<rparr>)) p"
      using ptr [OF sp_invD(6) [OF inv W, of w]] by simp
  next
    show "finite (dom (weak (e\<lparr>infos := (infos e)(i := ob), deleted := D, weak := W\<rparr>)))"
      by (rule finite_subset [OF _ sp_invD(2) [OF inv]]) (auto dest: W)
  qed (use sp_invD(1,5,8) [OF inv] D ok ptr W WD in \<open>auto simp del: fun_upd_apply\<close>)
qed

lemma sp_inv_set_info:
  assumes inv: "sp_inv e ns nw" and b: "infos e i = Some b"
    and ok: "info_ok (set (deleted e)) (ns' i) (nw' i) ob"
    and same: "\<And>b'. ob = Some b' \<Longrightarrow> pointee b' = pointee b"
    and others: "\<And>j. j \<noteq> i \<Longrightarrow> ns' j = ns j \<and> nw' j = nw j"
  shows "sp_inv (set_info i ob e) ns' nw'"
proof -
  have "set_info i ob e = e\<lparr>infos := (infos e)(i := ob), deleted := deleted e, weak := weak e\<rparr>"
    by (simp add: set_info_def)
  moreover have "info_ok (set (deleted e)) (ns' j) (nw' j) (((infos e)(i := ob)) j)" for j
    using ok others sp_invD(4) [OF inv, of j] by (cases "j = i") auto
  ultimately show ?thesis
    using sp_inv_update [OF inv b same, of ob "deleted e" ns' nw' "weak e"] sp_invD(3,7) [OF inv]
    by simp
qed

lemma sp_inv_delete:
  assumes inv: "sp_inv e ns nw" and b: "infos e i = Some b" and fresh: "pointee b \<notin> set (deleted e)"
    and ok: "info_ok (insert (pointee b) (set (deleted e))) (ns' i) (nw' i) ob"
    and same: "\<And>b'. ob = Some b' \<Longrightarrow> pointee b' = pointee b"
    and others: "\<And>j. j \<noteq> i \<Longrightarrow> ns' j = ns j \<and> nw' j = nw j"
  shows "sp_inv (e\<lparr>infos := (infos e)(i := ob), deleted := pointee b # deleted e,
                    weak := (weak e)(WeakRefOf (pointee b) := None)\<rparr>) ns' nw'"
proof (rule sp_inv_update [OF inv b same])
  fix j
  have "infos e j = Some c \<Longrightarrow> j \<noteq> i \<Longrightarrow> pointee c \<noteq> pointee b" for c
    using sp_invD(9) [OF inv _ b, of j c] by auto
  then show "info_ok (set (pointee b # deleted e)) (ns' j) (nw' j) (((infos e)(i := ob)) j)"
    using ok others sp_invD(4) [OF inv, of j]
    by (cases "j = i") (auto simp: info_ok_def split: option.splits)
qed (use sp_invD(3,7) [OF inv] fresh in \<open>auto split: if_splits\<close>)

lemma of_nat_u64_eq_0: "n < 2 ^ 64 \<Longrightarrow> (of_nat n :: u64) = 0 \<longleftrightarrow> n = 0"
  using nat_dvd_not_less [of n "2 ^ 64"] by (auto simp: word_of_nat_eq_0_iff)

section \<open>What the counters do\<close>

lemma sp_inv_info:
  assumes "sp_inv e ns nw" "0 < ns i \<or> 0 < nw i"
  obtains b where "infos e i = Some b" "useCount b = of_nat (ns i)"
    "weakCount b = of_nat (nw i + (if 0 < ns i then 1 else 0))" "pointee b \<in> set (deleted e) \<longleftrightarrow> ns i = 0"
proof (cases "infos e i")
  case None
  then show ?thesis
    using sp_invD(4) [OF assms(1), of i] assms(2) by (simp add: info_ok_def)
next
  case (Some b)
  then show ?thesis
    using that sp_invD(4) [OF assms(1), of i] by (simp add: info_ok_def)
qed

lemma incrementStrongRefs_inv:
  assumes inv: "sp_inv e ns nw" and live: "\<And>i. sp_info p = Some i \<Longrightarrow> 0 < ns i"
  obtains I where "incrementStrongRefs p e = Inr (e\<lparr>infos := I\<rparr>)"
    "sp_inv (e\<lparr>infos := I\<rparr>) (addref (sp_info p) ns) nw"
    "\<forall>p. ptr_ok (infos e) p \<longrightarrow> ptr_ok I p"
proof (cases "sp_info p")
  case None
  then show ?thesis
    using that [of "infos e"] inv by (simp add: incrementStrongRefs_def)
next
  case (Some i)
  from sp_inv_info [OF inv disjI1, OF live, OF Some]
  obtain b where b: "infos e i = Some b" "useCount b = of_nat (ns i)"
    "weakCount b = of_nat (nw i + (if 0 < ns i then 1 else 0))" "pointee b \<in> set (deleted e) \<longleftrightarrow> ns i = 0" .
  let ?b = "b\<lparr>useCount := useCount b + 1\<rparr>"
  have "info_ok (set (deleted e)) (ns i + 1) (nw i) (Some ?b)"
    using b live [OF Some] by (simp add: info_ok_def add.commute)
  then have "sp_inv (set_info i (Some ?b) e) (addref (sp_info p) ns) nw"
    by (intro sp_inv_set_info [OF inv b(1)]) (auto simp: Some)
  moreover have "ptr_ok (infos e) q \<Longrightarrow> ptr_ok ((infos e)(i \<mapsto> ?b)) q" for q
    using b by (auto intro!: ptr_ok_set)
  ultimately show ?thesis
    using that [of "(infos e)(i \<mapsto> ?b)"] b(1)
    by (simp add: incrementStrongRefs_def Some with_info_def set_info_def)
qed

lemma incrementWeakRefs_inv:
  assumes inv: "sp_inv e ns nw" and live: "\<And>i. sp_info p = Some i \<Longrightarrow> 0 < ns i \<or> 0 < nw i"
  obtains I where "incrementWeakRefs p e = Inr (e\<lparr>infos := I\<rparr>)"
    "sp_inv (e\<lparr>infos := I\<rparr>) ns (addref (sp_info p) nw)"
    "\<forall>p. ptr_ok (infos e) p \<longrightarrow> ptr_ok I p"
proof (cases "sp_info p")
  case None
  then show ?thesis
    using that [of "infos e"] inv by (simp add: incrementWeakRefs_def)
next
  case (Some i)
  from sp_inv_info [OF inv live, OF Some]
  obtain b where b: "infos e i = Some b" "useCount b = of_nat (ns i)"
    "weakCount b = of_nat (nw i + (if 0 < ns i then 1 else 0))" "pointee b \<in> set (deleted e) \<longleftrightarrow> ns i = 0" .
  let ?b = "b\<lparr>weakCount := weakCount b + 1\<rparr>"
  have "info_ok (set (deleted e)) (ns i) (nw i + 1) (Some ?b)"
    using b live [OF Some] by (simp add: info_ok_def add.commute)
  then have "sp_inv (set_info i (Some ?b) e) ns (addref (sp_info p) nw)"
    by (intro sp_inv_set_info [OF inv b(1)]) (auto simp: Some)
  moreover have "ptr_ok (infos e) q \<Longrightarrow> ptr_ok ((infos e)(i \<mapsto> ?b)) q" for q
    using b by (auto intro!: ptr_ok_set)
  ultimately show ?thesis
    using that [of "(infos e)(i \<mapsto> ?b)"] b(1)
    by (simp add: incrementWeakRefs_def Some with_info_def set_info_def)
qed

lemma decrementWeakRefs_inv:
  assumes inv: "sp_inv e ns (addref (sp_info p) nw)"
    and small: "\<And>i. ns i < 2 ^ 64 - 2" "\<And>i. nw i < 2 ^ 64 - 2"
  obtains p' I where "decrementWeakRefs p e = Inr (p', e\<lparr>infos := I\<rparr>)" "sp_inv (e\<lparr>infos := I\<rparr>) ns nw"
proof (cases "sp_info p")
  case None
  then show ?thesis
    using that [of p "infos e"] inv by (simp add: decrementWeakRefs_def)
next
  case (Some i)
  from sp_inv_info [OF inv disjI2, of i]
  obtain b where b: "infos e i = Some b" "useCount b = of_nat (ns i)"
    "weakCount b = of_nat (nw i + 1 + (if 0 < ns i then 1 else 0))" "pointee b \<in> set (deleted e) \<longleftrightarrow> ns i = 0"
    by (auto simp: Some)
  let ?n = "nw i + (if 0 < ns i then 1 else 0)"
  let ?b = "b\<lparr>weakCount := weakCount b - 1\<rparr>"
  have n: "weakCount ?b = of_nat ?n" "weakCount ?b = 0 \<longleftrightarrow> ?n = 0"
    using b(3) small(2) [of i] of_nat_u64_eq_0 [of ?n] by auto
  let ?ob = "if ?n = 0 then None else Some ?b"
  have "info_ok (set (deleted e)) (ns i) (nw i) ?ob"
    using b n by (auto simp: info_ok_def)
  then have "sp_inv (set_info i ?ob e) ns nw"
    by (intro sp_inv_set_info [OF inv b(1)]) (auto simp: Some split: if_splits)
  then show ?thesis
    using that [of "if ?n = 0 then p\<lparr>sp_info := None\<rparr> else p" "(infos e)(i := ?ob)"] b(1) n(2)
    by (simp add: decrementWeakRefs_def Some with_info_def set_info_def Let_def split: if_splits)
qed

text \<open>The last shared pointer: the object goes, then the info block unless weak pointers remain.\<close>

definition drop_object :: "nat \<Rightarrow> info_block \<Rightarrow> sp_env \<Rightarrow> sp_env" where
  "drop_object i b e =
     (let W = (weak e)(WeakRefOf (pointee b) := None) in
      e\<lparr>infos := (infos e)(i := if refs W i = 0 then None
                                else Some (b\<lparr>useCount := 0, weakCount := of_nat (refs W i)\<rparr>)),
        deleted := pointee b # deleted e, weak := W\<rparr>)"

lemma decrementStrongRefs_last:
  assumes p: "sp_info p = Some i" and b: "infos e i = Some b" "useCount b = 1"
    "weakCount b = of_nat (refs (weak e) i + 1)"
    and self: "\<And>w. weak e (WeakRefOf (pointee b)) = Some w \<Longrightarrow> sp_info w = Some i"
    and fin: "finite (dom (weak e))" and small: "refs (weak e) i < 2 ^ 64 - 2"
  shows "\<exists>p'. decrementStrongRefs p e = Inr (p', drop_object i b e)"
proof -
  let ?W = "(weak e)(WeakRefOf (pointee b) := None)"
  have nz: "refs (weak e) i < 2 ^ 64" "refs ?W i < 2 ^ 64" "refs ?W i + 1 < 2 ^ 64" if "refs ?W i \<le> refs (weak e) i"
    using small that by linarith+
  show ?thesis
  proof (cases "weak e (WeakRefOf (pointee b))")
    case None
    then have W: "?W = weak e"
      by (simp add: fun_upd_idem)
    have "weakCount b - 1 = of_nat (refs (weak e) i)"
      using b(3) by simp
    then show ?thesis
      using p b None nz of_nat_u64_eq_0 [of "refs (weak e) i"] unfolding drop_object_def W
      by (simp add: decrementStrongRefs_def with_info_def set_info_def destroy_object_def Let_def)
  next
    case (Some w)
    then have w: "sp_info w = Some i"
      by (rule self)
    then have r: "refs (weak e) i = refs ?W i + 1"
      using refs_split [OF fin Some] by simp
    then have n: "refs ?W i < 2 ^ 64" "refs ?W i + 1 < 2 ^ 64"
      using nz by auto
    have c: "weakCount b - 1 = of_nat (refs ?W i + 1)" "weakCount b - 1 - 1 = of_nat (refs ?W i)"
      using b(3) r by simp_all
    have z: "(of_nat (refs ?W i + 1) :: u64) \<noteq> 0" "(of_nat (refs ?W i) :: u64) = 0 \<longleftrightarrow> refs ?W i = 0"
      using of_nat_u64_eq_0 [OF n(2)] of_nat_u64_eq_0 [OF n(1)] by auto
    have d: "decrementWeakRefs w (e\<lparr>infos := (infos e)(i \<mapsto> b\<lparr>useCount := 0\<rparr>), deleted := D\<rparr>)
      = Inr (w, e\<lparr>infos := (infos e)(i \<mapsto> b\<lparr>useCount := 0, weakCount := of_nat (refs ?W i + 1)\<rparr>), deleted := D\<rparr>)" for D
      using z(1) c(1) by (simp add: decrementWeakRefs_def w with_info_def set_info_def Let_def)
    show ?thesis
      using p b Some z(2) d unfolding drop_object_def
      by (simp add: decrementStrongRefs_def with_info_def set_info_def destroy_object_def Let_def)
  qed
qed

lemma decrementStrongRefs_inv:
  assumes inv: "sp_inv e (addref (sp_info p) ns) (refs (weak e))"
    and small: "\<And>i. ns i < 2 ^ 64 - 2" "\<And>i. refs (weak e) i < 2 ^ 64 - 2"
  obtains p' e' where "decrementStrongRefs p e = Inr (p', e')" "sp_inv e' ns (refs (weak e'))"
    "strong e' = strong e" "\<forall>w. weak e' (WeakVar w) = weak e (WeakVar w)"
proof (cases "sp_info p")
  case None
  then show ?thesis
    using that [of p e] inv by (simp add: decrementStrongRefs_def)
next
  case (Some i)
  from sp_inv_info [OF inv disjI1, of i]
  obtain b where b: "infos e i = Some b" "useCount b = of_nat (ns i + 1)"
    "weakCount b = of_nat (refs (weak e) i + 1)" "pointee b \<notin> set (deleted e)"
    by (auto simp: Some)
  have u: "useCount b - 1 = of_nat (ns i)"
    using b(2) by simp
  show ?thesis
  proof (cases "ns i = 0")
    case True
    let ?W = "(weak e)(WeakRefOf (pointee b) := None)"
    let ?ob = "if refs ?W i = 0 then None else Some (b\<lparr>useCount := 0, weakCount := of_nat (refs ?W i)\<rparr>)"
    have other: "refs ?W j = refs (weak e) j" if "j \<noteq> i" for j
    proof (cases "weak e (WeakRefOf (pointee b))")
      case (Some w)
      then show ?thesis
        using sp_invD(10) [OF inv b(1) Some] refs_split [OF sp_invD(2) [OF inv] Some] that by simp
    qed (simp add: fun_upd_idem)
    have "info_ok (insert (pointee b) (set (deleted e))) (ns i) (refs ?W i) ?ob"
      using True by (simp add: info_ok_def)
    then have inv': "sp_inv (drop_object i b e) ns (refs ?W)"
      unfolding drop_object_def Let_def using other Some
      by (intro sp_inv_delete [OF inv b(1) b(4)]) (auto split: if_splits)
    obtain p' where "decrementStrongRefs p e = Inr (p', drop_object i b e)"
      using decrementStrongRefs_last [OF Some b(1) _ b(3) sp_invD(10) [OF inv b(1)] sp_invD(2) [OF inv] small(2)]
        b(2) True by auto
    then show ?thesis
      using that inv' by (simp add: drop_object_def Let_def)
  next
    case False
    let ?b = "b\<lparr>useCount := useCount b - 1\<rparr>"
    have "ns i < 2 ^ 64"
      using small(1) [of i] by linarith
    then have nz: "useCount b - 1 \<noteq> 0"
      using False of_nat_u64_eq_0 [of "ns i"] u by simp
    have "info_ok (set (deleted e)) (ns i) (refs (weak e) i) (Some ?b)"
      using b u False by (auto simp: info_ok_def)
    then have "sp_inv (set_info i (Some ?b) e) ns (refs (weak e))"
      by (intro sp_inv_set_info [OF inv b(1)]) (auto simp: Some)
    then show ?thesis
      using that [of p "set_info i (Some ?b) e"] nz b(1) Some
      by (simp add: decrementStrongRefs_def with_info_def set_info_def Let_def)
  qed
qed

section \<open>Commands keep the invariant\<close>

lemma sp_inv_strong_upd:
  assumes "sp_inv e ns nw" "\<And>p. op = Some p \<Longrightarrow> ptr_ok (infos e) p"
  shows "sp_inv (e\<lparr>strong := (strong e)(v := op)\<rparr>) ns nw"
proof (rule sp_invI)
  have "dom ((strong e)(v := op)) \<subseteq> insert v (dom (strong e))"
    by auto
  then show "finite (dom (strong (e\<lparr>strong := (strong e)(v := op)\<rparr>)))"
    using finite_subset sp_invD(1) [OF assms(1)] by fastforce
qed (use sp_invD [OF assms(1)] assms(2) in \<open>auto split: if_splits\<close>)

lemma sp_inv_weak_upd:
  assumes "sp_inv e ns nw" "\<And>p. op = Some p \<Longrightarrow> ptr_ok (infos e) p"
  shows "sp_inv (e\<lparr>weak := (weak e)(WeakVar w := op)\<rparr>) ns nw"
proof (rule sp_invI)
  have "dom ((weak e)(WeakVar w := op)) \<subseteq> insert (WeakVar w) (dom (weak e))"
    by auto
  then show "finite (dom (weak (e\<lparr>weak := (weak e)(WeakVar w := op)\<rparr>)))"
    using finite_subset sp_invD(2) [OF assms(1)] by fastforce
qed (use sp_invD [OF assms(1)] assms(2) in \<open>auto split: if_splits\<close>)

lemma ptr_ok_null [simp]: "ptr_ok I null_ptr" "sp_info null_ptr = None"
  by (simp_all add: ptr_ok_def null_ptr_def)

text \<open>Counters do not wrap while there are fewer pointers than a counter can hold.\<close>

definition sp_room :: "sp_env \<Rightarrow> bool" where
  "sp_room e \<longleftrightarrow> card (dom (strong e)) + card (dom (weak e)) < 2 ^ 64 - 3"

lemma refs_remove_le:
  "finite (dom m) \<Longrightarrow> refs (m(v := None)) i \<le> card (dom m)"
  using refs_le_dom [of "m(v := None)" i] card_mono [of "dom m" "dom (m(v := None))"]
  by (simp add: dom_fun_upd)

lemma sp_ok_small:
  assumes "sp_ok e" "sp_room e"
  shows "refs (strong e) i < 2 ^ 64 - 2" "refs (weak e) i < 2 ^ 64 - 2"
    "refs ((strong e)(v := None)) i < 2 ^ 64 - 2" "refs ((weak e)(w := None)) i < 2 ^ 64 - 2"
proof -
  have fin: "finite (dom (strong e))" "finite (dom (weak e))"
    using assms(1) sp_invD(1,2) unfolding sp_ok_def by blast+
  show "refs (strong e) i < 2 ^ 64 - 2" "refs (weak e) i < 2 ^ 64 - 2"
    "refs ((strong e)(v := None)) i < 2 ^ 64 - 2" "refs ((weak e)(w := None)) i < 2 ^ 64 - 2"
    using refs_le_dom [OF fin(1), of i] refs_le_dom [OF fin(2), of i] refs_remove_le [OF fin(1), of v i]
      refs_remove_le [OF fin(2), of w i] assms(2) unfolding sp_room_def by linarith+
qed

lemma sp_ok_split_strong:
  assumes "sp_ok e" "strong e v = Some old"
  shows "sp_inv e (addref (sp_info old) (refs ((strong e)(v := None)))) (refs (weak e))"
proof -
  have "refs (strong e) = addref (sp_info old) (refs ((strong e)(v := None)))"
    using assms(1) unfolding sp_ok_def by (intro refs_split sp_invD(1) assms(2))
  then show ?thesis
    using assms(1) by (simp add: sp_ok_def)
qed

lemma sp_ok_split_weak:
  assumes "sp_ok e" "weak e w = Some old"
  shows "sp_inv e (refs (strong e)) (addref (sp_info old) (refs ((weak e)(w := None))))"
proof -
  have "refs (weak e) = addref (sp_info old) (refs ((weak e)(w := None)))"
    using assms(1) unfolding sp_ok_def by (intro refs_split sp_invD(2) assms(2))
  then show ?thesis
    using assms(1) by (simp add: sp_ok_def)
qed

lemma shared_copy_ok:
  assumes ok: "sp_ok e" and src: "strong e src = Some p" and v: "strong e v = None"
  shows "\<exists>e'. shared_copy v src e = Inr e' \<and> sp_ok e'"
proof -
  have inv: "sp_inv e (refs (strong e)) (refs (weak e))"
    using ok by (simp add: sp_ok_def)
  have "\<And>i. sp_info p = Some i \<Longrightarrow> 0 < refs (strong e) i"
    by (rule refs_pos [OF sp_invD(1) [OF inv] src])
  from incrementStrongRefs_inv [OF inv this]
  obtain I where I: "incrementStrongRefs p e = Inr (e\<lparr>infos := I\<rparr>)"
    "sp_inv (e\<lparr>infos := I\<rparr>) (addref (sp_info p) (refs (strong e))) (refs (weak e))"
    "\<forall>p. ptr_ok (infos e) p \<longrightarrow> ptr_ok I p" .
  have "sp_inv (e\<lparr>infos := I, strong := (strong e)(v \<mapsto> p)\<rparr>) (refs ((strong e)(v \<mapsto> p))) (refs (weak e))"
    using sp_inv_strong_upd [OF I(2), of "Some p" v] I(3) sp_invD(5) [OF inv src]
      refs_upd_fresh [OF sp_invD(1) [OF inv] v] by simp
  then show ?thesis
    using I(1) src by (simp add: shared_copy_def sp_ok_def)
qed

lemma shared_assign_ok:
  assumes ok: "sp_ok e" and room: "sp_room e" and v: "strong e v = Some old" and src: "strong e src = Some p"
  shows "\<exists>e'. shared_assign v src e = Inr e' \<and> sp_ok e'"
proof (cases "v = src")
  case True
  then show ?thesis
    using ok by (simp add: shared_assign_def)
next
  case False
  let ?S = "(strong e)(v := None)"
  have inv: "sp_inv e (addref (sp_info old) (refs ?S)) (refs (weak e))"
    by (rule sp_ok_split_strong [OF ok v])
  have fin: "finite (dom ?S)" "?S src = Some p"
    using sp_invD(1) [OF inv] src False by simp_all
  from decrementStrongRefs_inv [OF inv sp_ok_small(3,2) [OF ok room]]
  obtain p' e' where d: "decrementStrongRefs old e = Inr (p', e')" "sp_inv e' (refs ?S) (refs (weak e'))"
    "strong e' = strong e" "\<forall>w. weak e' (WeakVar w) = weak e (WeakVar w)" .
  from incrementStrongRefs_inv [OF d(2) refs_pos [OF fin]]
  obtain I where I: "incrementStrongRefs p e' = Inr (e'\<lparr>infos := I\<rparr>)"
    "sp_inv (e'\<lparr>infos := I\<rparr>) (addref (sp_info p) (refs ?S)) (refs (weak e'))"
    "\<forall>p. ptr_ok (infos e') p \<longrightarrow> ptr_ok I p" .
  have "sp_inv (e'\<lparr>infos := I, strong := (strong e')(v \<mapsto> p)\<rparr>) (refs ((strong e)(v \<mapsto> p))) (refs (weak e'))"
    using sp_inv_strong_upd [OF I(2), of "Some p" v] I(3) sp_invD(5) [OF d(2), of src p]
      refs_upd_Some [OF sp_invD(1) [OF inv], of v p] d(3) src by simp
  then show ?thesis
    using d I(1) src v False by (simp add: shared_assign_def sp_ok_def)
qed

lemma shared_drop_ok:
  assumes ok: "sp_ok e" and room: "sp_room e" and v: "strong e v = Some old"
  obtains p' e' where "decrementStrongRefs old e = Inr (p', e')"
    "sp_ok (e'\<lparr>strong := (strong e')(v := None)\<rparr>)" "sp_ok (e'\<lparr>strong := (strong e')(v \<mapsto> null_ptr)\<rparr>)"
proof -
  let ?S = "(strong e)(v := None)"
  have inv: "sp_inv e (addref (sp_info old) (refs ?S)) (refs (weak e))"
    by (rule sp_ok_split_strong [OF ok v])
  from decrementStrongRefs_inv [OF inv sp_ok_small(3,2) [OF ok room]]
  obtain p' e' where d: "decrementStrongRefs old e = Inr (p', e')" "sp_inv e' (refs ?S) (refs (weak e'))"
    "strong e' = strong e" "\<forall>w. weak e' (WeakVar w) = weak e (WeakVar w)" .
  have "refs ((strong e)(v \<mapsto> null_ptr)) = refs ?S"
    using refs_upd_Some [OF sp_invD(1) [OF inv], of v null_ptr] by simp
  then show ?thesis
    using that [OF d(1)] d(3) sp_inv_strong_upd [OF d(2), of None v] sp_inv_strong_upd [OF d(2), of "Some null_ptr" v]
    by (simp add: sp_ok_def)
qed

lemma weak_create_ok:
  assumes ok: "sp_ok e" and src: "strong e src = Some p" and w: "weak e (WeakVar w) = None"
  shows "\<exists>e'. weak_create w src e = Inr e' \<and> sp_ok e'"
proof -
  have inv: "sp_inv e (refs (strong e)) (refs (weak e))"
    using ok by (simp add: sp_ok_def)
  have "\<And>i. sp_info p = Some i \<Longrightarrow> 0 < refs (strong e) i \<or> 0 < refs (weak e) i"
    using refs_pos [OF sp_invD(1) [OF inv] src] by blast
  from incrementWeakRefs_inv [OF inv this]
  obtain I where I: "incrementWeakRefs p e = Inr (e\<lparr>infos := I\<rparr>)"
    "sp_inv (e\<lparr>infos := I\<rparr>) (refs (strong e)) (addref (sp_info p) (refs (weak e)))"
    "\<forall>p. ptr_ok (infos e) p \<longrightarrow> ptr_ok I p" .
  have "sp_inv (e\<lparr>infos := I, weak := (weak e)(WeakVar w \<mapsto> p)\<rparr>) (refs (strong e)) (refs ((weak e)(WeakVar w \<mapsto> p)))"
    using sp_inv_weak_upd [OF I(2), of "Some p" w] I(3) sp_invD(5) [OF inv src]
      refs_upd_fresh [OF sp_invD(2) [OF inv] w] by simp
  then show ?thesis
    using I(1) src by (simp add: weak_create_def sp_ok_def)
qed

lemma weak_assign_ok:
  assumes ok: "sp_ok e" and room: "sp_room e" and w: "weak e (WeakVar w) = Some old" and src: "weak e src = Some p"
  shows "\<exists>e'. weak_assign w src e = Inr e' \<and> sp_ok e'"
proof (cases "WeakVar w = src")
  case True
  then show ?thesis
    using ok by (simp add: weak_assign_def)
next
  case False
  let ?W = "(weak e)(WeakVar w := None)"
  have inv: "sp_inv e (refs (strong e)) (addref (sp_info old) (refs ?W))"
    by (rule sp_ok_split_weak [OF ok w])
  have fin: "finite (dom ?W)" "?W src = Some p"
    using sp_invD(2) [OF inv] src False by simp_all
  from decrementWeakRefs_inv [OF inv sp_ok_small(1,4) [OF ok room]]
  obtain p' I where d: "decrementWeakRefs old e = Inr (p', e\<lparr>infos := I\<rparr>)"
    "sp_inv (e\<lparr>infos := I\<rparr>) (refs (strong e)) (refs ?W)" .
  have "\<And>i. sp_info p = Some i \<Longrightarrow> 0 < refs (strong e) i \<or> 0 < refs ?W i"
    by (intro disjI2 refs_pos [OF fin])
  from incrementWeakRefs_inv [OF d(2) this]
  obtain J where J: "incrementWeakRefs p (e\<lparr>infos := I\<rparr>) = Inr (e\<lparr>infos := I\<rparr>\<lparr>infos := J\<rparr>)"
    "sp_inv (e\<lparr>infos := I\<rparr>\<lparr>infos := J\<rparr>) (refs (strong e)) (addref (sp_info p) (refs ?W))"
    "\<forall>p. ptr_ok (infos (e\<lparr>infos := I\<rparr>)) p \<longrightarrow> ptr_ok J p" .
  have "sp_inv (e\<lparr>infos := J, weak := (weak e)(WeakVar w \<mapsto> p)\<rparr>) (refs (strong e)) (refs ((weak e)(WeakVar w \<mapsto> p)))"
    using sp_inv_weak_upd [OF J(2), of "Some p" w] J(3) sp_invD(6) [OF d(2), of src p]
      refs_upd_Some [OF sp_invD(2) [OF inv], of "WeakVar w" p] src by simp
  then show ?thesis
    using d J(1) src w False by (simp add: weak_assign_def sp_ok_def)
qed

lemma weak_drop_ok:
  assumes ok: "sp_ok e" and room: "sp_room e" and w: "weak e (WeakVar w) = Some old"
  obtains p' e' where "decrementWeakRefs old e = Inr (p', e')"
    "sp_ok (e'\<lparr>weak := (weak e')(WeakVar w := None)\<rparr>)" "sp_ok (e'\<lparr>weak := (weak e')(WeakVar w \<mapsto> null_ptr)\<rparr>)"
proof -
  let ?W = "(weak e)(WeakVar w := None)"
  have inv: "sp_inv e (refs (strong e)) (addref (sp_info old) (refs ?W))"
    by (rule sp_ok_split_weak [OF ok w])
  from decrementWeakRefs_inv [OF inv sp_ok_small(1,4) [OF ok room]]
  obtain p' I where d: "decrementWeakRefs old e = Inr (p', e\<lparr>infos := I\<rparr>)"
    "sp_inv (e\<lparr>infos := I\<rparr>) (refs (strong e)) (refs ?W)" .
  have "refs ((weak e)(WeakVar w \<mapsto> null_ptr)) = refs ?W"
    using refs_upd_Some [OF sp_invD(2) [OF inv], of "WeakVar w" null_ptr] by simp
  then show ?thesis
    using that [OF d(1)] sp_inv_weak_upd [OF d(2), of None w] sp_inv_weak_upd [OF d(2), of "Some null_ptr" w]
    by (simp add: sp_ok_def)
qed

lemma weak_lock_cases:
  assumes ok: "sp_ok e" and room: "sp_room e" and src: "weak e src = Some w" and v: "strong e v = None"
  shows "\<exists>e'. weak_lock v src e = Inr e' \<and> sp_ok e' \<and> weak e' = weak e \<and> deleted e' = deleted e \<and>
           strong e' = (strong e)(v \<mapsto>
             (case sp_obj w of None \<Rightarrow> null_ptr | Some obj \<Rightarrow> if obj \<in> set (deleted e) then null_ptr else w))"
proof -
  have inv: "sp_inv e (refs (strong e)) (refs (weak e))"
    using ok by (simp add: sp_ok_def)
  have null: "sp_ok (e\<lparr>strong := (strong e)(v \<mapsto> null_ptr)\<rparr>)"
    using sp_inv_strong_upd [OF inv, of "Some null_ptr" v] refs_upd_fresh [OF sp_invD(1) [OF inv] v, of null_ptr]
    by (simp add: sp_ok_def)
  show ?thesis
  proof (cases "sp_info w")
    case None
    then have "sp_obj w = None"
      using sp_invD(6) [OF inv src] by (simp add: ptr_ok_def)
    then show ?thesis
      using None null src by (simp add: weak_lock_def)
  next
    case (Some i)
    from sp_inv_info [OF inv disjI2, OF refs_pos [OF sp_invD(2) [OF inv] src Some]]
    obtain b where b: "infos e i = Some b" "useCount b = of_nat (refs (strong e) i)"
      "pointee b \<in> set (deleted e) \<longleftrightarrow> refs (strong e) i = 0" .
    have obj: "sp_obj w = Some (pointee b)"
      using sp_invD(6) [OF inv src] b(1) Some by (simp add: ptr_ok_def)
    have "refs (strong e) i < 2 ^ 64"
      using sp_ok_small(1) [OF ok room, of i] by linarith
    then have z: "useCount b = 0 \<longleftrightarrow> refs (strong e) i = 0"
      using b(2) of_nat_u64_eq_0 by simp
    show ?thesis
    proof (cases "refs (strong e) i = 0")
      case True
      then show ?thesis
        using b z obj null src Some by (simp add: weak_lock_def with_info_def)
    next
      case False
      let ?b = "b\<lparr>useCount := useCount b + 1\<rparr>"
      have "\<And>j. sp_info w = Some j \<Longrightarrow> 0 < refs (strong e) j"
        using Some False by simp
      from incrementStrongRefs_inv [OF inv this]
      obtain I where I: "incrementStrongRefs w e = Inr (e\<lparr>infos := I\<rparr>)"
        "sp_inv (e\<lparr>infos := I\<rparr>) (addref (sp_info w) (refs (strong e))) (refs (weak e))"
        "\<forall>p. ptr_ok (infos e) p \<longrightarrow> ptr_ok I p" .
      have "set_info i (Some ?b) e = e\<lparr>infos := I\<rparr>"
        using I(1) b(1) Some by (simp add: incrementStrongRefs_def with_info_def)
      moreover have "sp_ok (e\<lparr>infos := I, strong := (strong e)(v \<mapsto> w)\<rparr>)"
        using sp_inv_strong_upd [OF I(2), of "Some w" v] I(3) sp_invD(6) [OF inv src]
          refs_upd_fresh [OF sp_invD(1) [OF inv] v, of w] by (simp add: sp_ok_def)
      ultimately show ?thesis
        using b z obj src Some False by (simp add: weak_lock_def with_info_def Let_def)
    qed
  qed
qed

text \<open>A new info block with one shared pointer and, for \<^verbatim>\<open>SharedFromThis\<close>, one weak reference.\<close>

lemma no_info_no_ptr:
  assumes "sp_ok e" "infos e i = None"
  shows "strong e v = Some q \<Longrightarrow> sp_info q \<noteq> Some i" "weak e w = Some q \<Longrightarrow> sp_info q \<noteq> Some i"
proof -
  have inv: "sp_inv e (refs (strong e)) (refs (weak e))"
    using assms(1) by (simp add: sp_ok_def)
  have z: "refs (strong e) i = 0" "refs (weak e) i = 0"
    using sp_invD(4) [OF inv, of i] assms(2) by (simp_all add: info_ok_def)
  show "strong e v = Some q \<Longrightarrow> sp_info q \<noteq> Some i"
    using refs_pos [OF sp_invD(1) [OF inv], of v q i] z by auto
  show "weak e w = Some q \<Longrightarrow> sp_info q \<noteq> Some i"
    using refs_pos [OF sp_invD(2) [OF inv], of w q i] z by auto
qed

lemma ptr_ok_add:
  "ptr_ok I p \<Longrightarrow> sp_info p \<noteq> Some i \<Longrightarrow> ptr_ok (I(i \<mapsto> b)) p"
  by (auto simp: ptr_ok_def split: option.splits)

lemma sp_ok_create:
  fixes e i obj v
  defines "p \<equiv> \<lparr>sp_info = Some i, sp_obj = Some obj\<rparr>"
  assumes ok: "sp_ok e" and i: "infos e i = None" and v: "strong e v = None" and obj: "obj \<notin> set (deleted e)"
    and fresh: "\<And>j b. infos e j = Some b \<Longrightarrow> pointee b \<noteq> obj"
    and W: "\<And>w q. W w = Some q \<Longrightarrow> weak e w = Some q \<or> q = p"
    and self: "\<And>o1 q. W (WeakRefOf o1) = Some q \<Longrightarrow> o1 = obj \<and> q = p \<or> o1 \<noteq> obj \<and> weak e (WeakRefOf o1) = Some q"
    and fin: "finite (dom W)" and k: "\<And>j. refs W j = (if j = i then k else refs (weak e) j)"
  shows "sp_ok (e\<lparr>infos := (infos e)(i \<mapsto> \<lparr>useCount = 1, weakCount = of_nat (k + 1), pointee = obj\<rparr>),
                  weak := W, strong := (strong e)(v \<mapsto> p)\<rparr>)" (is "sp_ok ?e")
proof -
  have inv: "sp_inv e (refs (strong e)) (refs (weak e))"
    using ok by (simp add: sp_ok_def)
  have z: "refs (strong e) i = 0"
    using sp_invD(4) [OF inv, of i] i by (simp add: info_ok_def)
  have p: "ptr_ok (infos ?e) p"
    by (simp add: ptr_ok_def p_def)
  have S: "refs (strong ?e) = (refs (strong e))(i := 1)"
    using refs_upd_fresh [OF sp_invD(1) [OF inv] v, of p] z by (simp add: p_def)
  have inf: "info_ok (set (deleted e)) (refs (strong ?e) j) (refs W j) (infos ?e j)" for j
    using sp_invD(4) [OF inv, of j] obj unfolding S k by (auto simp: info_ok_def)
  show ?thesis
    unfolding sp_ok_def
  proof (rule sp_invI)
    show "info_ok (set (deleted ?e)) (refs (strong ?e) j) (refs (weak ?e) j) (infos ?e j)" for j
      using inf [of j] by simp
    show "strong ?e u = Some q \<Longrightarrow> ptr_ok (infos ?e) q" for u q
      using p no_info_no_ptr(1) [OF ok i, of u q] sp_invD(5) [OF inv, of u q]
      by (auto split: if_splits intro: ptr_ok_add)
    show "weak ?e u = Some q \<Longrightarrow> ptr_ok (infos ?e) q" for u q
      using p no_info_no_ptr(2) [OF ok i, of u q] sp_invD(6) [OF inv, of u q] W [of u q]
      by (auto split: if_splits intro: ptr_ok_add)
    show "weak ?e (WeakRefOf o1) = Some q \<Longrightarrow> o1 \<notin> set (deleted ?e) \<and> (sp_obj q = None \<or> sp_obj q = Some o1)" for o1 q
      using self [of o1 q] sp_invD(7,8) [OF inv, of o1 q] obj by (auto simp: p_def)
    show "infos ?e j = Some b \<Longrightarrow> infos ?e m = Some c \<Longrightarrow> pointee b = pointee c \<Longrightarrow> j = m" for j m b c
      using fresh [of j b] fresh [of m c] sp_invD(9) [OF inv, of j b m c] by (auto split: if_splits)
    show "infos ?e j = Some b \<Longrightarrow> weak ?e (WeakRefOf (pointee b)) = Some q \<Longrightarrow> sp_info q = Some j" for j b q
      using fresh [of j b] self [of "pointee b" q] sp_invD(10) [OF inv, of j b q]
      by (auto simp: p_def split: if_splits)
  qed (use sp_invD(1,3) [OF inv] fin in simp_all)
qed

lemma shared_create_ok:
  assumes ok: "sp_ok e" and i: "infos e i = None" and v: "strong e v = None" and obj: "obj \<notin> set (deleted e)"
    and fresh: "\<And>j b. infos e j = Some b \<Longrightarrow> pointee b \<noteq> obj" and self: "weak e (WeakRefOf obj) = None"
  shows "\<exists>e'. shared_create i obj v e = Inr e' \<and> sp_ok e'"
proof -
  have inv: "sp_inv e (refs (strong e)) (refs (weak e))"
    using ok by (simp add: sp_ok_def)
  have "refs (weak e) i = 0"
    using sp_invD(4) [OF inv, of i] i by (simp add: info_ok_def)
  then have "sp_ok (e\<lparr>infos := (infos e)(i \<mapsto> \<lparr>useCount = 1, weakCount = of_nat (0 + 1), pointee = obj\<rparr>),
      weak := weak e, strong := (strong e)(v \<mapsto> \<lparr>sp_info = Some i, sp_obj = Some obj\<rparr>)\<rparr>)"
    using self by (intro sp_ok_create [OF ok i v obj fresh] sp_invD(2) [OF inv]) auto
  then show ?thesis
    by (simp add: shared_create_def new_info_def set_info_def)
qed

lemma shared_create_this_ok:
  assumes ok: "sp_ok e" and i: "infos e i = None" and v: "strong e v = None" and w: "weak e (WeakRefOf obj) = Some w"
  shows "\<exists>e'. shared_create_this i obj v e = Inr e' \<and> sp_ok e'"
proof (cases "sp_obj w = None")
  case True
  let ?p = "\<lparr>sp_info = Some i, sp_obj = Some obj\<rparr>"
  let ?W = "(weak e)(WeakRefOf obj \<mapsto> ?p)"
  have inv: "sp_inv e (refs (strong e)) (refs (weak e))"
    using ok by (simp add: sp_ok_def)
  have null: "sp_info w = None"
  proof (rule ccontr)
    assume "sp_info w \<noteq> None"
    then obtain j where j: "sp_info w = Some j" by blast
    from sp_inv_info [OF inv disjI2, OF refs_pos [OF sp_invD(2) [OF inv] w j]]
    obtain b where "infos e j = Some b" .
    then show False
      using sp_invD(6) [OF inv w] j True by (simp add: ptr_ok_def)
  qed
  have fresh: "pointee b \<noteq> obj" if "infos e j = Some b" for j b
    using sp_invD(10) [OF inv that] w null by auto
  have z: "refs (weak e) i = 0"
    using sp_invD(4) [OF inv, of i] i by (simp add: info_ok_def)
  have "refs ?W = (refs (weak e))(i := 1)"
    using refs_upd_Some [OF sp_invD(2) [OF inv], of "WeakRefOf obj" ?p] refs_split [OF sp_invD(2) [OF inv] w] null z
    by simp
  then have "sp_ok (e\<lparr>infos := (infos e)(i \<mapsto> \<lparr>useCount = 1, weakCount = of_nat (1 + 1), pointee = obj\<rparr>),
      weak := ?W, strong := (strong e)(v \<mapsto> ?p)\<rparr>)"
    using sp_invD(2) [OF inv]
    by (intro sp_ok_create [OF ok i v sp_invD(7) [OF inv w] fresh]) (auto split: if_splits)
  moreover have "shared_create_this i obj v e
      = Inr (e\<lparr>infos := (infos e)(i \<mapsto> \<lparr>useCount = 1, weakCount = of_nat (1 + 1), pointee = obj\<rparr>),
          weak := ?W, strong := (strong e)(v \<mapsto> ?p)\<rparr>)"
    using w True null
    by (simp add: shared_create_this_def new_info_def set_info_def incrementWeakRefs_def decrementWeakRefs_def
          with_info_def Let_def)
  ultimately show ?thesis
    by blast
next
  case False
  have inv: "sp_inv e (refs (strong e)) (refs (weak e))"
    using ok by (simp add: sp_ok_def)
  have live: "0 < refs (strong e) j" if j: "sp_info w = Some j" for j
  proof -
    from sp_inv_info [OF inv disjI2, OF refs_pos [OF sp_invD(2) [OF inv] w j]]
    obtain b where b: "infos e j = Some b" "pointee b \<in> set (deleted e) \<longleftrightarrow> refs (strong e) j = 0" .
    then show ?thesis
      using sp_invD(6,7,8) [OF inv w] j False by (auto simp: ptr_ok_def)
  qed
  from incrementStrongRefs_inv [OF inv live]
  obtain I where I: "incrementStrongRefs w e = Inr (e\<lparr>infos := I\<rparr>)"
    "sp_inv (e\<lparr>infos := I\<rparr>) (addref (sp_info w) (refs (strong e))) (refs (weak e))"
    "\<forall>p. ptr_ok (infos e) p \<longrightarrow> ptr_ok I p" .
  have "sp_ok (e\<lparr>infos := I, strong := (strong e)(v \<mapsto> w)\<rparr>)"
    using sp_inv_strong_upd [OF I(2), of "Some w" v] I(3) sp_invD(6) [OF inv w]
      refs_upd_fresh [OF sp_invD(1) [OF inv] v, of w] by (simp add: sp_ok_def)
  then show ?thesis
    using I(1) w False by (auto simp: shared_create_this_def)
qed

lemma drop_ok:
  assumes ok: "sp_ok e" and room: "sp_room e"
  shows "strong e v = Some p \<Longrightarrow> \<exists>e'. shared_assign_null v e = Inr e' \<and> sp_ok e'"
    and "strong e v = Some p \<Longrightarrow> \<exists>e'. shared_destruct v e = Inr e' \<and> sp_ok e'"
    and "weak e (WeakVar w) = Some p \<Longrightarrow> \<exists>e'. weak_assign_null w e = Inr e' \<and> sp_ok e'"
    and "weak e (WeakVar w) = Some p \<Longrightarrow> \<exists>e'. weak_destruct w e = Inr e' \<and> sp_ok e'"
proof -
  assume v: "strong e v = Some p"
  then obtain p' e' where d: "decrementStrongRefs p e = Inr (p', e')"
    "sp_ok (e'\<lparr>strong := (strong e')(v := None)\<rparr>)" "sp_ok (e'\<lparr>strong := (strong e')(v \<mapsto> null_ptr)\<rparr>)"
    by (rule shared_drop_ok [OF ok room])
  then show "\<exists>e'. shared_assign_null v e = Inr e' \<and> sp_ok e'" "\<exists>e'. shared_destruct v e = Inr e' \<and> sp_ok e'"
    using v by (simp_all add: shared_assign_null_def shared_destruct_def)
next
  assume w: "weak e (WeakVar w) = Some p"
  then obtain p' e' where d: "decrementWeakRefs p e = Inr (p', e')"
    "sp_ok (e'\<lparr>weak := (weak e')(WeakVar w := None)\<rparr>)" "sp_ok (e'\<lparr>weak := (weak e')(WeakVar w \<mapsto> null_ptr)\<rparr>)"
    by (rule weak_drop_ok [OF ok room])
  then show "\<exists>e'. weak_assign_null w e = Inr e' \<and> sp_ok e'" "\<exists>e'. weak_destruct w e = Inr e' \<and> sp_ok e'"
    using w by (simp_all add: weak_assign_null_def weak_destruct_def)
qed

section \<open>Programs that use pointers as the language allows\<close>

text \<open>
  A command names existing pointers where it reads or destroys one and a new variable where it
  constructs one; an object that is handed to a plain constructor is not owned yet.
\<close>

definition unowned :: "objid \<Rightarrow> sp_env \<Rightarrow> bool" where
  "unowned obj e \<longleftrightarrow> obj \<notin> set (deleted e) \<and> weak e (WeakRefOf obj) = None
     \<and> obj \<notin> pointee ` ran (infos e)"

fun sp_scoped :: "sp_cmd \<Rightarrow> sp_env \<Rightarrow> bool" where
  "sp_scoped (CreateObject obj) e \<longleftrightarrow> unowned obj e"
| "sp_scoped (SharedCreate i obj v) e \<longleftrightarrow> infos e i = None \<and> strong e v = None \<and> unowned obj e"
| "sp_scoped (SharedCreateThis i obj v) e \<longleftrightarrow>
     infos e i = None \<and> strong e v = None \<and> weak e (WeakRefOf obj) \<noteq> None"
| "sp_scoped (SharedCopy v src) e \<longleftrightarrow> strong e v = None \<and> strong e src \<noteq> None"
| "sp_scoped (SharedAssign v src) e \<longleftrightarrow> strong e v \<noteq> None \<and> strong e src \<noteq> None"
| "sp_scoped (SharedAssignNull v) e \<longleftrightarrow> strong e v \<noteq> None"
| "sp_scoped (SharedDestruct v) e \<longleftrightarrow> strong e v \<noteq> None"
| "sp_scoped (WeakCreate w src) e \<longleftrightarrow> weak e (WeakVar w) = None \<and> strong e src \<noteq> None"
| "sp_scoped (WeakAssign w src) e \<longleftrightarrow> weak e (WeakVar w) \<noteq> None \<and> weak e src \<noteq> None"
| "sp_scoped (WeakAssignNull w) e \<longleftrightarrow> weak e (WeakVar w) \<noteq> None"
| "sp_scoped (WeakDestruct w) e \<longleftrightarrow> weak e (WeakVar w) \<noteq> None"
| "sp_scoped (WeakLock v src) e \<longleftrightarrow> strong e v = None \<and> weak e src \<noteq> None"

inductive sp_reach :: "sp_env \<Rightarrow> bool" where
  sp_reach_start: "sp_reach sp_empty"
| sp_reach_step: "sp_reach e \<Longrightarrow> sp_room e \<Longrightarrow> sp_scoped c e \<Longrightarrow> sp_exec c e = Inr e' \<Longrightarrow> sp_reach e'"

lemma create_object_ok:
  assumes "sp_ok e" "unowned obj e"
  shows "sp_ok (e\<lparr>weak := (weak e)(WeakRefOf obj \<mapsto> null_ptr)\<rparr>)"
proof -
  have inv: "sp_inv e (refs (strong e)) (refs (weak e))"
    using assms(1) by (simp add: sp_ok_def)
  have "sp_obj null_ptr = None"
    by (simp add: null_ptr_def)
  then have "sp_inv (e\<lparr>weak := (weak e)(WeakRefOf obj \<mapsto> null_ptr)\<rparr>) (refs (strong e)) (refs (weak e))"
    using sp_invD [OF inv] assms(2)
    by (intro sp_invI) (auto simp: unowned_def ran_def split: if_splits)
  moreover have "refs ((weak e)(WeakRefOf obj \<mapsto> null_ptr)) = refs (weak e)"
    using refs_upd_fresh [OF sp_invD(2) [OF inv], of "WeakRefOf obj" null_ptr] assms(2)
    by (simp add: unowned_def)
  ultimately show ?thesis
    by (simp add: sp_ok_def)
qed

lemma sp_exec_ok:
  assumes ok: "sp_ok e" and room: "sp_room e" and sc: "sp_scoped c e"
  shows "\<exists>e'. sp_exec c e = Inr e' \<and> sp_ok e'"
proof (cases c)
  case (SharedCreate i obj v)
  then show ?thesis
    using sc shared_create_ok [OF ok, of i v obj] by (auto simp: unowned_def ran_def)
next
  case (WeakLock v src)
  then show ?thesis
    using sc weak_lock_cases [OF ok room, of src _ v] by auto
qed (use sc drop_ok [OF ok room] create_object_ok [OF ok] shared_create_this_ok [OF ok] shared_copy_ok [OF ok]
       shared_assign_ok [OF ok room] weak_create_ok [OF ok] weak_assign_ok [OF ok room] in auto)

lemma sp_reach_ok: "sp_reach e \<Longrightarrow> sp_ok e"
proof (induction rule: sp_reach.induct)
  case sp_reach_start
  show ?case
    by (simp add: sp_ok_def sp_inv_def sp_empty_def info_ok_def refs_def)
next
  case (sp_reach_step e c e')
  then show ?case
    using sp_exec_ok [of e c] by auto
qed

text \<open>An object that knows itself, owned by one shared pointer.\<close>

definition owned_env :: sp_env where
  "owned_env = (let p = \<lparr>sp_info = Some 0, sp_obj = Some 7\<rparr> in
     \<lparr>infos = [0 \<mapsto> \<lparr>useCount = 1, weakCount = 2, pointee = 7\<rparr>], strong = [0 \<mapsto> p],
      weak = [WeakRefOf 7 \<mapsto> p], deleted = []\<rparr>)"

lemma sp_reach_owned: "sp_reach owned_env"
proof -
  let ?e = "sp_empty\<lparr>weak := [WeakRefOf 7 \<mapsto> null_ptr]\<rparr>"
  have "sp_reach ?e"
    by (rule sp_reach_step [OF sp_reach_start, of "CreateObject 7"])
      (simp_all add: sp_room_def sp_empty_def unowned_def)
  then show ?thesis
    by (rule sp_reach_step [of _ "SharedCreateThis 0 7 0"])
      (simp_all add: sp_room_def sp_empty_def owned_env_def shared_create_this_def null_ptr_def new_info_def
        set_info_def incrementWeakRefs_def decrementWeakRefs_def with_info_def Let_def)
qed

lemma sp_room_owned: "sp_room owned_env"
  by (simp add: sp_room_def owned_env_def Let_def)

lemma sp_reach_counts:
  assumes "sp_reach e"
  shows "distinct (deleted e)"
    and "strong e v = Some p \<Longrightarrow> sp_obj p = Some obj \<Longrightarrow> obj \<notin> set (deleted e)"
    and "infos e i = Some b \<Longrightarrow> pointee b \<in> set (deleted e) \<longleftrightarrow> refs (strong e) i = 0"
    and "infos e i = Some b \<Longrightarrow> useCount b = of_nat (refs (strong e) i)
          \<and> weakCount b = of_nat (refs (weak e) i + (if pointee b \<in> set (deleted e) then 0 else 1))"
    and "infos e i = Some b \<Longrightarrow> \<exists>p. (p \<in> ran (strong e) \<or> p \<in> ran (weak e)) \<and> sp_info p = Some i"
proof -
  have inv: "sp_inv e (refs (strong e)) (refs (weak e))"
    using sp_reach_ok [OF assms] by (simp add: sp_ok_def)
  show "distinct (deleted e)"
    by (rule sp_invD(3) [OF inv])
  show "obj \<notin> set (deleted e)" if p: "strong e v = Some p" "sp_obj p = Some obj"
  proof (cases "sp_info p")
    case None
    then show ?thesis
      using sp_invD(5) [OF inv p(1)] p(2) by (simp add: ptr_ok_def)
  next
    case (Some j)
    have pos: "0 < refs (strong e) j"
      by (rule refs_pos [OF sp_invD(1) [OF inv] p(1) Some])
    from sp_inv_info [OF inv disjI1, OF this]
    obtain c where "infos e j = Some c" "pointee c \<in> set (deleted e) \<longleftrightarrow> refs (strong e) j = 0" .
    then show ?thesis
      using sp_invD(5) [OF inv p(1)] p(2) Some pos by (simp add: ptr_ok_def)
  qed
  assume b: "infos e i = Some b"
  then show del: "pointee b \<in> set (deleted e) \<longleftrightarrow> refs (strong e) i = 0"
    using sp_invD(4) [OF inv, of i] by (simp add: info_ok_def)
  show "useCount b = of_nat (refs (strong e) i)
          \<and> weakCount b = of_nat (refs (weak e) i + (if pointee b \<in> set (deleted e) then 0 else 1))"
    using sp_invD(4) [OF inv, of i] b del by (simp add: info_ok_def)
  have "0 < refs (strong e) i \<or> 0 < refs (weak e) i"
    using sp_invD(4) [OF inv, of i] b by (simp add: info_ok_def)
  then show "\<exists>p. (p \<in> ran (strong e) \<or> p \<in> ran (weak e)) \<and> sp_info p = Some i"
    by (metis refs_pos_ex ranI)
qed

section \<open>Properties\<close>





text \<open>
  C24: Locking a weak pointer succeeds exactly while the object lives: the shared pointer it
  returns refers to the object when the object was not deleted and is null otherwise, and
  locking changes no other pointer.
\<close>

theorem weak_lock_alive:
  assumes "sp_reach e" "sp_room e" "weak e src = Some w" "strong e v = None"
  shows "\<exists>e'. weak_lock v src e = Inr e' \<and> weak e' = weak e \<and> deleted e' = deleted e \<and>
           strong e' = (strong e)(v \<mapsto>
             (case sp_obj w of None \<Rightarrow> null_ptr | Some obj \<Rightarrow> if obj \<in> set (deleted e) then null_ptr else w))"
  using weak_lock_cases [OF sp_reach_ok [OF assms(1)] assms(2-4)] by blast

theorem weak_lock_alive_witness:
  "\<exists>e'. weak_lock 3 (WeakRefOf 7) owned_env = Inr e' \<and>
     strong e' 3 = Some \<lparr>sp_info = Some 0, sp_obj = Some 7\<rparr>"
  using weak_lock_alive [OF sp_reach_owned sp_room_owned, of "WeakRefOf 7" _ 3]
  by (auto simp: owned_env_def Let_def)


end
