(* ===== verification/Rw_Lock.thy ===== *)
theory Rw_Lock
  imports Kush_Prelude
begin

text \<open>
  The ticket based reader/writer lock, \<^verbatim>\<open>kernel/arch/x86_64/include/arch/rwlock.h\<close>. The lock is one
  32 bit word that is also accessed as bytes; every load, store and atomic instruction of the
  functions is a step of its own, so that threads interleave between them, and the non-atomic
  increments of the code are two steps. The theory shows mutual exclusion and progress for up to
  255 threads, and what the fourth byte of the word does to the functions that try to lock.
\<close>

section \<open>The lock word\<close>

text \<open>The union: the bytes \<^verbatim>\<open>write\<close>, \<^verbatim>\<open>read\<close>, \<^verbatim>\<open>users\<close> and one of padding, lowest first.\<close>

type_synonym rwlock = "32 word"

definition RWLOCK_INIT :: rwlock where
  "RWLOCK_INIT = 0"

definition s_write :: "rwlock \<Rightarrow> u8" where
  "s_write l = of_nat (unat l mod 256)"

definition s_read :: "rwlock \<Rightarrow> u8" where
  "s_read l = of_nat (unat l div 256 mod 256)"

definition s_users :: "rwlock \<Rightarrow> u8" where
  "s_users l = of_nat (unat l div 65536 mod 256)"

definition set_write :: "u8 \<Rightarrow> rwlock \<Rightarrow> rwlock" where
  "set_write b l = of_nat (unat l div 256 * 256 + unat b)"

definition set_read :: "u8 \<Rightarrow> rwlock \<Rightarrow> rwlock" where
  "set_read b l = of_nat (unat l div 65536 * 65536 + unat b * 256 + unat l mod 256)"

text \<open>A store to the member \<^verbatim>\<open>us\<close>, the low half of the word.\<close>

definition set_us :: "rwlock \<Rightarrow> rwlock \<Rightarrow> rwlock" where
  "set_us t l = of_nat (unat l div 65536 * 65536 + unat t mod 65536)"

section \<open>Operations\<close>

text \<open>Taking a ticket: the atomic addition and the value it returns, shifted down to a byte.\<close>

definition rwlock_ticket :: "rwlock \<Rightarrow> u8 \<times> rwlock" where
  "rwlock_ticket l = (of_nat (unat l div 65536 mod 256), l + 65536)"

text \<open>The new low half that \<^verbatim>\<open>wrunlock\<close> computes in its local copy.\<close>

definition wrunlock_copy :: "rwlock \<Rightarrow> rwlock" where
  "wrunlock_copy t = set_read (s_read t + 1) (set_write (s_write t + 1) t)"

definition cmpxchg :: "rwlock \<Rightarrow> rwlock \<Rightarrow> rwlock \<Rightarrow> rwlock \<times> rwlock" where
  "cmpxchg l cmp new = (l, if l = cmp then new else l)"

definition wrtrylock_cmp :: "u8 \<Rightarrow> u8 \<Rightarrow> rwlock \<times> rwlock" where
  "wrtrylock_cmp me rd =
     (let menew = me + 1; rd8 = of_nat (unat rd * 256) in
      (of_nat (unat me * 65536) + rd8 + of_nat (unat me),
       of_nat (unat menew * 65536) + rd8 + of_nat (unat me)))"

definition rdtrylock_cmp :: "u8 \<Rightarrow> u8 \<Rightarrow> rwlock \<times> rwlock" where
  "rdtrylock_cmp me wr =
     (let menew = me + 1 in
      (of_nat (unat me * 65536) + of_nat (unat me * 256) + of_nat (unat wr),
       of_nat (unat menew * 65536) + of_nat (unat menew * 256) + of_nat (unat wr)))"

text \<open>The functions, run without interference; waiting for ever is \<open>None\<close>.\<close>

definition amd64_rwlock_wrlock :: "rwlock \<Rightarrow> rwlock option" where
  "amd64_rwlock_wrlock l = (let (val, l) = rwlock_ticket l in if val = s_write l then Some l else None)"

definition amd64_rwlock_wrunlock :: "rwlock \<Rightarrow> rwlock" where
  "amd64_rwlock_wrunlock l = set_us (wrunlock_copy l) l"

definition amd64_rwlock_wrtrylock :: "rwlock \<Rightarrow> nat \<times> rwlock" where
  "amd64_rwlock_wrtrylock l =
     (let (cmp, cmpnew) = wrtrylock_cmp (s_users l) (s_read l); (old, l) = cmpxchg l cmp cmpnew
      in if old = cmp then (0, l) else (1, l))"

definition amd64_rwlock_rdlock :: "rwlock \<Rightarrow> rwlock option" where
  "amd64_rwlock_rdlock l = (let (val, l) = rwlock_ticket l in
     if val = s_read l then Some (set_read (s_read l + 1) l) else None)"

definition amd64_rwlock_rdunlock :: "rwlock \<Rightarrow> rwlock" where
  "amd64_rwlock_rdunlock l = set_write (s_write l + 1) l"

definition amd64_rwlock_rdtrylock :: "rwlock \<Rightarrow> nat \<times> rwlock" where
  "amd64_rwlock_rdtrylock l =
     (let (cmp, cmpnew) = rdtrylock_cmp (s_users l) (s_write l); (old, l) = cmpxchg l cmp cmpnew
      in if old = cmp then (0, l) else (1, l))"

text \<open>The guard class: its constructor takes the lock, its destructor releases it.\<close>

definition RwLockGuard_init :: "bool \<Rightarrow> rwlock \<Rightarrow> rwlock option" where
  "RwLockGuard_init writer l = (if writer then amd64_rwlock_wrlock l else amd64_rwlock_rdlock l)"

definition RwLockGuard_drop :: "bool \<Rightarrow> rwlock \<Rightarrow> rwlock" where
  "RwLockGuard_drop writer l = (if writer then amd64_rwlock_wrunlock l else amd64_rwlock_rdunlock l)"

section \<open>Threads\<close>

text \<open>Where a thread is, with the local variables it needs there.\<close>

datatype rw_pc =
    RwIdle
  | WrSpin u8
  | WrHeld
  | WrUnlock rwlock
  | RdSpin u8
  | RdPassed
  | RdIncr u8
  | RdHeld
  | WrTry u8
  | WrTryCas u8 u8
  | RdTry u8
  | RdTryCas u8 u8

type_synonym rw_state = "rwlock \<times> (nat \<Rightarrow> rw_pc)"

text \<open>
  The steps of a thread; the transitions that only repeat a spin loop are left out. The guard
  class only calls the lock and unlock functions.
\<close>

inductive rw_step :: "nat \<Rightarrow> rw_state \<Rightarrow> rw_state \<Rightarrow> bool" where
  wrlock_ticket: "pc t = RwIdle \<Longrightarrow> rwlock_ticket l = (val, l') \<Longrightarrow> rw_step t (l, pc) (l', pc(t := WrSpin val))"
| wrlock_enter: "pc t = WrSpin val \<Longrightarrow> val = s_write l \<Longrightarrow> rw_step t (l, pc) (l, pc(t := WrHeld))"
| wrunlock_load: "pc t = WrHeld \<Longrightarrow> rw_step t (l, pc) (l, pc(t := WrUnlock (wrunlock_copy l)))"
| wrunlock_store: "pc t = WrUnlock c \<Longrightarrow> rw_step t (l, pc) (set_us c l, pc(t := RwIdle))"
| rdlock_ticket: "pc t = RwIdle \<Longrightarrow> rwlock_ticket l = (val, l') \<Longrightarrow> rw_step t (l, pc) (l', pc(t := RdSpin val))"
| rdlock_pass: "pc t = RdSpin val \<Longrightarrow> val = s_read l \<Longrightarrow> rw_step t (l, pc) (l, pc(t := RdPassed))"
| rdlock_load: "pc t = RdPassed \<Longrightarrow> rw_step t (l, pc) (l, pc(t := RdIncr (s_read l)))"
| rdlock_store: "pc t = RdIncr v \<Longrightarrow> rw_step t (l, pc) (set_read (v + 1) l, pc(t := RdHeld))"
| rdunlock_inc: "pc t = RdHeld \<Longrightarrow> rw_step t (l, pc) (set_write (s_write l + 1) l, pc(t := RwIdle))"
| wrtry_users: "pc t = RwIdle \<Longrightarrow> rw_step t (l, pc) (l, pc(t := WrTry (s_users l)))"
| wrtry_read: "pc t = WrTry me \<Longrightarrow> rw_step t (l, pc) (l, pc(t := WrTryCas me (s_read l)))"
| wrtry_cas: "pc t = WrTryCas me rd \<Longrightarrow> wrtrylock_cmp me rd = (cmp, new) \<Longrightarrow> cmpxchg l cmp new = (old, l')
    \<Longrightarrow> rw_step t (l, pc) (l', pc(t := if old = cmp then WrHeld else RwIdle))"
| rdtry_users: "pc t = RwIdle \<Longrightarrow> rw_step t (l, pc) (l, pc(t := RdTry (s_users l)))"
| rdtry_write: "pc t = RdTry me \<Longrightarrow> rw_step t (l, pc) (l, pc(t := RdTryCas me (s_write l)))"
| rdtry_cas: "pc t = RdTryCas me wr \<Longrightarrow> rdtrylock_cmp me wr = (cmp, new) \<Longrightarrow> cmpxchg l cmp new = (old, l')
    \<Longrightarrow> rw_step t (l, pc) (l', pc(t := if old = cmp then RdHeld else RwIdle))"

inductive_cases rw_stepE: "rw_step t s s'"

inductive rw_reach :: "nat set \<Rightarrow> rw_state \<Rightarrow> bool" for T where
  rw_reach_start: "rw_reach T (RWLOCK_INIT, \<lambda>_. RwIdle)"
| rw_reach_step: "rw_reach T s \<Longrightarrow> t \<in> T \<Longrightarrow> rw_step t s s' \<Longrightarrow> rw_reach T s'"

section \<open>Arithmetic of the lock word\<close>

definition rw_word :: "nat \<Rightarrow> nat \<Rightarrow> nat \<Rightarrow> rwlock" where
  "rw_word w r x = of_nat (w mod 256 + r mod 256 * 256 + x mod 65536 * 65536)"

lemma unat_of_nat_u32: "n < 2 ^ 32 \<Longrightarrow> unat (of_nat n :: 32 word) = n"
  by (simp add: unat_of_nat take_bit_nat_eq_self)

lemma unat_u8_less: "unat (b :: u8) < 256"
  using unsigned_less [of b] by simp

lemma unat_rw_word: "unat (rw_word w r x) = w mod 256 + r mod 256 * 256 + x mod 65536 * 65536"
proof -
  have "w mod 256 < 256" "r mod 256 < 256" "x mod 65536 < 65536"
    by simp_all
  moreover have "(2 :: nat) ^ 32 = 4294967296"
    by simp
  ultimately have "w mod 256 + r mod 256 * 256 + x mod 65536 * 65536 < 2 ^ 32"
    by linarith
  then show ?thesis
    unfolding rw_word_def by (rule unat_of_nat_u32)
qed

lemma rw_word_parts:
  "unat (rw_word w r x) mod 256 = w mod 256" "unat (rw_word w r x) div 256 mod 256 = r mod 256"
  "unat (rw_word w r x) div 256 = r mod 256 + x mod 65536 * 256"
  "unat (rw_word w r x) div 65536 = x mod 65536"
proof -
  have b: "w mod 256 < 256" "r mod 256 < 256"
    by simp_all
  have u: "unat (rw_word w r x) = w mod 256 + 256 * (r mod 256 + 256 * (x mod 65536))"
    by (simp add: unat_rw_word)
  show "unat (rw_word w r x) mod 256 = w mod 256" "unat (rw_word w r x) div 256 = r mod 256 + x mod 65536 * 256"
    unfolding u mod_mult_self2 using b(1) by (simp_all add: div_mult_self2)
  then show "unat (rw_word w r x) div 256 mod 256 = r mod 256"
    by simp
  have "unat (rw_word w r x) div 65536 = unat (rw_word w r x) div 256 div 256"
    by (simp flip: div_mult2_eq)
  also have "\<dots> = (r mod 256 + 256 * (x mod 65536)) div 256"
    using b(1) by (simp add: u)
  also have "\<dots> = x mod 65536"
    using b(2) by simp
  finally show "unat (rw_word w r x) div 65536 = x mod 65536" .
qed

lemma of_nat_u8: "(of_nat (n mod 256) :: u8) = of_nat n"
  by (simp add: word_of_nat_eq_iff take_bit_eq_mod)

lemma unat_of_nat_u8: "unat (of_nat n :: u8) = n mod 256"
  by (simp add: unat_of_nat take_bit_eq_mod)

lemma rw_word_fields [simp]:
  "s_write (rw_word w r x) = of_nat w" "s_read (rw_word w r x) = of_nat r" "s_users (rw_word w r x) = of_nat x"
  by (simp_all add: s_write_def s_read_def s_users_def rw_word_parts of_nat_u8 mod_mod_cancel)

lemma rw_word_stores [simp]:
  "set_write (of_nat b) (rw_word w r x) = rw_word b r x"
  "set_read (of_nat b) (rw_word w r x) = rw_word w b x"
  "set_us (rw_word w' r' x') (rw_word w r x) = rw_word w' r' x"
proof -
  show "set_write (of_nat b) (rw_word w r x) = rw_word b r x"
    by (simp only: set_write_def rw_word_parts unat_of_nat_u8) (simp add: rw_word_def algebra_simps)
  show "set_read (of_nat b) (rw_word w r x) = rw_word w b x"
    by (simp only: set_read_def rw_word_parts unat_of_nat_u8) (simp add: rw_word_def algebra_simps)
  have "w' mod 256 + r' mod 256 * 256 < 65536"
    using mod_less_divisor [of 256 w'] mod_less_divisor [of 256 r'] by linarith
  then have "unat (rw_word w' r' x') mod 65536 = w' mod 256 + r' mod 256 * 256"
    by (simp add: unat_rw_word)
  then show "set_us (rw_word w' r' x') (rw_word w r x) = rw_word w' r' x"
    by (simp only: set_us_def rw_word_parts) (simp add: rw_word_def algebra_simps)
qed

lemma rw_word_xadd: "rw_word w r x + 65536 = rw_word w r (x + 1)"
proof -
  let ?a = "w mod 256 + r mod 256 * 256"
  have l: "rw_word w r x + 65536 = of_nat (?a + (x mod 65536 + 1) * 65536)"
    by (simp add: rw_word_def algebra_simps)
  show ?thesis
  proof (cases "x mod 65536 = 65535")
    case True
    then have "(x + 1) mod 65536 = 0"
      by (simp add: mod_Suc)
    then have "rw_word w r (x + 1) = of_nat ?a"
      by (simp add: rw_word_def)
    moreover have "(of_nat (?a + 2 ^ 32) :: rwlock) = of_nat ?a"
      by (simp add: word_of_nat_eq_iff take_bit_eq_mod)
    ultimately show ?thesis
      using True by (simp add: l)
  next
    case False
    then have "(x + 1) mod 65536 = x mod 65536 + 1"
      by (simp add: mod_Suc)
    then show ?thesis
      by (simp only: l rw_word_def [of w r "x + 1"])
  qed
qed

lemma rwlock_ticket_word [simp]: "rwlock_ticket (rw_word w r x) = (of_nat x, rw_word w r (x + 1))"
  by (simp add: rwlock_ticket_def rw_word_parts rw_word_xadd of_nat_u8 mod_mod_cancel)

lemma wrunlock_copy_word [simp]: "wrunlock_copy (rw_word w r x) = rw_word (w + 1) (r + 1) x"
  using rw_word_stores(1) [of "w + 1" w r x] rw_word_stores(2) [of "r + 1" "w + 1" r x]
  by (simp add: wrunlock_copy_def add.commute)

lemma wrtrylock_cmp_word:
  "wrtrylock_cmp me rd = (rw_word (unat me) (unat rd) (unat me), rw_word (unat me) (unat rd) (unat (me + 1)))"
proof -
  have "unat b mod 256 = unat b" "unat b mod 65536 = unat b" for b :: u8
    using unat_u8_less [of b] by simp_all
  then show ?thesis
    by (simp add: wrtrylock_cmp_def rw_word_def Let_def add_ac)
qed

lemma rdtrylock_cmp_word:
  "rdtrylock_cmp me wr = (rw_word (unat wr) (unat me) (unat me), rw_word (unat wr) (unat (me + 1)) (unat (me + 1)))"
proof -
  have "unat b mod 256 = unat b" "unat b mod 65536 = unat b" for b :: u8
    using unat_u8_less [of b] by simp_all
  then show ?thesis
    by (simp add: rdtrylock_cmp_def rw_word_def Let_def add_ac)
qed

lemma rw_word_eq_iff:
  "rw_word w r x = rw_word w' r' x' \<longleftrightarrow> w mod 256 = w' mod 256 \<and> r mod 256 = r' mod 256 \<and> x mod 65536 = x' mod 65536"
proof
  assume "rw_word w r x = rw_word w' r' x'"
  then have "unat (rw_word w r x) = unat (rw_word w' r' x')"
    by simp
  then show "w mod 256 = w' mod 256 \<and> r mod 256 = r' mod 256 \<and> x mod 65536 = x' mod 65536"
    by (metis rw_word_parts(1,2,4))
qed (simp add: rw_word_def)

section \<open>Invariant\<close>

text \<open>
  Tickets without wrap-around: \<open>W\<close> tickets were released, \<open>R\<close> passed, \<open>U\<close> given out. The threads
  that have a ticket and did not pass hold exactly the tickets from \<open>R\<close> to \<open>U\<close>, and the readers
  inside account for the difference of \<open>R\<close> and \<open>W\<close>.
\<close>

fun rw_ticketed :: "rw_pc \<Rightarrow> bool" where
  "rw_ticketed (WrSpin v) = True"
| "rw_ticketed WrHeld = True"
| "rw_ticketed (WrUnlock c) = True"
| "rw_ticketed (RdSpin v) = True"
| "rw_ticketed RdPassed = True"
| "rw_ticketed (RdIncr v) = True"
| "rw_ticketed p = False"

fun rw_pc_ok :: "nat \<Rightarrow> nat \<Rightarrow> nat \<Rightarrow> rw_pc \<Rightarrow> bool" where
  "rw_pc_ok W R k (WrSpin v) \<longleftrightarrow> v = of_nat k"
| "rw_pc_ok W R k (RdSpin v) \<longleftrightarrow> v = of_nat k"
| "rw_pc_ok W R k RdPassed \<longleftrightarrow> k = R"
| "rw_pc_ok W R k (RdIncr v) \<longleftrightarrow> k = R \<and> v = of_nat R"
| "rw_pc_ok W R k WrHeld \<longleftrightarrow> k = R \<and> W = R"
| "rw_pc_ok W R k (WrUnlock c) \<longleftrightarrow> k = R \<and> W = R \<and> (\<exists>y. c = rw_word (W + 1) (R + 1) y)"
| "rw_pc_ok W R k p \<longleftrightarrow> True"

definition rw_inv :: "nat set \<Rightarrow> nat \<Rightarrow> nat \<Rightarrow> nat \<Rightarrow> nat \<Rightarrow> (nat \<Rightarrow> nat) \<Rightarrow> rw_state \<Rightarrow> bool" where
  "rw_inv T W R U x tk s \<longleftrightarrow>
     fst s = rw_word W R x \<and> x mod 256 = U mod 256 \<and> W \<le> R \<and> R \<le> U \<and>
     (\<forall>t. t \<notin> T \<longrightarrow> snd s t = RwIdle) \<and>
     bij_betw tk {t. rw_ticketed (snd s t)} {R..<U} \<and>
     card {t. snd s t = RdHeld} = R - W \<and>
     (\<forall>t. rw_pc_ok W R (tk t) (snd s t))"

lemma rw_inv_bound:
  assumes inv: "rw_inv T W R U x tk s" and T: "finite T" "card T \<le> 255"
  shows "U - W \<le> 255"
proof -
  let ?A = "{t. rw_ticketed (snd s t)}" and ?H = "{t. snd s t = RdHeld}"
  have sub: "?A \<union> ?H \<subseteq> T"
    using inv by (force simp: rw_inv_def)
  then have fin: "finite ?A" "finite ?H"
    using T(1) finite_subset by blast+
  have "card ?A = U - R" "card ?H = R - W" "W \<le> R" "R \<le> U"
    using inv bij_betw_same_card [of tk ?A "{R..<U}"] by (simp_all add: rw_inv_def)
  moreover have "card (?A \<union> ?H) = card ?A + card ?H"
    using fin by (intro card_Un_disjoint) auto
  moreover have "card (?A \<union> ?H) \<le> card T"
    by (rule card_mono [OF T(1) sub])
  ultimately show ?thesis
    using T(2) by linarith
qed

lemma of_nat_u8_eq_iff: "(of_nat m :: u8) = of_nat n \<longleftrightarrow> m mod 256 = n mod 256"
  by (simp add: word_of_nat_eq_iff take_bit_eq_mod)

lemma mod_256_close: "m mod 256 = n mod 256 \<Longrightarrow> n \<le> m \<Longrightarrow> m - n \<le> 255 \<Longrightarrow> m = (n :: nat)"
  using nat_dvd_not_less [of "m - n" 256] mod_eq_dvd_iff_nat [of n m 256] by (cases "m = n") auto

text \<open>Which ticket a spinning thread sees: comparing bytes compares the tickets.\<close>

lemma rw_inv_spin:
  assumes inv: "rw_inv T W R U x tk s" and T: "finite T" "card T \<le> 255" and t: "rw_ticketed (snd s t)"
  shows "(of_nat (tk t) :: u8) = of_nat W \<longleftrightarrow> tk t = W \<and> R = W"
    and "(of_nat (tk t) :: u8) = of_nat R \<longleftrightarrow> tk t = R"
proof -
  have "tk t \<in> {R..<U}"
    using inv t bij_betwE [of tk "{t. rw_ticketed (snd s t)}" "{R..<U}"] by (simp add: rw_inv_def)
  moreover have "W \<le> R" "U - W \<le> 255"
    using inv rw_inv_bound [OF inv T] by (simp_all add: rw_inv_def)
  ultimately have "R \<le> tk t" "W \<le> R" "tk t - W \<le> 255" "tk t - R \<le> 255"
    by auto
  then show "(of_nat (tk t) :: u8) = of_nat W \<longleftrightarrow> tk t = W \<and> R = W"
    "(of_nat (tk t) :: u8) = of_nat R \<longleftrightarrow> tk t = R"
    using mod_256_close [of "tk t" W] mod_256_close [of "tk t" R] by (auto simp: of_nat_u8_eq_iff)
qed

lemma ticketed_upd:
  "{u. rw_ticketed ((pc(t := p)) u)}
     = (if rw_ticketed p then insert t {u. rw_ticketed (pc u)} else {u. rw_ticketed (pc u)} - {t})"
  by auto

lemma held_upd:
  "{u. (pc(t := p)) u = RdHeld} = (if p = RdHeld then insert t {u. pc u = RdHeld} else {u. pc u = RdHeld} - {t})"
  by auto

text \<open>A thread moves on with or without a ticket, and the tickets stay what they are.\<close>

lemma rw_inv_same:
  assumes inv: "rw_inv T W R U x tk (l, pc)" and t: "t \<in> T" "rw_ticketed p = rw_ticketed (pc t)"
    "p \<noteq> RdHeld" "pc t \<noteq> RdHeld" "rw_pc_ok W R (tk t) p"
  shows "rw_inv T W R U x tk (l, pc(t := p))"
proof -
  have "{u. rw_ticketed ((pc(t := p)) u)} = {u. rw_ticketed (pc u)}"
    "{u. (pc(t := p)) u = RdHeld} = {u. pc u = RdHeld}"
    using t by auto
  then show ?thesis
    using inv t unfolding rw_inv_def by auto
qed

text \<open>A new ticket.\<close>

lemma rw_inv_ticket:
  assumes inv: "rw_inv T W R U x tk (l, pc)" and t: "t \<in> T" "\<not> rw_ticketed (pc t)" "pc t \<noteq> RdHeld"
    and p: "rw_ticketed p" "rw_pc_ok W R U p" and y: "y mod 256 = (U + 1) mod 256"
  shows "rw_inv T W R (U + 1) y (tk(t := U)) (rw_word W R y, pc(t := p))"
proof -
  let ?A = "{u. rw_ticketed (pc u)}"
  have bij: "bij_betw tk ?A {R..<U}" and le: "R \<le> U"
    using inv by (simp_all add: rw_inv_def)
  have "bij_betw (tk(t := U)) ?A {R..<U}"
    using bij t(2) by (subst bij_betw_cong [of _ _ tk]) auto
  then have "bij_betw (tk(t := U)) (insert t ?A) (insert U {R..<U})"
    using notIn_Un_bij_betw [of t ?A "tk(t := U)" "{R..<U}"] t(2) by simp
  moreover have "insert U {R..<U} = {R..<U + 1}"
    using le by auto
  moreover have "{u. (pc(t := p)) u = RdHeld} = {u. pc u = RdHeld}"
    using t p by auto
  moreover have "{u. rw_ticketed ((pc(t := p)) u)} = insert t ?A"
    using p(1) by auto
  ultimately show ?thesis
    using inv t p y unfolding rw_inv_def by (simp del: fun_upd_apply) (simp add: fun_upd_apply)
qed

text \<open>The thread with the next ticket gives it up, as a reader that enters or a writer that leaves.\<close>

lemma rw_inv_pass:
  assumes inv: "rw_inv T W R U x tk (l, pc)" and t: "rw_ticketed (pc t)" "tk t = R"
  shows "bij_betw tk ({u. rw_ticketed (pc u)} - {t}) {R + 1..<U}" "R + 1 \<le> U"
proof -
  let ?A = "{u. rw_ticketed (pc u)}"
  have bij: "bij_betw tk ?A {R..<U}"
    using inv by (simp add: rw_inv_def)
  then have "tk t \<in> {R..<U}"
    using bij_betwE t(1) by blast
  then show "R + 1 \<le> U"
    using t(2) by simp
  have "bij_betw tk (?A - {t}) ({R..<U} - {tk t})"
    using bij t(1) unfolding bij_betw_def inj_on_def by blast
  moreover have "{R..<U} - {tk t} = {R + 1..<U}"
    using t(2) by auto
  ultimately show "bij_betw tk (?A - {t}) {R + 1..<U}"
    by simp
qed

text \<open>Only one thread can be at the front.\<close>

lemma rw_inv_front:
  assumes inv: "rw_inv T W R U x tk (l, pc)" and "rw_ticketed (pc t)" "rw_ticketed (pc u)" "tk t = tk u"
  shows "t = u"
  using assms bij_betw_imp_inj_on [of tk "{u. rw_ticketed (pc u)}" "{R..<U}"]
  by (auto simp: rw_inv_def inj_on_def)

lemma rw_invD:
  assumes "rw_inv T W R U x tk (l, pc)"
  shows "l = rw_word W R x" "x mod 256 = U mod 256" "W \<le> R" "R \<le> U" "t \<notin> T \<Longrightarrow> pc t = RwIdle"
    "bij_betw tk {t. rw_ticketed (pc t)} {R..<U}" "card {t. pc t = RdHeld} = R - W" "rw_pc_ok W R (tk t) (pc t)"
  using assms by (simp_all add: rw_inv_def)

lemma rw_inv_held_finite:
  assumes "rw_inv T W R U x tk (l, pc)" "finite T"
  shows "finite {t. pc t = RdHeld}"
proof (rule finite_subset [OF _ assms(2)])
  show "{t. pc t = RdHeld} \<subseteq> T"
    using assms(1) by (force simp: rw_inv_def)
qed

lemma rw_pc_ok_other:
  assumes "rw_pc_ok W R k p" "rw_ticketed p \<Longrightarrow> k \<noteq> R"
  shows "rw_pc_ok W' R' k p"
  using assms by (cases p) auto

lemma rw_inv_others:
  assumes inv: "rw_inv T W R U x tk (l, pc)" and "rw_ticketed (pc t)" "tk t = R" "u \<noteq> t"
  shows "rw_pc_ok W' R' (tk u) (pc u)"
  using rw_inv_front [OF inv assms(2), of u] assms(3,4) by (intro rw_pc_ok_other [OF rw_invD(8) [OF inv]]) auto

lemma rw_inv_reader_enters:
  assumes inv: "rw_inv T W R U x tk (l, pc)" and T: "finite T" and t: "t \<in> T" "pc t = RdIncr v"
  shows "rw_inv T W (R + 1) U x tk (set_read (v + 1) l, pc(t := RdHeld))"
proof -
  have k: "tk t = R" "v = of_nat R" "rw_ticketed (pc t)" and l: "l = rw_word W R x" and le: "W \<le> R"
    and c: "card {u. pc u = RdHeld} = R - W"
    using rw_invD [OF inv] rw_invD(8) [OF inv, of t] t(2) by simp_all
  have "card (insert t {u. pc u = RdHeld}) = R + 1 - W"
    using rw_inv_held_finite [OF inv T] t(2) c le by simp
  moreover have "rw_pc_ok W (R + 1) (tk u) ((pc(t := RdHeld)) u)" for u
    using rw_inv_others [OF inv k(3,1)] by simp
  moreover have "v + 1 = of_nat (R + 1)"
    using k(2) by simp
  ultimately show ?thesis
    using inv rw_inv_pass [OF inv k(3,1)] t l le unfolding rw_inv_def
    by (simp add: ticketed_upd held_upd del: fun_upd_apply of_nat_add of_nat_Suc) (simp add: fun_upd_apply)
qed

lemma rw_inv_writer_leaves:
  assumes inv: "rw_inv T W R U x tk (l, pc)" and t: "t \<in> T" "pc t = WrUnlock c"
  shows "rw_inv T (W + 1) (R + 1) U x tk (set_us c l, pc(t := RwIdle))"
proof -
  obtain y where k: "tk t = R" "W = R" "c = rw_word (W + 1) (R + 1) y" "rw_ticketed (pc t)"
    and l: "l = rw_word W R x" and c: "card {u. pc u = RdHeld} = R - W"
    using rw_invD(1,7) [OF inv] rw_invD(8) [OF inv, of t] t(2) by auto
  have "{u. pc u = RdHeld} - {t} = {u. pc u = RdHeld}"
    using t(2) by auto
  moreover have "rw_pc_ok (W + 1) (R + 1) (tk u) ((pc(t := RwIdle)) u)" for u
    using rw_inv_others [OF inv k(4,1)] by simp
  ultimately show ?thesis
    using inv rw_inv_pass [OF inv k(4,1)] t l k(2,3) c unfolding rw_inv_def
    by (simp add: ticketed_upd held_upd del: fun_upd_apply of_nat_add of_nat_Suc) (simp add: fun_upd_apply)
qed

lemma rw_inv_reader_leaves:
  assumes inv: "rw_inv T W R U x tk (l, pc)" and T: "finite T" and t: "t \<in> T" "pc t = RdHeld"
  shows "rw_inv T (W + 1) R U x tk (set_write (s_write l + 1) l, pc(t := RwIdle))"
proof -
  have l: "l = rw_word W R x" and c: "card {u. pc u = RdHeld} = R - W"
    using inv by (auto simp: rw_inv_def)
  have fin: "finite {u. pc u = RdHeld}" "t \<in> {u. pc u = RdHeld}"
    using rw_inv_held_finite [OF inv T] t(2) by simp_all
  then have "0 < card {u. pc u = RdHeld}"
    using card_gt_0_iff by blast
  then have W: "W < R" "card ({u. pc u = RdHeld} - {t}) = R - (W + 1)"
    using c fin by simp_all
  have "rw_pc_ok (W + 1) R (tk u) ((pc(t := RwIdle)) u)" for u
    using rw_invD(8) [OF inv, of u] W(1) by (cases "pc u") auto
  moreover have "s_write l + 1 = of_nat (W + 1)"
    by (simp add: l)
  moreover have "{u. rw_ticketed (pc u)} - {t} = {u. rw_ticketed (pc u)}"
    using t(2) by auto
  ultimately show ?thesis
    using inv t l W unfolding rw_inv_def
    by (simp add: ticketed_upd held_upd del: fun_upd_apply of_nat_add of_nat_Suc) (simp add: fun_upd_apply)
qed

text \<open>A successful compare and exchange sees a lock without waiting threads.\<close>

lemma unat_u8_succ: "unat (b + 1 :: u8) mod 256 = (unat b + 1) mod 256"
  by (simp add: unat_word_ariths(1))

lemma mod_256_of_65536: "x mod 65536 = y mod 65536 \<Longrightarrow> x mod 256 = y mod (256 :: nat)"
  using mod_mod_cancel [of 256 65536 x] mod_mod_cancel [of 256 65536 y] by simp

lemma mod_256_succ: "a mod 256 = unat b mod 256 \<Longrightarrow> unat (b + 1 :: u8) mod 256 = (a + 1) mod 256"
  unfolding unat_u8_succ by (rule mod_add_cong) simp_all

lemma rw_inv_wrtry:
  assumes inv: "rw_inv T W R U x tk (l, pc)" and T: "finite T" "card T \<le> 255" and t: "t \<in> T" "pc t = WrTryCas me rd"
    and cas: "l = fst (wrtrylock_cmp me rd)"
  shows "rw_inv T W R (U + 1) (unat (me + 1)) (tk(t := U)) (snd (wrtrylock_cmp me rd), pc(t := WrHeld))"
proof -
  have eq: "W mod 256 = unat me mod 256" "R mod 256 = unat rd mod 256" "x mod 65536 = unat me mod 65536"
    using cas rw_invD(1) [OF inv] by (simp_all add: wrtrylock_cmp_word rw_word_eq_iff)
  have "x mod 256 = unat me mod 256"
    by (rule mod_256_of_65536 [OF eq(3)])
  then have "U mod 256 = W mod 256"
    using eq(1) rw_invD(2) [OF inv] by simp
  then have U: "U = W" "R = W"
    using mod_256_close [of U W] rw_inv_bound [OF inv T] rw_invD(3,4) [OF inv] by auto
  have "unat (me + 1) mod 256 = (U + 1) mod 256"
    using mod_256_succ [OF eq(1)] U by simp
  then have "rw_inv T W R (U + 1) (unat (me + 1)) (tk(t := U)) (rw_word W R (unat (me + 1)), pc(t := WrHeld))"
    using U t by (intro rw_inv_ticket [OF inv]) auto
  moreover have "rw_word (unat me) (unat rd) (unat (me + 1)) = rw_word W R (unat (me + 1))"
    using eq by (simp add: rw_word_eq_iff)
  ultimately show ?thesis
    by (simp add: wrtrylock_cmp_word)
qed

lemma rw_inv_rdtry:
  assumes inv: "rw_inv T W R U x tk (l, pc)" and T: "finite T" "card T \<le> 255" and t: "t \<in> T" "pc t = RdTryCas me wr"
    and cas: "l = fst (rdtrylock_cmp me wr)"
  shows "rw_inv T W (R + 1) (U + 1) (unat (me + 1)) tk (snd (rdtrylock_cmp me wr), pc(t := RdHeld))"
proof -
  have eq: "W mod 256 = unat wr mod 256" "R mod 256 = unat me mod 256" "x mod 65536 = unat me mod 65536"
    using cas rw_invD(1) [OF inv] by (simp_all add: rdtrylock_cmp_word rw_word_eq_iff)
  have "x mod 256 = unat me mod 256"
    by (rule mod_256_of_65536 [OF eq(3)])
  then have "U mod 256 = R mod 256"
    using eq(2) rw_invD(2) [OF inv] by simp
  then have U: "U = R"
    using mod_256_close [of U R] rw_inv_bound [OF inv T] rw_invD(3,4) [OF inv] by auto
  then have none: "\<not> rw_ticketed (pc u)" for u
    using bij_betw_empty1 [of tk] rw_invD(6) [OF inv] by (auto simp: bij_betw_def)
  have m: "unat (me + 1) mod 256 = (R + 1) mod 256"
    by (rule mod_256_succ [OF eq(2)])
  have "card (insert t {u. pc u = RdHeld}) = R + 1 - W"
    using rw_inv_held_finite [OF inv T(1)] t(2) rw_invD(3,7) [OF inv] by simp
  moreover have "rw_pc_ok W (R + 1) (tk u) ((pc(t := RdHeld)) u)" for u
    using none [of u] by (cases "pc u") auto
  moreover have "{u. rw_ticketed ((pc(t := RdHeld)) u)} = {}"
    using none by auto
  ultimately have "rw_inv T W (R + 1) (U + 1) (unat (me + 1)) tk (rw_word W (R + 1) (unat (me + 1)), pc(t := RdHeld))"
    using rw_invD(3,5) [OF inv] U m t(1) unfolding rw_inv_def
    by (simp add: held_upd del: fun_upd_apply) (simp add: fun_upd_apply bij_betw_def)
  moreover have "rw_word (unat wr) (unat (me + 1)) (unat (me + 1)) = rw_word W (R + 1) (unat (me + 1))"
    using eq(1) m by (simp add: rw_word_eq_iff)
  ultimately show ?thesis
    by (simp add: rdtrylock_cmp_word)
qed

lemma rw_inv_take:
  assumes inv: "rw_inv T W R U x tk (l, pc)" and t: "t \<in> T" "pc t = RwIdle"
    and tick: "rwlock_ticket l = (val, l')" and p: "p = WrSpin val \<or> p = RdSpin val"
  shows "rw_inv T W R (U + 1) (x + 1) (tk(t := U)) (l', pc(t := p))"
proof -
  have v: "val = of_nat U" "l' = rw_word W R (x + 1)"
    using tick rw_invD(1,2) [OF inv] by (auto simp: of_nat_u8_eq_iff)
  have "(x + 1) mod 256 = (U + 1) mod 256"
    using rw_invD(2) [OF inv] by (rule mod_add_cong) simp
  then show ?thesis
    unfolding v(2) using t p v(1) by (intro rw_inv_ticket [OF inv]) auto
qed

lemma rw_step_inv:
  assumes step: "rw_step t s s'" and inv: "rw_inv T W R U x tk s" and T: "finite T" "card T \<le> 255" and t: "t \<in> T"
  shows "\<exists>W R U x tk. rw_inv T W R U x tk s'"
  using step
proof cases
  case (wrlock_ticket pc l val l')
  then show ?thesis
    using rw_inv_take [of T W R U x tk l pc t val l' "WrSpin val"] inv t by blast
next
  case (rdlock_ticket pc l val l')
  then show ?thesis
    using rw_inv_take [of T W R U x tk l pc t val l' "RdSpin val"] inv t by blast
next
  case (wrlock_enter pc val l)
  then have "tk t = W \<and> R = W"
    using rw_inv_spin(1) [OF inv T, of t] rw_invD(1,8) [of T W R U x tk l pc] inv
    by (metis rw_pc_ok.simps(1) rw_ticketed.simps(1) rw_word_fields(1) snd_conv)
  then have "rw_inv T W R U x tk s'"
    using rw_inv_same [of T W R U x tk l pc t WrHeld] wrlock_enter inv t by auto
  then show ?thesis
    by blast
next
  case (rdlock_pass pc val l)
  then have "tk t = R"
    using rw_inv_spin(2) [OF inv T, of t] rw_invD(1,8) [of T W R U x tk l pc] inv
    by (metis rw_pc_ok.simps(2) rw_ticketed.simps(4) rw_word_fields(2) snd_conv)
  then have "rw_inv T W R U x tk s'"
    using rw_inv_same [of T W R U x tk l pc t RdPassed] rdlock_pass inv t by auto
  then show ?thesis
    by blast
next
  case (wrunlock_load pc l)
  then have "rw_inv T W R U x tk s'"
    using rw_inv_same [of T W R U x tk l pc t "WrUnlock (wrunlock_copy l)"] inv t
      rw_invD(1) [of T W R U x tk l pc] rw_invD(8) [of T W R U x tk l pc t] by auto
  then show ?thesis
    by blast
next
  case (wrunlock_store pc c l)
  then show ?thesis
    using rw_inv_writer_leaves [of T W R U x tk l pc t c] inv t by blast
next
  case (rdlock_load pc l)
  then have "rw_inv T W R U x tk s'"
    using rw_inv_same [of T W R U x tk l pc t "RdIncr (s_read l)"] inv t
      rw_invD(1) [of T W R U x tk l pc] rw_invD(8) [of T W R U x tk l pc t] by auto
  then show ?thesis
    by blast
next
  case (rdlock_store pc v l)
  then show ?thesis
    using rw_inv_reader_enters [of T W R U x tk l pc t v] inv t T by blast
next
  case (rdunlock_inc pc l)
  then show ?thesis
    using rw_inv_reader_leaves [of T W R U x tk l pc t] inv t T by blast
next
  case (wrtry_cas pc me rd cmp new l old l')
  then have "rw_inv T W R (U + 1) (unat (me + 1)) (tk(t := U)) s' \<or> rw_inv T W R U x tk s'"
    using rw_inv_wrtry [of T W R U x tk l pc t me rd] rw_inv_same [of T W R U x tk l pc t RwIdle] inv t T
    by (auto simp: cmpxchg_def split: if_splits)
  then show ?thesis
    by blast
next
  case (rdtry_cas pc me wr cmp new l old l')
  then have "rw_inv T W (R + 1) (U + 1) (unat (me + 1)) tk s' \<or> rw_inv T W R U x tk s'"
    using rw_inv_rdtry [of T W R U x tk l pc t me wr] rw_inv_same [of T W R U x tk l pc t RwIdle] inv t T
    by (auto simp: cmpxchg_def split: if_splits)
  then show ?thesis
    by blast
next
  case (wrtry_users pc l)
  then have "rw_inv T W R U x tk s'"
    using rw_inv_same [of T W R U x tk l pc t "WrTry (s_users l)"] inv t by simp
  then show ?thesis
    by blast
next
  case (wrtry_read pc me l)
  then have "rw_inv T W R U x tk s'"
    using rw_inv_same [of T W R U x tk l pc t "WrTryCas me (s_read l)"] inv t by simp
  then show ?thesis
    by blast
next
  case (rdtry_users pc l)
  then have "rw_inv T W R U x tk s'"
    using rw_inv_same [of T W R U x tk l pc t "RdTry (s_users l)"] inv t by simp
  then show ?thesis
    by blast
next
  case (rdtry_write pc me l)
  then have "rw_inv T W R U x tk s'"
    using rw_inv_same [of T W R U x tk l pc t "RdTryCas me (s_write l)"] inv t by simp
  then show ?thesis
    by blast
qed

lemma rw_reach_inv:
  assumes T: "finite T" "card T \<le> 255"
  shows "rw_reach T s \<Longrightarrow> \<exists>W R U x tk. rw_inv T W R U x tk s"
proof (induction rule: rw_reach.induct)
  case rw_reach_start
  have "rw_inv T 0 0 0 0 tk (RWLOCK_INIT, \<lambda>_. RwIdle)" for tk
    by (simp add: rw_inv_def rw_word_def RWLOCK_INIT_def bij_betw_def)
  then show ?case
    by blast
next
  case (rw_reach_step s t s')
  then show ?case
    using rw_step_inv [of t s s'] T by blast
qed

text \<open>Only a thread in a spin loop can be unable to move.\<close>

lemma rw_step_not_spinning:
  assumes "pc t \<noteq> RwIdle" "\<And>v. pc t \<noteq> WrSpin v" "\<And>v. pc t \<noteq> RdSpin v"
  shows "\<exists>s'. rw_step t (l, pc) s'"
proof (cases "pc t")
  case (WrTryCas me rd)
  then show ?thesis
    using rw_step.wrtry_cas [of pc t me rd "fst (wrtrylock_cmp me rd)" "snd (wrtrylock_cmp me rd)" l]
    by (metis prod.collapse)
next
  case (RdTryCas me wr)
  then show ?thesis
    using rw_step.rdtry_cas [of pc t me wr "fst (rdtrylock_cmp me wr)" "snd (rdtrylock_cmp me wr)" l]
    by (metis prod.collapse)
qed (use assms wrunlock_load [of pc t l] wrunlock_store [of pc t _ l] rdlock_load [of pc t l] rdlock_store [of pc t _ l]
       rdunlock_inc [of pc t l] wrtry_read [of pc t _ l] rdtry_write [of pc t _ l] in blast)+

lemma rw_inv_front_steps:
  assumes inv: "rw_inv T W R U x tk (l, pc)" and T: "finite T" and t: "rw_ticketed (pc t)"
  shows "\<exists>u s'. pc u \<noteq> RwIdle \<and> rw_step u (l, pc) s'"
proof -
  have "tk t \<in> {R..<U}"
    using bij_betwE [OF rw_invD(6) [OF inv]] t by blast
  then have "R \<in> tk ` {u. rw_ticketed (pc u)}"
    using bij_betw_imp_surj_on [OF rw_invD(6) [OF inv]] by simp
  then obtain u where u: "rw_ticketed (pc u)" "tk u = R"
    by blast
  have ok: "rw_pc_ok W R R (pc u)"
    using rw_invD(8) [OF inv, of u] u(2) by simp
  have l: "s_write l = of_nat W" "s_read l = of_nat R"
    using rw_invD(1) [OF inv] by simp_all
  have "pc u \<noteq> RwIdle"
    using u(1) by auto
  moreover have "\<exists>w s'. pc w \<noteq> RwIdle \<and> rw_step w (l, pc) s'" if v: "pc u = WrSpin v" for v
  proof (cases "W = R")
    case True
    then have "rw_step u (l, pc) (l, pc(u := WrHeld))"
      using v ok l by (intro rw_step.wrlock_enter) auto
    then show ?thesis
      using \<open>pc u \<noteq> RwIdle\<close> by blast
  next
    case False
    then have "card {u. pc u = RdHeld} \<noteq> 0"
      using rw_invD(3,7) [OF inv] by simp
    then have "{u. pc u = RdHeld} \<noteq> {}"
      by force
    then obtain h where "pc h = RdHeld"
      by blast
    then have "rw_step h (l, pc) (set_write (s_write l + 1) l, pc(h := RwIdle))" "pc h \<noteq> RwIdle"
      by (auto intro: rw_step.rdunlock_inc)
    then show ?thesis
      by blast
  qed
  moreover have "\<exists>s'. rw_step u (l, pc) s'" if v: "pc u = RdSpin v" for v
    using v ok l rw_step.rdlock_pass [of pc u v l] by auto
  ultimately show ?thesis
    using rw_step_not_spinning [of pc u l] by blast
qed

definition writer_waits :: "nat \<Rightarrow> rw_pc" where
  "writer_waits = (\<lambda>_. RwIdle)(0 := WrSpin 0)"

lemma rw_reach_writer:
  "rw_reach {0, 1} (65536, writer_waits)" "rw_reach {0, 1} (65536, writer_waits(0 := WrHeld))"
proof -
  have "rw_step 0 (RWLOCK_INIT, \<lambda>_. RwIdle) (65536, writer_waits)"
    unfolding writer_waits_def by (rule wrlock_ticket) (simp_all add: RWLOCK_INIT_def rwlock_ticket_def)
  from rw_reach_step [OF rw_reach_start _ this]
  show reach: "rw_reach {0, 1} (65536, writer_waits)"
    by simp
  have "rw_step 0 (65536, writer_waits) (65536, writer_waits(0 := WrHeld))"
    by (rule wrlock_enter) (simp_all add: writer_waits_def s_write_def)
  from rw_reach_step [OF reach _ this]
  show "rw_reach {0, 1} (65536, writer_waits(0 := WrHeld))"
    by simp
qed

section \<open>Properties\<close>

text \<open>A writer owns the lock from entering until its unlocking store.\<close>

fun rw_writing :: "rw_pc \<Rightarrow> bool" where
  "rw_writing WrHeld = True"
| "rw_writing (WrUnlock c) = True"
| "rw_writing p = False"

text \<open>
  C26: With at most 255 threads, whatever the interleaving of their loads, stores and atomic
  instructions, a thread that holds the lock as a writer excludes every other writer and every
  reader, although the tickets are bytes that wrap around.
\<close>

theorem rwlock_mutual_exclusion:
  assumes "rw_reach T (l, pc)" "finite T" "card T \<le> 255" "rw_writing (pc t)" "u \<noteq> t"
  shows "\<not> rw_writing (pc u) \<and> pc u \<noteq> RdHeld"
proof -
  obtain W R U x tk where inv: "rw_inv T W R U x tk (l, pc)"
    using rw_reach_inv [OF assms(2,3,1)] by blast
  have t: "rw_ticketed (pc t)" "tk t = R" "W = R"
    using assms(4) rw_invD(8) [OF inv, of t] by (cases "pc t"; simp)+
  have "{v. pc v = RdHeld} = {}"
    using rw_invD(7) [OF inv] t(3) rw_inv_held_finite [OF inv assms(2)] by simp
  moreover have "\<not> rw_writing (pc u)"
  proof
    assume "rw_writing (pc u)"
    then have "rw_ticketed (pc u)" "tk u = R"
      using rw_invD(8) [OF inv, of u] by (cases "pc u"; simp)+
    then show False
      using rw_inv_front [OF inv t(1)] t(2) assms(5) by auto
  qed
  ultimately show ?thesis
    by blast
qed

theorem rwlock_mutual_exclusion_witness:
  "\<exists>l pc. rw_reach {0, 1} (l, pc) \<and> pc 0 = WrHeld \<and> \<not> rw_writing (pc 1) \<and> pc 1 \<noteq> RdHeld"
proof -
  have "\<not> rw_writing ((writer_waits(0 := WrHeld)) 1) \<and> (writer_waits(0 := WrHeld)) 1 \<noteq> RdHeld"
    using rwlock_mutual_exclusion [OF rw_reach_writer(2), of 0 1] by simp
  then show ?thesis
    using rw_reach_writer(2) by (intro exI [of _ 65536] exI [of _ "writer_waits(0 := WrHeld)"]) simp
qed



text \<open>The lock after \<open>n\<close> writers took and released it one after the other.\<close>

definition rwlock_used :: "nat \<Rightarrow> rwlock" where
  "rwlock_used n = ((\<lambda>l. amd64_rwlock_wrunlock (the (amd64_rwlock_wrlock l))) ^^ n) RWLOCK_INIT"

lemma wrlock_free: "amd64_rwlock_wrlock (rw_word n n n) = Some (rw_word n n (n + 1))"
  by (simp add: amd64_rwlock_wrlock_def)

lemma rwlock_used_word: "rwlock_used n = rw_word n n n"
proof (induction n)
  case (Suc n)
  have "rwlock_used (Suc n) = amd64_rwlock_wrunlock (the (amd64_rwlock_wrlock (rwlock_used n)))"
    by (simp add: rwlock_used_def)
  then show ?case
    by (simp add: Suc wrlock_free amd64_rwlock_wrunlock_def del: of_nat_Suc)
qed (simp add: rwlock_used_def rw_word_def RWLOCK_INIT_def)

lemma guard_releases:
  "map_option (RwLockGuard_drop writer) (RwLockGuard_init writer (rw_word n n n)) = Some (rw_word (n + 1) (n + 1) (n + 1))"
  using rw_word_stores(2) [of "n + 1" n n "n + 1"] rw_word_stores(1) [of "n + 1" n "n + 1" "n + 1"]
  by (simp add: RwLockGuard_init_def RwLockGuard_drop_def wrlock_free amd64_rwlock_wrunlock_def amd64_rwlock_rdlock_def
        amd64_rwlock_rdunlock_def add.commute)

text \<open>
  C28: The functions that try to lock fail on a free lock once 256 tickets were given out. The
  ticket counter carries into the padding byte of the word, which the value they compare with
  does not have: after \<open>n\<close> lock and unlock pairs nobody holds the lock and locking succeeds, but
  trying to lock as a writer or as a reader succeeds only when \<open>n\<close> modulo \<open>2 ^ 16\<close> is below 256.
\<close>

theorem rwlock_trylock_fails_when_free:
  "amd64_rwlock_wrlock (rwlock_used n) \<noteq> None \<and>
   (fst (amd64_rwlock_wrtrylock (rwlock_used n)) = 0 \<longleftrightarrow> n mod 2 ^ 16 < 256) \<and>
   (fst (amd64_rwlock_rdtrylock (rwlock_used n)) = 0 \<longleftrightarrow> n mod 2 ^ 16 < 256)"
proof -
  have "n mod 65536 = n mod 256 \<longleftrightarrow> n mod 65536 < 256"
  proof
    show "n mod 65536 < 256" if "n mod 65536 = n mod 256"
      using that by simp
    show "n mod 65536 = n mod 256" if "n mod 65536 < 256"
      using that mod_mod_cancel [of 256 65536 n] by simp
  qed
  then have "n mod 65536 = n mod 256 mod 65536 \<longleftrightarrow> n mod 65536 < 256"
    by simp
  then show ?thesis
    by (simp add: rwlock_used_word wrlock_free amd64_rwlock_wrtrylock_def amd64_rwlock_rdtrylock_def
        wrtrylock_cmp_word rdtrylock_cmp_word cmpxchg_def rw_word_eq_iff unat_of_nat_u8)
qed

end
