(* ===== verification/Rt_BST.thy ===== *)
theory Rt_BST
  imports Kush_Prelude "HOL-Library.Tree"
begin

text \<open>
  The binary search tree \<^verbatim>\<open>kernel/src/runtime/BinarySearchTree.h\<close>. Nodes live in a heap and refer
  to their parent and children by address; the functions follow those pointers exactly as the
  code does, so that a null pointer, a freed node and an endless recursion are values of the
  model. The theory relates heaps to trees of addresses, and shows what the searches and the
  descent of an insertion do on them; the operations as a whole are the subject of
  \<open>Rt_BST_Ops\<close>.

  Leaf classes supply the key, the pointers and an assignment operator that copies key and
  payload, as \<^verbatim>\<open>MapTreeLeaf\<close> does; the colour is only used by the red-black tree. The address
  of an inserted leaf is an argument.
\<close>

section \<open>State\<close>

datatype rb_color = RBNone | Red | Black

record 'v leaf =
  lf_key :: u64
  lf_val :: 'v
  lf_color :: rb_color
  lf_parent :: "addr option"
  lf_left :: "addr option"
  lf_right :: "addr option"

type_synonym 'v leaf_heap = "addr \<rightharpoonup> 'v leaf"

record 'v bst =
  nodes :: "'v leaf_heap"
  root :: "addr option"

definition bst_empty :: "'v bst \<Rightarrow> bool" where
  "bst_empty b = (root b = None)"

definition put_leaf :: "addr option \<Rightarrow> ('v leaf \<Rightarrow> 'v leaf) \<Rightarrow> 'v bst \<Rightarrow> 'v bst outcome" where
  "put_leaf p f b = obind (deref (nodes b) p) (\<lambda>n. Inr (b\<lparr>nodes := (nodes b)(the p \<mapsto> f n)\<rparr>))"

definition delete_leaf :: "addr option \<Rightarrow> 'v bst \<Rightarrow> 'v bst outcome" where
  "delete_leaf p b = obind (deref (nodes b) p) (\<lambda>_. Inr (b\<lparr>nodes := (nodes b)(the p := None)\<rparr>))"

text \<open>What a parameter of type \<^verbatim>\<open>Leaf* &\<close> refers to.\<close>

datatype slot = RootSlot | LeftOf addr | RightOf addr

fun read_slot :: "slot \<Rightarrow> 'v bst \<Rightarrow> addr option outcome" where
  "read_slot RootSlot b = Inr (root b)"
| "read_slot (LeftOf a) b = obind (deref (nodes b) (Some a)) (\<lambda>n. Inr (lf_left n))"
| "read_slot (RightOf a) b = obind (deref (nodes b) (Some a)) (\<lambda>n. Inr (lf_right n))"

fun write_slot :: "slot \<Rightarrow> addr option \<Rightarrow> 'v bst \<Rightarrow> 'v bst outcome" where
  "write_slot RootSlot p b = Inr (b\<lparr>root := p\<rparr>)"
| "write_slot (LeftOf a) p b = put_leaf (Some a) (lf_left_update (\<lambda>_. p)) b"
| "write_slot (RightOf a) p b = put_leaf (Some a) (lf_right_update (\<lambda>_. p)) b"

section \<open>Searching and counting\<close>

partial_function (option) findKey_at :: "'v leaf_heap \<Rightarrow> u64 \<Rightarrow> addr option \<Rightarrow> addr option outcome option" where
  "findKey_at h key node =
     (case node of None \<Rightarrow> Some (Inr None) | Some a \<Rightarrow>
      dbind (Some (deref h node)) (\<lambda>n.
      if lf_key n = key then Some (Inr node)
      else if key < lf_key n then findKey_at h key (lf_left n)
      else findKey_at h key (lf_right n)))"

definition findKey :: "u64 \<Rightarrow> 'v bst \<Rightarrow> addr option outcome option" where
  "findKey key b = findKey_at (nodes b) key (root b)"

partial_function (option) countNodes :: "'v leaf_heap \<Rightarrow> addr option \<Rightarrow> u64 outcome option" where
  "countNodes h node =
     (case node of None \<Rightarrow> Some (Inr 0) | Some a \<Rightarrow>
      dbind (Some (deref h node)) (\<lambda>n.
      dbind (countNodes h (lf_left n)) (\<lambda>l.
      dbind (countNodes h (lf_right n)) (\<lambda>r. Some (Inr (1 + l + r))))))"

definition bst_size :: "'v bst \<Rightarrow> u64 outcome option" where
  "bst_size b = countNodes (nodes b) (root b)"

partial_function (option) findMin :: "'v leaf_heap \<Rightarrow> addr option \<Rightarrow> addr option outcome option" where
  "findMin h node =
     (case node of None \<Rightarrow> Some (Inr None) | Some a \<Rightarrow>
      dbind (Some (deref h node)) (\<lambda>n.
      if lf_left n \<noteq> None then findMin h (lf_left n) else Some (Inr node)))"

partial_function (option) findMax :: "'v leaf_heap \<Rightarrow> addr option \<Rightarrow> addr option outcome option" where
  "findMax h node =
     (case node of None \<Rightarrow> Some (Inr None) | Some a \<Rightarrow>
      dbind (Some (deref h node)) (\<lambda>n.
      if lf_right n \<noteq> None then findMax h (lf_right n) else Some (Inr node)))"

definition findSuccessor :: "'v leaf_heap \<Rightarrow> addr option \<Rightarrow> addr option outcome option" where
  "findSuccessor h node = dbind (Some (deref h node)) (\<lambda>n.
     if lf_right n \<noteq> None then findMin h (lf_right n) else Some (Inr None))"

definition findPredecessor :: "'v leaf_heap \<Rightarrow> addr option \<Rightarrow> addr option outcome option" where
  "findPredecessor h node = dbind (Some (deref h node)) (\<lambda>n.
     if lf_left n \<noteq> None then findMax h (lf_left n) else Some (Inr None))"

text \<open>The callback sees each leaf in turn and has an effect on some state.\<close>

partial_function (option) iterateInOrder ::
  "('v leaf \<Rightarrow> 's \<Rightarrow> 's) \<Rightarrow> 'v leaf_heap \<Rightarrow> addr option \<Rightarrow> 's \<Rightarrow> 's outcome option" where
  "iterateInOrder callback h node s =
     (case node of None \<Rightarrow> Some (Inr s) | Some a \<Rightarrow>
      dbind (Some (deref h node)) (\<lambda>n.
      dbind (iterateInOrder callback h (lf_left n) s) (\<lambda>s.
      iterateInOrder callback h (lf_right n) (callback n s))))"

section \<open>Insertion and removal\<close>

text \<open>
  The method is virtual: its recursive call goes to the most derived class, here \<open>self\<close>.
\<close>

abbreviation insert_body ::
  "(u64 \<Rightarrow> addr \<Rightarrow> slot \<Rightarrow> addr option \<Rightarrow> 'v bst \<Rightarrow> (bool \<times> 'v bst) outcome option)
   \<Rightarrow> u64 \<Rightarrow> addr \<Rightarrow> slot \<Rightarrow> addr option \<Rightarrow> 'v bst \<Rightarrow> (bool \<times> 'v bst) outcome option" where
  "insert_body self key leaf slot parent b \<equiv>
     dbind (Some (read_slot slot b)) (\<lambda>r.
     case r of None \<Rightarrow>
       Some (obind (put_leaf (Some leaf) (lf_parent_update (\<lambda>_. parent)) b) (\<lambda>b.
             obind (write_slot slot (Some leaf) b) (\<lambda>b. Inr (True, b))))
     | Some a \<Rightarrow>
       dbind (Some (deref (nodes b) r)) (\<lambda>n.
       if lf_key n = key then Some (Inl (Panic ''u wot m8''))
       else if lf_key n > key then
         dbind (self key leaf (LeftOf a) (Some a) b) (\<lambda>(_, b). Some (Inr (False, b)))
       else
         dbind (self key leaf (RightOf a) (Some a) b) (\<lambda>(_, b). Some (Inr (False, b)))))"

partial_function (option) bst_insert_at ::
  "u64 \<Rightarrow> addr \<Rightarrow> slot \<Rightarrow> addr option \<Rightarrow> 'v bst \<Rightarrow> (bool \<times> 'v bst) outcome option" where
  "bst_insert_at key leaf slot parent b = insert_body bst_insert_at key leaf slot parent b"

text \<open>Inserting a leaf that was allocated, under the key it has.\<close>

definition bst_insert :: "addr \<Rightarrow> 'v bst \<Rightarrow> 'v bst outcome option" where
  "bst_insert leaf b =
     dbind (Some (deref (nodes b) (Some leaf))) (\<lambda>n.
     dbind (bst_insert_at (lf_key n) leaf RootSlot None b) (\<lambda>(_, b). Some (Inr b)))"

text \<open>Replacing the child \<open>node\<close> of \<open>parent\<close>, as the cases with one child do.\<close>

definition replace_child :: "addr option \<Rightarrow> addr option \<Rightarrow> addr option \<Rightarrow> 'v bst \<Rightarrow> 'v bst outcome" where
  "replace_child parent node child b =
     obind (deref (nodes b) parent) (\<lambda>pn.
     if lf_left pn = node then put_leaf parent (lf_left_update (\<lambda>_. child)) b
     else if lf_right pn = node then put_leaf parent (lf_right_update (\<lambda>_. child)) b
     else Inr b)"

text \<open>The last part, for a node with at most one child.\<close>

definition remove_node :: "addr option \<Rightarrow> addr option \<Rightarrow> 'v leaf \<Rightarrow> 'v bst \<Rightarrow> (bool \<times> 'v bst) outcome" where
  "remove_node node parent n b =
     obind (if lf_left n \<noteq> None \<and> lf_right n = None then
              obind (replace_child parent node (lf_left n) b) (put_leaf (lf_left n) (lf_parent_update (\<lambda>_. parent)))
            else if lf_left n = None \<and> lf_right n \<noteq> None then
              obind (replace_child parent node (lf_right n) b) (put_leaf (lf_right n) (lf_parent_update (\<lambda>_. parent)))
            else if parent \<noteq> None then replace_child parent node None b
            else Inr (b\<lparr>root := None\<rparr>)) (\<lambda>b.
     obind (delete_leaf node b) (\<lambda>b. Inr (True, b)))"

partial_function (option) bst_remove_at ::
  "u64 \<Rightarrow> addr option \<Rightarrow> addr option \<Rightarrow> 'v bst \<Rightarrow> (bool \<times> 'v bst) outcome option" where
  "bst_remove_at key node parent b =
     (case node of None \<Rightarrow> Some (Inr (False, b)) | Some a \<Rightarrow>
      dbind (Some (deref (nodes b) node)) (\<lambda>n.
      if key < lf_key n then bst_remove_at key (lf_left n) node b
      else if key > lf_key n then bst_remove_at key (lf_right n) node b
      else if lf_left n \<noteq> None \<and> lf_right n \<noteq> None then
        dbind (findSuccessor (nodes b) node) (\<lambda>successor.
        dbind (Some (deref (nodes b) successor)) (\<lambda>sn.
        dbind (Some (put_leaf node (\<lambda>n. n\<lparr>lf_key := lf_key sn, lf_val := lf_val sn\<rparr>) b)) (\<lambda>b.
        bst_remove_at (lf_key sn) (lf_right n) node b)))
      else Some (remove_node node parent n b)))"

definition bst_remove :: "u64 \<Rightarrow> 'v bst \<Rightarrow> (bool \<times> 'v bst) outcome option" where
  "bst_remove key b = bst_remove_at key (root b) None b"

partial_function (option) deleteSubtree :: "addr option \<Rightarrow> 'v bst \<Rightarrow> 'v bst outcome option" where
  "deleteSubtree node b =
     (case node of None \<Rightarrow> Some (Inr b) | Some a \<Rightarrow>
      dbind (Some (deref (nodes b) node)) (\<lambda>n.
      dbind (deleteSubtree (lf_left n) b) (\<lambda>b.
      dbind (Some (deref (nodes b) node)) (\<lambda>n.
      dbind (deleteSubtree (lf_right n) b) (\<lambda>b.
      Some (delete_leaf node b))))))"

definition bst_destroy :: "'v bst \<Rightarrow> 'v bst outcome option" where
  "bst_destroy b = deleteSubtree (root b) b"

section \<open>The iterator\<close>

text \<open>The loop that climbs while the node is the right child; \<open>None\<close> at the end of the tree.\<close>

partial_function (option) climb :: "'v leaf_heap \<Rightarrow> addr option \<Rightarrow> addr option \<Rightarrow> addr option outcome option" where
  "climb h node y =
     dbind (Some (deref h y)) (\<lambda>yn.
     if node = lf_right yn then
       if lf_parent yn = None then Some (Inr None) else climb h y (lf_parent yn)
     else dbind (Some (deref h node)) (\<lambda>n. Some (Inr (if lf_right n \<noteq> y then y else node))))"

partial_function (option) leftmost :: "'v leaf_heap \<Rightarrow> addr option \<Rightarrow> addr option outcome option" where
  "leftmost h node =
     dbind (Some (deref h node)) (\<lambda>n. if lf_left n \<noteq> None then leftmost h (lf_left n) else Some (Inr node))"

definition iter_increment :: "'v leaf_heap \<Rightarrow> addr option \<Rightarrow> addr option outcome option" where
  "iter_increment h node =
     (if node = None then Some (Inr None)
      else dbind (Some (deref h node)) (\<lambda>n.
        if lf_right n \<noteq> None then leftmost h (lf_right n)
        else if lf_parent n = None then Some (Inr None)
        else climb h node (lf_parent n)))"

definition iter_begin :: "'v bst \<Rightarrow> addr option outcome option" where
  "iter_begin b = findMin (nodes b) (root b)"

section \<open>Heaps that hold a tree\<close>

text \<open>
  The pointer \<open>p\<close>, stored in \<open>par\<close> or in the root pointer, leads to the tree of addresses \<open>t\<close>.
\<close>

fun shape :: "'v leaf_heap \<Rightarrow> addr option \<Rightarrow> addr option \<Rightarrow> addr tree \<Rightarrow> bool" where
  "shape h par p \<langle>\<rangle> \<longleftrightarrow> p = None"
| "shape h par p \<langle>l, a, r\<rangle> \<longleftrightarrow> p = Some a \<and>
     (\<exists>n. h a = Some n \<and> lf_parent n = par \<and> shape h (Some a) (lf_left n) l \<and> shape h (Some a) (lf_right n) r)"

abbreviation addrs :: "addr tree \<Rightarrow> addr list" where
  "addrs t \<equiv> inorder t"

definition key_of :: "'v leaf_heap \<Rightarrow> addr \<Rightarrow> u64" where
  "key_of h a = lf_key (the (h a))"

definition entry_of :: "'v leaf_heap \<Rightarrow> addr \<Rightarrow> u64 \<times> 'v" where
  "entry_of h a = (lf_key (the (h a)), lf_val (the (h a)))"

definition key_sorted :: "'v leaf_heap \<Rightarrow> addr list \<Rightarrow> bool" where
  "key_sorted h as \<longleftrightarrow> sorted_wrt (<) (map (key_of h) as)"

definition bst_rep :: "'v bst \<Rightarrow> addr tree \<Rightarrow> bool" where
  "bst_rep b t \<longleftrightarrow> shape (nodes b) None (root b) t \<and> distinct (addrs t) \<and> key_sorted (nodes b) (addrs t)
     \<and> dom (nodes b) = set (addrs t)"

text \<open>The contents, in ascending order of the keys.\<close>

definition contents :: "'v leaf_heap \<Rightarrow> addr tree \<Rightarrow> (u64 \<times> 'v) list" where
  "contents h t = map (entry_of h) (addrs t)"

lemma shape_addrs: "shape h par p t \<Longrightarrow> a \<in> set (addrs t) \<Longrightarrow> \<exists>n. h a = Some n"
  by (induction h par p t rule: shape.induct) auto

lemma shape_cong: "(\<And>a. a \<in> set (addrs t) \<Longrightarrow> h' a = h a) \<Longrightarrow> shape h' par p t = shape h par p t"
  by (induction t arbitrary: par p) auto

text \<open>Changing the parent's key, payload or colour does not change the shape.\<close>

definition same_links :: "'v leaf \<Rightarrow> 'v leaf \<Rightarrow> bool" where
  "same_links n n' \<longleftrightarrow> lf_parent n' = lf_parent n \<and> lf_left n' = lf_left n \<and> lf_right n' = lf_right n"

lemma shape_links:
  "shape h par p t \<Longrightarrow> h a = Some n \<Longrightarrow> same_links n n' \<Longrightarrow> shape (h(a \<mapsto> n')) par p t"
  by (induction t arbitrary: par p) (auto simp: same_links_def)

lemma shape_None: "shape h par None t \<longleftrightarrow> t = \<langle>\<rangle>"
  by (cases t) auto

lemma shape_Some: "shape h par (Some a) t \<longleftrightarrow> (\<exists>l r n. t = \<langle>l, a, r\<rangle> \<and> h a = Some n \<and> lf_parent n = par
    \<and> shape h (Some a) (lf_left n) l \<and> shape h (Some a) (lf_right n) r)"
  by (cases t) auto

text \<open>The root of a subtree gets another parent.\<close>

lemma shape_parent:
  assumes "shape h par (Some a) t" "distinct (addrs t)" "h a = Some n"
  shows "shape (h(a \<mapsto> n\<lparr>lf_parent := par'\<rparr>)) par' (Some a) t"
proof -
  obtain l r where t: "t = \<langle>l, a, r\<rangle>" "shape h (Some a) (lf_left n) l" "shape h (Some a) (lf_right n) r"
    using assms(1,3) by (auto simp: shape_Some)
  have "shape (h(a \<mapsto> n\<lparr>lf_parent := par'\<rparr>)) (Some a) q u = shape h (Some a) q u" if "u = l \<or> u = r" for q u
    using that assms(2) t(1) by (intro shape_cong) auto
  then show ?thesis
    using t by simp
qed

lemma key_sorted_Node:
  "key_sorted h (addrs \<langle>l, a, r\<rangle>) \<longleftrightarrow> key_sorted h (addrs l) \<and> key_sorted h (addrs r)
     \<and> (\<forall>x \<in> set (addrs l). key_of h x < key_of h a) \<and> (\<forall>x \<in> set (addrs r). key_of h a < key_of h x)"
  by (auto simp: key_sorted_def sorted_wrt_append dest: less_trans)

lemma key_of_Some [simp]: "h a = Some n \<Longrightarrow> key_of h a = lf_key n"
  by (simp add: key_of_def)

lemma key_sorted_cong:
  "(\<And>a. a \<in> set as \<Longrightarrow> key_of h' a = key_of h a) \<Longrightarrow> key_sorted h' as = key_sorted h as"
  by (simp add: key_sorted_def cong: map_cong)

lemma key_sorted_distinct: "key_sorted h as \<Longrightarrow> distinct (map (key_of h) as)"
  by (simp add: key_sorted_def strict_sorted_iff)

section \<open>Searching and traversing\<close>

lemma findKey_at_shape:
  "shape h par p t \<Longrightarrow> key_sorted h (addrs t) \<Longrightarrow>
   findKey_at h key p = Some (Inr (List.find (\<lambda>a. key_of h a = key) (addrs t)))"
proof (induction t arbitrary: par p)
  case Leaf
  then show ?case
    by (simp add: findKey_at.simps)
next
  case (Node l a r)
  then obtain n where n: "p = Some a" "h a = Some n" "shape h (Some a) (lf_left n) l" "shape h (Some a) (lf_right n) r"
    by auto
  have srt: "key_sorted h (addrs l)" "key_sorted h (addrs r)"
    "\<forall>x \<in> set (addrs l). key_of h x < key_of h a" "\<forall>x \<in> set (addrs r). key_of h a < key_of h x"
    using Node.prems(2) unfolding key_sorted_Node by blast+
  have left: "List.find (\<lambda>x. key_of h x = key) (addrs l) = None" if "\<not> key < key_of h a"
    using srt(3) that by (auto simp: find_None_iff)
  have right: "List.find (\<lambda>x. key_of h x = key) (addrs r) = None" if "key < key_of h a"
    using srt(4) that by (auto simp: find_None_iff)
  have app: "List.find P (xs @ ys) = (case List.find P xs of None \<Rightarrow> List.find P ys | Some z \<Rightarrow> Some z)"
    for P and xs ys :: "addr list"
    by (induction xs) auto
  show ?case
    using n Node.IH(1) [OF n(3) srt(1)] Node.IH(2) [OF n(4) srt(2)] left right
    by (subst findKey_at.simps) (auto simp: app split: option.splits)
qed

lemma countNodes_shape: "shape h par p t \<Longrightarrow> countNodes h p = Some (Inr (of_nat (size t)))"
proof (induction t arbitrary: par p)
  case (Node l a r)
  then obtain n where n: "p = Some a" "h a = Some n" "shape h (Some a) (lf_left n) l" "shape h (Some a) (lf_right n) r"
    by auto
  show ?case
    using n Node.IH(1) [OF n(3)] Node.IH(2) [OF n(4)] by (subst countNodes.simps) (simp add: algebra_simps)
qed (simp add: countNodes.simps)

fun min_addr :: "addr tree \<Rightarrow> addr option" where
  "min_addr \<langle>\<rangle> = None"
| "min_addr \<langle>l, a, r\<rangle> = (if l = \<langle>\<rangle> then Some a else min_addr l)"

fun max_addr :: "addr tree \<Rightarrow> addr option" where
  "max_addr \<langle>\<rangle> = None"
| "max_addr \<langle>l, a, r\<rangle> = (if r = \<langle>\<rangle> then Some a else max_addr r)"

lemma min_addr_hd: "t \<noteq> \<langle>\<rangle> \<Longrightarrow> min_addr t = Some (hd (addrs t))"
  by (induction t) (auto simp: hd_append)

lemma max_addr_last: "t \<noteq> \<langle>\<rangle> \<Longrightarrow> max_addr t = Some (last (addrs t))"
  by (induction t) auto

lemma findMin_shape: "shape h par p t \<Longrightarrow> findMin h p = Some (Inr (min_addr t))"
proof (induction t arbitrary: par p)
  case (Node l a r)
  then obtain n where n: "p = Some a" "h a = Some n" "shape h (Some a) (lf_left n) l"
    by auto
  show ?case
    using n Node.IH(1) [OF n(3)] by (subst findMin.simps) (cases l, auto)
qed (simp add: findMin.simps)

lemma findMax_shape: "shape h par p t \<Longrightarrow> findMax h p = Some (Inr (max_addr t))"
proof (induction t arbitrary: par p)
  case (Node l a r)
  then obtain n where n: "p = Some a" "h a = Some n" "shape h (Some a) (lf_right n) r"
    by auto
  show ?case
    using n Node.IH(2) [OF n(3)] by (subst findMax.simps) (cases r, auto)
qed (simp add: findMax.simps)

lemma iterateInOrder_shape:
  "shape h par p t \<Longrightarrow> iterateInOrder cb h p s = Some (Inr (fold (\<lambda>a. cb (the (h a))) (addrs t) s))"
proof (induction t arbitrary: par p s)
  case (Node l a r)
  then obtain n where n: "p = Some a" "h a = Some n" "shape h (Some a) (lf_left n) l" "shape h (Some a) (lf_right n) r"
    by auto
  show ?case
    using n Node.IH(1) [OF n(3)] Node.IH(2) [OF n(4)] by (subst iterateInOrder.simps) simp
qed (simp add: iterateInOrder.simps)

section \<open>Trees with a hole\<close>

text \<open>
  The place where an operation works: the path from a subtree up to the root, with the direction
  taken at each node and the subtree on its other side.
\<close>

datatype dir = DirL | DirR

type_synonym ctx = "(dir \<times> addr \<times> addr tree) list"

fun plug :: "ctx \<Rightarrow> addr tree \<Rightarrow> addr tree" where
  "plug [] t = t"
| "plug ((DirL, a, u) # c) t = plug c \<langle>t, a, u\<rangle>"
| "plug ((DirR, a, u) # c) t = plug c \<langle>u, a, t\<rangle>"

fun slot_of :: "ctx \<Rightarrow> slot" where
  "slot_of [] = RootSlot"
| "slot_of ((DirL, a, u) # c) = LeftOf a"
| "slot_of ((DirR, a, u) # c) = RightOf a"

fun par_of :: "ctx \<Rightarrow> addr option" where
  "par_of [] = None"
| "par_of ((d, a, u) # c) = Some a"

fun before :: "ctx \<Rightarrow> addr list" where
  "before [] = []"
| "before ((DirL, a, u) # c) = before c"
| "before ((DirR, a, u) # c) = before c @ addrs u @ [a]"

fun after :: "ctx \<Rightarrow> addr list" where
  "after [] = []"
| "after ((DirL, a, u) # c) = a # addrs u @ after c"
| "after ((DirR, a, u) # c) = after c"

fun hole :: "'v leaf_heap \<Rightarrow> addr option \<Rightarrow> ctx \<Rightarrow> addr option \<Rightarrow> bool" where
  "hole h rt [] p \<longleftrightarrow> rt = p"
| "hole h rt ((DirL, a, u) # c) p \<longleftrightarrow> (\<exists>n. h a = Some n \<and> lf_parent n = par_of c \<and> lf_left n = p
     \<and> shape h (Some a) (lf_right n) u \<and> hole h rt c (Some a))"
| "hole h rt ((DirR, a, u) # c) p \<longleftrightarrow> (\<exists>n. h a = Some n \<and> lf_parent n = par_of c \<and> lf_right n = p
     \<and> shape h (Some a) (lf_left n) u \<and> hole h rt c (Some a))"

lemma addrs_plug: "addrs (plug c t) = before c @ addrs t @ after c"
  by (induction c t rule: plug.induct) auto

lemma shape_plug: "shape h None rt (plug c t) \<longleftrightarrow> (\<exists>p. hole h rt c p \<and> shape h (par_of c) p t)"
  by (induction c t rule: plug.induct) auto

abbreviation ctx_addrs :: "ctx \<Rightarrow> addr set" where
  "ctx_addrs c \<equiv> set (before c) \<union> set (after c)"

lemma hole_cong: "(\<And>a. a \<in> ctx_addrs c \<Longrightarrow> h' a = h a) \<Longrightarrow> hole h' rt c p = hole h rt c p"
proof (induction c arbitrary: p)
  case (Cons x c)
  obtain d a u where x: "x = (d, a, u)"
    by (cases x)
  show ?case
    using Cons shape_cong [of u h' h] by (cases d) (auto simp: x)
qed simp

lemma hole_par: "hole h rt ((d, a, u) # c) p \<Longrightarrow> \<exists>n. h a = Some n \<and> lf_parent n = par_of c"
  by (cases d) auto

text \<open>The data of a node, which the links do not include.\<close>

definition data :: "'v leaf \<Rightarrow> u64 \<times> 'v \<times> rb_color" where
  "data n = (lf_key n, lf_val n, lf_color n)"

definition same_data :: "'v leaf_heap \<Rightarrow> 'v leaf_heap \<Rightarrow> bool" where
  "same_data h h' \<longleftrightarrow> (\<forall>a. map_option data (h' a) = map_option data (h a))"

lemma same_data_refl [simp]: "same_data h h"
  by (simp add: same_data_def)

lemma same_data_trans: "same_data h h' \<Longrightarrow> same_data h' h'' \<Longrightarrow> same_data h h''"
  by (simp add: same_data_def)

lemma same_data_upd: "h a = Some n \<Longrightarrow> data n' = data n \<Longrightarrow> same_data h (h(a \<mapsto> n'))"
  by (simp add: same_data_def)

lemma same_data_dom: "same_data h h' \<Longrightarrow> dom h' = dom h"
proof -
  assume "same_data h h'"
  then have "(h' a = None) = (h a = None)" for a
    unfolding same_data_def by (metis option.map_disc_iff)
  then show ?thesis
    by (auto simp: dom_def)
qed

lemma same_data_Some:
  assumes "same_data h h'" "h a = Some n"
  obtains n' where "h' a = Some n'" "data n' = data n"
proof -
  have "map_option data (h' a) = Some (data n)"
    using assms by (simp add: same_data_def)
  then show ?thesis
    using that by (cases "h' a") auto
qed

lemma same_data_of:
  assumes "same_data h h'" "a \<in> dom h"
  shows "key_of h' a = key_of h a" "entry_of h' a = entry_of h a" "lf_color (the (h' a)) = lf_color (the (h a))"
proof -
  obtain n where n: "h a = Some n"
    using assms(2) by blast
  then obtain n' where "h' a = Some n'" "data n' = data n"
    using same_data_Some [OF assms(1)] by blast
  then show "key_of h' a = key_of h a" "entry_of h' a = entry_of h a" "lf_color (the (h' a)) = lf_color (the (h a))"
    using n by (simp_all add: data_def entry_of_def)
qed

lemma read_slot_hole: "hole (nodes b) (root b) c p \<Longrightarrow> read_slot (slot_of c) b = Inr p"
  by (induction "nodes b" "root b" c p rule: hole.induct) auto

text \<open>Writing the slot of a hole.\<close>

lemma write_slot_hole:
  assumes "hole (nodes b) (root b) c p" "distinct (before c @ after c)"
  shows "\<exists>b'. write_slot (slot_of c) q b = Inr b' \<and> hole (nodes b') (root b') c q
    \<and> (\<forall>a. a \<notin> ctx_addrs c \<longrightarrow> nodes b' a = nodes b a) \<and> same_data (nodes b) (nodes b')"
proof (cases c)
  case Nil
  then show ?thesis
    by simp
next
  case (Cons x c')
  obtain d a u where x: "x = (d, a, u)"
    by (cases x)
  have rest: "hole ((nodes b)(a \<mapsto> n')) (root b) c' (Some a) = hole (nodes b) (root b) c' (Some a)"
    "shape ((nodes b)(a \<mapsto> n')) (Some a) r u = shape (nodes b) (Some a) r u" for n' r
    using assms(2) Cons x by (cases d; auto intro!: hole_cong shape_cong)+
  show ?thesis
    using assms(1) Cons x rest
    by (cases d) (auto simp: put_leaf_def data_def intro!: same_data_upd)
qed

section \<open>Insertion\<close>

text \<open>The way down to the place of a key.\<close>

fun descend :: "'v leaf_heap \<Rightarrow> u64 \<Rightarrow> ctx \<Rightarrow> addr tree \<Rightarrow> ctx" where
  "descend h k c \<langle>\<rangle> = c"
| "descend h k c \<langle>l, a, r\<rangle> =
     (if key_of h a > k then descend h k ((DirL, a, r) # c) l else descend h k ((DirR, a, l) # c) r)"

lemma plug_descend: "plug (descend h k c t) \<langle>\<rangle> = plug c t"
  by (induction t arbitrary: c) auto

lemma descend_addrs: "set (before (descend h k c t)) \<union> set (after (descend h k c t)) = ctx_addrs c \<union> set (addrs t)"
  by (induction t arbitrary: c) auto

lemma key_sorted_plug: "key_sorted h (addrs (plug c t)) \<Longrightarrow> key_sorted h (addrs t)"
  by (simp add: addrs_plug key_sorted_def sorted_wrt_append)

text \<open>Everything before the place has a smaller key, everything after it a larger one.\<close>

lemma descend_keys:
  assumes "key_sorted h (addrs (plug c t))" "\<forall>x \<in> set (before c). key_of h x < k" "\<forall>x \<in> set (after c). k < key_of h x"
    "\<forall>x \<in> set (addrs t). key_of h x \<noteq> k"
  shows "(\<forall>x \<in> set (before (descend h k c t)). key_of h x < k) \<and> (\<forall>x \<in> set (after (descend h k c t)). k < key_of h x)"
  using assms
proof (induction t arbitrary: c)
  case (Node l a r)
  have srt: "\<forall>x \<in> set (addrs l). key_of h x < key_of h a" "\<forall>x \<in> set (addrs r). key_of h a < key_of h x"
    using key_sorted_plug [OF Node.prems(1)] unfolding key_sorted_Node by blast+
  have ne: "key_of h a \<noteq> k" "\<forall>x \<in> set (addrs l). key_of h x \<noteq> k" "\<forall>x \<in> set (addrs r). key_of h x \<noteq> k"
    using Node.prems(4) by auto
  show ?case
  proof (cases "key_of h a > k")
    case True
    then have "\<forall>x \<in> set (after ((DirL, a, r) # c)). k < key_of h x"
      using srt(2) Node.prems(3) less_trans by fastforce
    from Node.IH(1) [OF _ _ this ne(2)] show ?thesis
      using True Node.prems(1,2) by simp
  next
    case False
    then have less: "key_of h a < k"
      using ne by simp
    then have "\<forall>x \<in> set (before ((DirR, a, l) # c)). key_of h x < k"
      using srt(1) Node.prems(2) less_trans by fastforce
    from Node.IH(2) [OF _ this _ ne(3)] show ?thesis
      using False Node.prems(1,3) by simp
  qed
qed simp

text \<open>The leaf is linked into the hole.\<close>

lemma link_leaf:
  assumes "shape (nodes b) None (root b) (plug c \<langle>\<rangle>)" "distinct (addrs (plug c \<langle>\<rangle>))" "leaf \<notin> ctx_addrs c"
    "nodes b leaf = Some n" "lf_left n = None" "lf_right n = None"
  shows "\<exists>b'. obind (put_leaf (Some leaf) (lf_parent_update (\<lambda>_. par_of c)) b) (write_slot (slot_of c) (Some leaf)) = Inr b'
    \<and> shape (nodes b') None (root b') (plug c \<langle>\<langle>\<rangle>, leaf, \<langle>\<rangle>\<rangle>) \<and> same_data (nodes b) (nodes b')"
proof -
  let ?n = "n\<lparr>lf_parent := par_of c\<rparr>"
  let ?b = "b\<lparr>nodes := (nodes b)(leaf \<mapsto> ?n)\<rparr>"
  have put: "put_leaf (Some leaf) (lf_parent_update (\<lambda>_. par_of c)) b = Inr ?b"
    using assms(4) by (simp add: put_leaf_def)
  have "hole (nodes b) (root b) c None"
    using assms(1) by (simp add: shape_plug)
  then have "hole (nodes ?b) (root ?b) c None"
    using assms(3) by (subst hole_cong [of c _ "nodes b"]) auto
  moreover have "distinct (before c @ after c)"
    using assms(2) by (simp add: addrs_plug)
  ultimately obtain b' where b': "write_slot (slot_of c) (Some leaf) ?b = Inr b'"
      "hole (nodes b') (root b') c (Some leaf)" "\<forall>a. a \<notin> ctx_addrs c \<longrightarrow> nodes b' a = nodes ?b a"
      "same_data (nodes ?b) (nodes b')"
    using write_slot_hole [of ?b c None "Some leaf"] by blast
  have "nodes b' leaf = Some ?n"
    using b'(3) assms(3) by simp
  then have "shape (nodes b') None (root b') (plug c \<langle>\<langle>\<rangle>, leaf, \<langle>\<rangle>\<rangle>)"
    using b'(2) assms(5,6) by (auto simp: shape_plug)
  moreover have "same_data (nodes b) (nodes b')"
    using same_data_trans [OF same_data_upd [of "nodes b" leaf n ?n] ] b'(4) assms(4) by (simp add: data_def)
  ultimately show ?thesis
    using put b'(1) by simp
qed

text \<open>The callers of the call that linked the leaf return \<open>false\<close>.\<close>

abbreviation lower :: "(bool \<times> 'v bst) outcome option \<Rightarrow> (bool \<times> 'v bst) outcome option" where
  "lower r \<equiv> dbind r (\<lambda>(_, b). Some (Inr (False, b)))"

lemma lower_bind: "dbind (lower r) (\<lambda>(i, b). if i then f b else Some (Inr (False, b))) = lower r"
  by (cases r rule: option.exhaust; cases "the r") auto

lemma lower_lower: "lower (lower r) = lower r"
  by (cases r rule: option.exhaust; cases "the r") auto

text \<open>
  The insertion of a tree class: the common method, with its recursive call to the class's own
  method, followed by the class's \<open>finish\<close> where the leaf was linked.
\<close>

locale tree_insert =
  fixes self :: "u64 \<Rightarrow> addr \<Rightarrow> slot \<Rightarrow> addr option \<Rightarrow> 'v bst \<Rightarrow> (bool \<times> 'v bst) outcome option"
    and finish :: "addr \<Rightarrow> 'v bst \<Rightarrow> (bool \<times> 'v bst) outcome option"
  assumes self_eq: "self key leaf slot parent b =
    dbind (insert_body self key leaf slot parent b) (\<lambda>(i, b). if i then finish leaf b else Some (Inr (False, b)))"
begin

lemma insert_places:
  assumes "shape (nodes b) None (root b) (plug c t)" "distinct (addrs (plug c t))" "leaf \<notin> set (addrs (plug c t))"
    "nodes b leaf = Some n" "lf_left n = None" "lf_right n = None"
    "\<forall>x \<in> set (addrs t). key_of (nodes b) x \<noteq> k"
  shows "\<exists>b'. shape (nodes b') None (root b') (plug (descend (nodes b) k c t) \<langle>\<langle>\<rangle>, leaf, \<langle>\<rangle>\<rangle>)
    \<and> same_data (nodes b) (nodes b')
    \<and> self k leaf (slot_of c) (par_of c) b =
        (if t = \<langle>\<rangle> then finish leaf b' else lower (finish leaf b'))"
  using assms
proof (induction t arbitrary: c)
  case Leaf
  obtain b' where b': "obind (put_leaf (Some leaf) (lf_parent_update (\<lambda>_. par_of c)) b) (write_slot (slot_of c) (Some leaf)) = Inr b'"
      "shape (nodes b') None (root b') (plug c \<langle>\<langle>\<rangle>, leaf, \<langle>\<rangle>\<rangle>)" "same_data (nodes b) (nodes b')"
    using link_leaf [of b c leaf n] Leaf by (auto simp: addrs_plug)
  have "read_slot (slot_of c) b = Inr None"
    using read_slot_hole [of b c None] Leaf.prems(1) by (simp add: shape_plug)
  then have "self k leaf (slot_of c) (par_of c) b = finish leaf b'"
    using b'(1) by (subst self_eq) (auto simp: obind_Inr_iff)
  then show ?case
    using b' by auto
next
  case (Node l a r)
  obtain p where p: "hole (nodes b) (root b) c p" "shape (nodes b) (par_of c) p \<langle>l, a, r\<rangle>"
    using Node.prems(1) unfolding shape_plug by blast
  then obtain m where m: "p = Some a" "nodes b a = Some m"
    by auto
  have rs: "read_slot (slot_of c) b = Inr (Some a)"
    using read_slot_hole p(1) m(1) by blast
  have ne: "lf_key m \<noteq> k"
    using Node.prems(7) m(2) by simp
  let ?c = "if lf_key m > k then (DirL, a, r) # c else (DirR, a, l) # c" and ?t = "if lf_key m > k then l else r"
  have "\<exists>b'. shape (nodes b') None (root b') (plug (descend (nodes b) k ?c ?t) \<langle>\<langle>\<rangle>, leaf, \<langle>\<rangle>\<rangle>)
    \<and> same_data (nodes b) (nodes b')
    \<and> self k leaf (slot_of ?c) (par_of ?c) b =
        (if ?t = \<langle>\<rangle> then finish leaf b' else lower (finish leaf b'))"
    using Node.IH(1) [of "(DirL, a, r) # c"] Node.IH(2) [of "(DirR, a, l) # c"] Node.prems
    by (cases "lf_key m > k") (simp_all only: if_True if_False, auto)
  then obtain b' where b': "shape (nodes b') None (root b') (plug (descend (nodes b) k ?c ?t) \<langle>\<langle>\<rangle>, leaf, \<langle>\<rangle>\<rangle>)"
      "same_data (nodes b) (nodes b')"
      "self k leaf (slot_of ?c) (par_of ?c) b = (if ?t = \<langle>\<rangle> then finish leaf b' else lower (finish leaf b'))"
    by blast
  have low: "lower (self k leaf (slot_of ?c) (par_of ?c) b) = lower (finish leaf b')"
    unfolding b'(3) by (cases "?t = \<langle>\<rangle>") (simp_all only: refl if_True if_False lower_lower)
  have "self k leaf (slot_of c) (par_of c) b = dbind (lower (self k leaf (slot_of ?c) (par_of ?c) b))
      (\<lambda>(i, b). if i then finish leaf b else Some (Inr (False, b)))"
    using rs m(2) ne by (subst self_eq) auto
  also have "\<dots> = lower (finish leaf b')"
    unfolding lower_bind low ..
  finally show ?case
    using b'(1,2) m(2) by (intro exI [of _ b']) (auto split: if_splits)
qed

text \<open>A key that is already in the tree is refused.\<close>

lemma insert_duplicate:
  assumes "shape (nodes b) None (root b) (plug c t)" "key_sorted (nodes b) (addrs t)" "x \<in> set (addrs t)"
  shows "self (key_of (nodes b) x) leaf (slot_of c) (par_of c) b = Some (Inl (Panic ''u wot m8''))"
  using assms
proof (induction t arbitrary: c)
  case (Node l a r)
  obtain p where p: "hole (nodes b) (root b) c p" "shape (nodes b) (par_of c) p \<langle>l, a, r\<rangle>"
    using Node.prems(1) unfolding shape_plug by blast
  then obtain m where m: "p = Some a" "nodes b a = Some m"
    by auto
  have rs: "read_slot (slot_of c) b = Inr (Some a)"
    using read_slot_hole p(1) m(1) by blast
  have srt: "key_sorted (nodes b) (addrs l)" "key_sorted (nodes b) (addrs r)"
    "\<forall>x \<in> set (addrs l). key_of (nodes b) x < lf_key m" "\<forall>x \<in> set (addrs r). lf_key m < key_of (nodes b) x"
    using Node.prems(2) m(2) unfolding key_sorted_Node by auto
  consider "x = a" | "x \<in> set (addrs l)" | "x \<in> set (addrs r)"
    using Node.prems(3) by auto
  then show ?case
  proof cases
    case 1
    then show ?thesis
      using rs m(2) by (subst self_eq) simp
  next
    case 2
    then have "key_of (nodes b) x < lf_key m"
      using srt(3) by blast
    moreover have "self (key_of (nodes b) x) leaf (LeftOf a) (Some a) b = Some (Inl (Panic ''u wot m8''))"
      using Node.IH(1) [of "(DirL, a, r) # c"] Node.prems(1) srt(1) 2 by simp
    ultimately show ?thesis
      using rs m(2) by (subst self_eq) auto
  next
    case 3
    then have "lf_key m < key_of (nodes b) x"
      using srt(4) by blast
    moreover have "self (key_of (nodes b) x) leaf (RightOf a) (Some a) b = Some (Inl (Panic ''u wot m8''))"
      using Node.IH(2) [of "(DirR, a, l) # c"] Node.prems(1) srt(2) 3 by simp
    ultimately show ?thesis
      using rs m(2) by (subst self_eq) auto
  qed
qed simp

end

text \<open>A leaf that was allocated and is not linked yet.\<close>

definition alloc_leaf :: "addr \<Rightarrow> 'v leaf \<Rightarrow> 'v bst \<Rightarrow> 'v bst" where
  "alloc_leaf a n b = b\<lparr>nodes := (nodes b)(a \<mapsto> n)\<rparr>"

definition unlinked :: "'v leaf \<Rightarrow> bool" where
  "unlinked n \<longleftrightarrow> lf_left n = None \<and> lf_right n = None"

lemma shape_alloc: "shape (nodes b) None (root b) t \<Longrightarrow> dom (nodes b) = set (addrs t) \<Longrightarrow> nodes b a = None \<Longrightarrow>
    shape (nodes (alloc_leaf a n b)) None (root (alloc_leaf a n b)) t"
  by (subst shape_cong [of t _ "nodes b"]) (auto simp: alloc_leaf_def)

text \<open>The contents with one more entry, whatever the shape of the tree.\<close>

lemma link_rep:
  assumes rep: "bst_rep b t" and new: "nodes b leaf = None" "\<forall>x \<in> set (addrs t). key_of (nodes b) x \<noteq> lf_key n"
    and c: "c = descend (nodes (alloc_leaf leaf n b)) (lf_key n) [] t"
    and b': "shape (nodes b') None (root b') t'" "addrs t' = addrs (plug c \<langle>\<langle>\<rangle>, leaf, \<langle>\<rangle>\<rangle>)"
      "\<And>a. map_option (\<lambda>n. (lf_key n, lf_val n)) (nodes b' a) = map_option (\<lambda>n. (lf_key n, lf_val n)) (nodes (alloc_leaf leaf n b) a)"
  shows "bst_rep b' t' \<and> set (contents (nodes b') t') = insert (lf_key n, lf_val n) (set (contents (nodes b) t))"
proof -
  let ?h = "nodes (alloc_leaf leaf n b)"
  have dom: "dom (nodes b) = set (addrs t)" and srt: "key_sorted (nodes b) (addrs t)" and dis: "distinct (addrs t)"
    using rep by (auto simp: bst_rep_def)
  have leaf: "leaf \<notin> set (addrs t)" "?h leaf = Some n"
    using dom new(1) by (auto simp: alloc_leaf_def)
  have t: "addrs t = before c @ after c" "addrs t' = before c @ leaf # after c"
    using plug_descend [of ?h "lf_key n" "[]" t] b'(2) addrs_plug [of c "\<langle>\<rangle>"] c by (auto simp: addrs_plug)
  have old: "entry_of ?h x = entry_of (nodes b) x" "key_of ?h x = key_of (nodes b) x" if "x \<in> set (addrs t)" for x
    using that leaf by (auto simp: alloc_leaf_def entry_of_def key_of_def)
  have srth: "key_sorted ?h (addrs t)"
    using srt old(2) key_sorted_cong by blast
  have keys: "(\<forall>x \<in> set (before c). key_of ?h x < lf_key n) \<and> (\<forall>x \<in> set (after c). lf_key n < key_of ?h x)"
    unfolding c using srth new(2) old(2) by (intro descend_keys) auto
  have data: "entry_of (nodes b') x = entry_of ?h x \<and> key_of (nodes b') x = key_of ?h x \<and> x \<in> dom (nodes b')" if "x \<in> dom ?h" for x
    using b'(3) [of x] that by (cases "nodes b' x") (auto simp: entry_of_def key_of_def)
  have in_dom: "x \<in> dom ?h" if "x \<in> set (addrs t')" for x
    using that t dom by (auto simp: alloc_leaf_def)
  have "key_sorted ?h (addrs t')"
    using srth keys leaf(2) unfolding t key_sorted_def by (auto simp: sorted_wrt_append)
  then have "key_sorted (nodes b') (addrs t')"
    using key_sorted_cong [of "addrs t'" "nodes b'" ?h] data in_dom by blast
  moreover have "dom (nodes b') = set (addrs t')"
  proof -
    have "dom (nodes b') = dom ?h"
      unfolding dom_def using b'(3) by (metis (no_types, lifting) option.map_disc_iff)
    then show ?thesis
      using t dom by (auto simp: alloc_leaf_def)
  qed
  moreover have "set (contents (nodes b') t') = entry_of ?h ` set (addrs t')"
    unfolding contents_def using data in_dom by (auto intro!: image_cong)
  moreover have "set (contents (nodes b) t) = entry_of ?h ` set (addrs t)"
    unfolding contents_def set_map using old(1) by (intro image_cong) simp_all
  moreover have "set (addrs t') = insert leaf (set (addrs t))"
    using t by auto
  moreover have "entry_of ?h leaf = (lf_key n, lf_val n)"
    using leaf(2) by (simp add: entry_of_def)
  ultimately show ?thesis
    using b'(1) dis leaf(1) t by (auto simp: bst_rep_def)
qed

interpretation bst_class: tree_insert bst_insert_at "\<lambda>leaf b. Some (Inr (True, b))"
proof (unfold_locales, goal_cases)
  case (1 key leaf slot parent b)
  have id: "dbind r (\<lambda>(i, b). if i then Some (Inr (True, b)) else Some (Inr (False, b))) = r" for r :: "(bool \<times> 'a bst) outcome option"
    by (cases r rule: option.exhaust; cases "the r") auto
  show ?case
    unfolding id by (rule bst_insert_at.simps)
qed

end
