(* ===== verification/Rt_BST_Ops.thy ===== *)
theory Rt_BST_Ops
  imports Rt_BST "HOL-Library.Sublist"
begin

text \<open>
  The operations of the binary search tree \<^verbatim>\<open>kernel/src/runtime/BinarySearchTree.h\<close> on heaps that
  hold a search tree: insertion and removal change the contents by one entry and keep the tree
  a search tree, the destructor frees every node, the iterator visits the entries in ascending
  order. Removing the key of a root with exactly one child dereferences the null parent.
\<close>

lemmas bst_rep_shape = bst_rep_def [THEN iffD1, THEN conjunct1]

lemma shape_upd [simp]: "a \<notin> set_tree t \<Longrightarrow> shape (h(a := v)) par p t = shape h par p t"
  by (rule shape_cong) auto

lemma hole_upd [simp]: "a \<notin> set (before c) \<Longrightarrow> a \<notin> set (after c) \<Longrightarrow> hole (h(a := v)) rt c p = hole h rt c p"
  by (rule hole_cong) auto

section \<open>Insertion\<close>

lemma bst_insert_rep:
  assumes "bst_rep b t" "nodes b leaf = None" "unlinked n" "lf_key n \<notin> fst ` set (contents (nodes b) t)"
  shows "\<exists>b' t'. bst_insert leaf (alloc_leaf leaf n b) = Some (Inr b') \<and> bst_rep b' t'
    \<and> set (contents (nodes b') t') = insert (lf_key n, lf_val n) (set (contents (nodes b) t))"
proof -
  let ?b = "alloc_leaf leaf n b"
  let ?c = "descend (nodes ?b) (lf_key n) [] t"
  have rep: "shape (nodes b) None (root b) t" "dom (nodes b) = set (addrs t)" "distinct (addrs t)"
    using assms(1) by (auto simp: bst_rep_def)
  have leaf: "leaf \<notin> set (addrs t)" "nodes ?b leaf = Some n"
    using rep(2) assms(2) by (auto simp: alloc_leaf_def)
  have ne: "\<forall>x \<in> set (addrs t). key_of (nodes b) x \<noteq> lf_key n"
    using assms(4) by (force simp: contents_def entry_of_def key_of_def)
  then have ne': "\<forall>x \<in> set (addrs t). key_of (nodes ?b) x \<noteq> lf_key n"
    using leaf(1) by (auto simp: alloc_leaf_def key_of_def)
  obtain b' where b': "shape (nodes b') None (root b') (plug ?c \<langle>\<langle>\<rangle>, leaf, \<langle>\<rangle>\<rangle>)" "same_data (nodes ?b) (nodes b')"
      "bst_insert_at (lf_key n) leaf RootSlot None ?b =
        (if t = \<langle>\<rangle> then Some (Inr (True, b')) else lower (Some (Inr (True, b'))))"
    using bst_class.insert_places [of ?b "[]" t leaf n "lf_key n"] shape_alloc [OF rep(1,2) assms(2)] rep(3) leaf ne' assms(3)
    by (auto simp: unlinked_def)
  have "map_option (\<lambda>n. (lf_key n, lf_val n)) (nodes b' a) = map_option (\<lambda>n. (lf_key n, lf_val n)) (nodes ?b a)" for a
    using b'(2) [unfolded same_data_def, rule_format, of a] by (cases "nodes b' a"; cases "nodes ?b a") (auto simp: data_def)
  then have "bst_rep b' (plug ?c \<langle>\<langle>\<rangle>, leaf, \<langle>\<rangle>\<rangle>) \<and>
      set (contents (nodes b') (plug ?c \<langle>\<langle>\<rangle>, leaf, \<langle>\<rangle>\<rangle>)) = insert (lf_key n, lf_val n) (set (contents (nodes b) t))"
    using link_rep [OF assms(1,2) ne refl b'(1) refl] by blast
  moreover have "bst_insert leaf ?b = Some (Inr b')"
    using b'(3) leaf(2) by (auto simp: bst_insert_def)
  ultimately show ?thesis
    by blast
qed

lemma bst_insert_duplicate:
  assumes "bst_rep b t" "nodes b leaf = None" "lf_key n \<in> fst ` set (contents (nodes b) t)"
  shows "bst_insert leaf (alloc_leaf leaf n b) = Some (Inl (Panic ''u wot m8''))"
proof -
  let ?b = "alloc_leaf leaf n b"
  have rep: "shape (nodes b) None (root b) t" "dom (nodes b) = set (addrs t)" "key_sorted (nodes b) (addrs t)"
    using assms(1) by (auto simp: bst_rep_def)
  obtain x where x: "x \<in> set (addrs t)" "key_of (nodes b) x = lf_key n"
    using assms(3) by (auto simp: contents_def entry_of_def key_of_def)
  have same: "key_of (nodes ?b) y = key_of (nodes b) y" if "y \<in> set (addrs t)" for y
    using that rep(2) assms(2) by (auto simp: alloc_leaf_def key_of_def)
  have "key_sorted (nodes ?b) (addrs t)"
    using rep(3) same key_sorted_cong by blast
  then have "bst_insert_at (key_of (nodes ?b) x) leaf (slot_of []) (par_of []) ?b = Some (Inl (Panic ''u wot m8''))"
    using shape_alloc [OF rep(1,2) assms(2)] x(1) by (intro bst_class.insert_duplicate [of _ _ t]) simp_all
  moreover have "nodes ?b leaf = Some n"
    by (simp add: alloc_leaf_def)
  ultimately show ?thesis
    using same [OF x(1)] x(2) by (simp add: bst_insert_def)
qed

section \<open>Removal\<close>

text \<open>Storing a child in the parent is writing the slot of the hole.\<close>

lemma replace_child_slot:
  assumes "hole (nodes b) (root b) c (Some a)" "c \<noteq> []" "a \<notin> ctx_addrs c"
  shows "replace_child (par_of c) (Some a) q b = write_slot (slot_of c) q b"
proof -
  obtain d x u c' where c: "c = (d, x, u) # c'"
    using assms(2) by (cases c) auto
  obtain m where m: "nodes b x = Some m"
    using hole_par assms(1) unfolding c by blast
  have "lf_left m \<noteq> Some a" if "d = DirR"
  proof
    assume "lf_left m = Some a"
    then have "shape (nodes b) (Some x) (Some a) u"
      using assms(1) c m that by auto
    then have "a \<in> set (addrs u)"
      by (auto simp: shape_Some)
    then show False
      using assms(3) c that by auto
  qed
  then show ?thesis
    using assms(1) c m by (cases d) (auto simp: replace_child_def)
qed

text \<open>A node with at most one child is cut out: the child takes its place.\<close>

lemma remove_node_hole:
  assumes shp: "shape (nodes b) None (root b) (plug c \<langle>l, a, r\<rangle>)" and dis: "distinct (addrs (plug c \<langle>l, a, r\<rangle>))"
    and n: "nodes b a = Some n" and one: "l = \<langle>\<rangle> \<or> r = \<langle>\<rangle>" and root: "c = [] \<Longrightarrow> l = \<langle>\<rangle> \<and> r = \<langle>\<rangle>"
  shows "\<exists>b'. remove_node (Some a) (par_of c) n b = Inr (True, b')
    \<and> shape (nodes b') None (root b') (plug c (if l = \<langle>\<rangle> then r else l))
    \<and> same_data ((nodes b)(a := None)) (nodes b')"
proof -
  let ?t = "if l = \<langle>\<rangle> then r else l" and ?q = "if l = \<langle>\<rangle> then lf_right n else lf_left n"
  have shp': "hole (nodes b) (root b) c (Some a)" "shape (nodes b) (Some a) ?q ?t" "(lf_left n = None) = (l = \<langle>\<rangle>)" "(lf_right n = None) = (r = \<langle>\<rangle>)"
    using shp n by (auto simp: shape_plug shape_None split: if_splits; cases l; cases r; auto)+
  have notin: "a \<notin> ctx_addrs c" "a \<notin> set (addrs ?t)" "distinct (before c @ after c)" "distinct (addrs ?t)"
    "set (addrs ?t) \<inter> ctx_addrs c = {}"
    using dis one by (auto simp: addrs_plug)
  have "\<exists>b'. write_slot (slot_of c) ?q b = Inr b' \<and> hole (nodes b') (root b') c ?q
    \<and> (\<forall>x. x \<notin> ctx_addrs c \<longrightarrow> nodes b' x = nodes b x) \<and> same_data (nodes b) (nodes b')"
    using write_slot_hole [OF shp'(1) notin(3)] by blast
  then obtain b1 where b1: "write_slot (slot_of c) ?q b = Inr b1" "hole (nodes b1) (root b1) c ?q"
      "\<forall>x. x \<notin> ctx_addrs c \<longrightarrow> nodes b1 x = nodes b x" "same_data (nodes b) (nodes b1)"
    by blast
  have rc: "replace_child (par_of c) (Some a) ?q b = Inr b1" if "c \<noteq> []"
    using replace_child_slot [OF shp'(1) that notin(1)] b1(1) by simp
  have shp1: "shape (nodes b1) (Some a) ?q ?t"
    using shp'(2) b1(3) notin(5) by (subst shape_cong [of _ _ "nodes b"]) auto
  obtain b2 where b2: "remove_node (Some a) (par_of c) n b = obind (delete_leaf (Some a) b2) (\<lambda>b. Inr (True, b))"
      "hole (nodes b2) (root b2) c ?q" "shape (nodes b2) (par_of c) ?q ?t" "nodes b2 a = Some n" "same_data (nodes b) (nodes b2)"
  proof (cases ?q)
    case None
    then have none: "l = \<langle>\<rangle>" "r = \<langle>\<rangle>"
      using shp'(2) one by (auto simp: shape_None split: if_splits)
    have "remove_node (Some a) (par_of c) n b = obind (write_slot (slot_of c) None b) (\<lambda>b. obind (delete_leaf (Some a) b) (\<lambda>b. Inr (True, b)))"
      using shp'(3,4) none rc b1(1) None by (cases c) (auto simp: remove_node_def)
    then show ?thesis
      using that [of b1] b1 None none notin(1) n by simp
  next
    case (Some x)
    then have ne: "?t \<noteq> \<langle>\<rangle>" "c \<noteq> []"
      using shp'(2) root by (auto split: if_splits)
    have x: "x \<in> set (addrs ?t)"
      using shp1 Some by (auto simp: shape_Some split: if_splits)
    then obtain m where m: "nodes b1 x = Some m"
      using shape_addrs [OF shp1] by blast
    have xa: "x \<noteq> a" "x \<notin> ctx_addrs c"
      using x notin by auto
    let ?b2 = "b1\<lparr>nodes := (nodes b1)(x \<mapsto> m\<lparr>lf_parent := par_of c\<rparr>)\<rparr>"
    have "remove_node (Some a) (par_of c) n b = obind (delete_leaf (Some a) ?b2) (\<lambda>b. Inr (True, b))"
      using shp'(3,4) ne one rc [OF ne(2)] Some m by (auto simp: remove_node_def put_leaf_def split: if_splits)
    moreover have "hole (nodes ?b2) (root ?b2) c ?q"
      using b1(2) xa(2) by simp
    moreover have "shape (nodes ?b2) (par_of c) ?q ?t"
      using shape_parent [of "nodes b1" "Some a" x ?t m "par_of c"] shp1 notin(4) m Some by simp
    moreover have "nodes ?b2 a = Some n"
      using b1(3) notin(1) n xa(1) by simp
    moreover have "same_data (nodes b) (nodes ?b2)"
      using same_data_trans [OF b1(4) same_data_upd [of "nodes b1" x m]] m by (simp add: data_def)
    ultimately show ?thesis
      using that by blast
  qed
  let ?b' = "b2\<lparr>nodes := (nodes b2)(a := None)\<rparr>"
  have "hole (nodes ?b') (root ?b') c ?q" "shape (nodes ?b') (par_of c) ?q ?t"
    using b2(2,3) notin(1,2) by auto
  then have "shape (nodes ?b') None (root ?b') (plug c ?t)"
    unfolding shape_plug by blast
  moreover have "same_data ((nodes b)(a := None)) (nodes ?b')"
    using b2(5) by (simp add: same_data_def)
  moreover have "remove_node (Some a) (par_of c) n b = Inr (True, ?b')"
    using b2(1,4) by (simp add: delete_leaf_def)
  ultimately show ?thesis
    by blast
qed

text \<open>What a removal does to a subtree: the entry with the key is gone, the other nodes keep their data.\<close>

definition removed :: "u64 \<Rightarrow> 'v leaf_heap \<Rightarrow> 'v leaf_heap \<Rightarrow> addr tree \<Rightarrow> addr tree \<Rightarrow> bool" where
  "removed key h h' t t' \<longleftrightarrow> contents h' t' = filter (\<lambda>e. fst e \<noteq> key) (contents h t)
     \<and> subseq (addrs t') (addrs t)
     \<and> (\<forall>a. a \<notin> set (addrs t) \<longrightarrow> map_option data (h' a) = map_option data (h a))
     \<and> dom h' = dom h - (set (addrs t) - set (addrs t'))"

lemma contents_Node: "contents h \<langle>l, a, r\<rangle> = contents h l @ entry_of h a # contents h r"
  by (simp add: contents_def)

lemma fst_entry: "fst (entry_of h a) = key_of h a"
  by (simp add: entry_of_def key_of_def)

lemma filter_contents: "(\<forall>a \<in> set (addrs t). key_of h a \<noteq> key) \<Longrightarrow> filter (\<lambda>e. fst e \<noteq> key) (contents h t) = contents h t"
  by (simp add: contents_def filter_id_conv fst_entry)

lemma contents_data:
  assumes "\<And>a. a \<in> set (addrs t) \<Longrightarrow> map_option data (h' a) = map_option data (h a)" "\<And>a. a \<in> set (addrs t) \<Longrightarrow> a \<in> dom h"
  shows "contents h' t = contents h t"
proof -
  have "entry_of h' a = entry_of h a" if "a \<in> set (addrs t)" for a
    using assms(1) [OF that] assms(2) [OF that] by (cases "h' a") (auto simp: entry_of_def data_def)
  then show ?thesis
    by (simp add: contents_def)
qed

lemma removed_left:
  assumes "removed key h h' l l'" "distinct (addrs \<langle>l, a, r\<rangle>)" "key_sorted h (addrs \<langle>l, a, r\<rangle>)" "key < key_of h a"
    "set (addrs \<langle>l, a, r\<rangle>) \<subseteq> dom h"
  shows "removed key h h' \<langle>l, a, r\<rangle> \<langle>l', a, r\<rangle>"
proof -
  have ne: "\<forall>x \<in> set (addrs r). key_of h x \<noteq> key" "key_of h a \<noteq> key"
    using assms(3,4) unfolding key_sorted_Node by fastforce+
  have out: "map_option data (h' x) = map_option data (h x)" if "x \<notin> set (addrs l)" for x
    using assms(1) that by (simp add: removed_def)
  have "contents h' r = contents h r" "contents h' \<langle>\<langle>\<rangle>, a, \<langle>\<rangle>\<rangle> = contents h \<langle>\<langle>\<rangle>, a, \<langle>\<rangle>\<rangle>"
    using assms(2,5) by (auto intro!: contents_data out)
  then have "contents h' \<langle>l', a, r\<rangle> = filter (\<lambda>e. fst e \<noteq> key) (contents h \<langle>l, a, r\<rangle>)"
    using assms(1) ne filter_contents [OF ne(1)] by (simp add: removed_def contents_Node fst_entry) (simp add: contents_def)
  moreover have "subseq (addrs \<langle>l', a, r\<rangle>) (addrs \<langle>l, a, r\<rangle>)"
    using assms(1) by (simp add: removed_def list_emb_append_mono)
  moreover have "dom h' = dom h - (set (addrs \<langle>l, a, r\<rangle>) - set (addrs \<langle>l', a, r\<rangle>))"
    using assms(1,2) by (auto simp: removed_def)
  ultimately show ?thesis
    using out by (simp add: removed_def)
qed

lemma removed_right:
  assumes "removed key h h' r r'" "distinct (addrs \<langle>l, a, r\<rangle>)" "key_sorted h (addrs \<langle>l, a, r\<rangle>)" "key > key_of h a"
    "set (addrs \<langle>l, a, r\<rangle>) \<subseteq> dom h"
  shows "removed key h h' \<langle>l, a, r\<rangle> \<langle>l, a, r'\<rangle>"
proof -
  have ne: "\<forall>x \<in> set (addrs l). key_of h x \<noteq> key" "key_of h a \<noteq> key"
    using assms(3,4) unfolding key_sorted_Node by fastforce+
  have out: "map_option data (h' x) = map_option data (h x)" if "x \<notin> set (addrs r)" for x
    using assms(1) that by (simp add: removed_def)
  have "contents h' l = contents h l" "contents h' \<langle>\<langle>\<rangle>, a, \<langle>\<rangle>\<rangle> = contents h \<langle>\<langle>\<rangle>, a, \<langle>\<rangle>\<rangle>"
    using assms(2,5) by (auto intro!: contents_data out)
  then have "contents h' \<langle>l, a, r'\<rangle> = filter (\<lambda>e. fst e \<noteq> key) (contents h \<langle>l, a, r\<rangle>)"
    using assms(1) ne filter_contents [OF ne(1)] by (simp add: removed_def contents_Node fst_entry) (simp add: contents_def)
  moreover have "subseq (addrs \<langle>l, a, r'\<rangle>) (addrs \<langle>l, a, r\<rangle>)"
    using assms(1) by (simp add: removed_def list_emb_append_mono)
  moreover have "dom h' = dom h - (set (addrs \<langle>l, a, r\<rangle>) - set (addrs \<langle>l, a, r'\<rangle>))"
    using assms(1,2) by (auto simp: removed_def)
  ultimately show ?thesis
    using out by (simp add: removed_def)
qed

lemma removed_cut:
  assumes "same_data (h(a := None)) h'" "distinct (addrs \<langle>l, a, r\<rangle>)" "key_sorted h (addrs \<langle>l, a, r\<rangle>)"
    "set (addrs \<langle>l, a, r\<rangle>) \<subseteq> dom h" "l = \<langle>\<rangle> \<or> r = \<langle>\<rangle>"
  shows "removed (key_of h a) h h' \<langle>l, a, r\<rangle> (if l = \<langle>\<rangle> then r else l)"
proof -
  let ?t = "if l = \<langle>\<rangle> then r else l"
  have ne: "\<forall>x \<in> set (addrs ?t). key_of h x \<noteq> key_of h a"
    using assms(3) unfolding key_sorted_Node by (cases "l = \<langle>\<rangle>") force+
  have out: "map_option data (h' x) = map_option data (h x)" if "x \<noteq> a" for x
    using assms(1) that by (simp add: same_data_def)
  have "contents h' ?t = contents h ?t"
    using assms(2,4) by (intro contents_data out) (auto split: if_splits)
  then have "contents h' ?t = filter (\<lambda>e. fst e \<noteq> key_of h a) (contents h \<langle>l, a, r\<rangle>)"
    using filter_contents [OF ne] assms(5) by (auto simp: contents_Node fst_entry) (auto simp: contents_def)
  moreover have "dom h' = dom h - (set (addrs \<langle>l, a, r\<rangle>) - set (addrs ?t))"
    using same_data_dom [OF assms(1)] assms(2,5) by auto
  ultimately show ?thesis
    using out assms(5) by (auto simp: removed_def)
qed

lemma removed_successor:
  assumes "removed (key_of h s) h1 h' r r'" "distinct (addrs \<langle>l, a, r\<rangle>)" "key_sorted h (addrs \<langle>l, a, r\<rangle>)"
    "set (addrs \<langle>l, a, r\<rangle>) \<subseteq> dom h" "r \<noteq> \<langle>\<rangle>" "s = hd (addrs r)"
    "h a = Some n" "h s = Some sn" "h1 = h(a \<mapsto> n\<lparr>lf_key := lf_key sn, lf_val := lf_val sn\<rparr>)"
  shows "removed (key_of h a) h h' \<langle>l, a, r\<rangle> \<langle>l, a, r'\<rangle>"
proof -
  have ne: "\<forall>x \<in> set (addrs l). key_of h x \<noteq> key_of h a" "\<forall>x \<in> set (addrs r). key_of h x \<noteq> key_of h a"
    using assms(3) unfolding key_sorted_Node by fastforce+
  have out: "map_option data (h' x) = map_option data (h1 x)" if "x \<notin> set (addrs r)" for x
    using assms(1) that by (simp add: removed_def)
  have a: "a \<notin> set (addrs l)" "a \<notin> set (addrs r)"
    using assms(2) by auto
  have l: "contents h' l = contents h l"
  proof (rule contents_data)
    fix x
    assume x: "x \<in> set (addrs l)"
    then have "x \<notin> set (addrs r)" "x \<noteq> a"
      using assms(2) by auto
    then show "map_option data (h' x) = map_option data (h x)" "x \<in> dom h"
      using out [of x] assms(4) x by (auto simp: assms(9))
  qed
  have ea: "entry_of h' a = entry_of h s"
    using out [OF a(2)] assms(8,9) by (cases "h' a") (auto simp: entry_of_def data_def)
  have r1: "contents h1 r = contents h r"
    using a(2) by (auto simp: contents_def entry_of_def assms(9))
  obtain rest where rest: "addrs r = s # rest"
    using assms(5,6) by (cases "addrs r") auto
  have "key_sorted h (addrs r)"
    using assms(3) unfolding key_sorted_Node by blast
  then have "key_of h s \<notin> key_of h ` set rest"
    using key_sorted_distinct [of h "addrs r"] rest by simp
  then have "\<forall>x \<in> set rest. key_of h x \<noteq> key_of h s"
    by (metis image_eqI)
  then have "filter (\<lambda>e. fst e \<noteq> key_of h s) (contents h r) = map (entry_of h) rest"
    by (auto simp: contents_def rest fst_entry filter_map o_def intro!: filter_True)
  then have "contents h' \<langle>l, a, r'\<rangle> = contents h l @ contents h r"
    using assms(1) l ea r1 by (simp add: removed_def contents_Node) (simp add: contents_def rest)
  then have "contents h' \<langle>l, a, r'\<rangle> = filter (\<lambda>e. fst e \<noteq> key_of h a) (contents h \<langle>l, a, r\<rangle>)"
    using filter_contents [OF ne(1)] filter_contents [OF ne(2)] by (simp add: contents_Node fst_entry)
  moreover have "subseq (addrs \<langle>l, a, r'\<rangle>) (addrs \<langle>l, a, r\<rangle>)"
    using assms(1) by (simp add: removed_def list_emb_append_mono)
  moreover have "dom h' = dom h - (set (addrs \<langle>l, a, r\<rangle>) - set (addrs \<langle>l, a, r'\<rangle>))"
    using assms(1,2,7,9) by (auto simp: removed_def)
  moreover have "map_option data (h' x) = map_option data (h x)" if "x \<notin> set (addrs \<langle>l, a, r\<rangle>)" for x
    using out [of x] that by (auto simp: assms(9))
  ultimately show ?thesis
    by (simp add: removed_def)
qed

text \<open>The root with exactly one child, which the code cannot remove.\<close>

fun one_child :: "addr tree \<Rightarrow> bool" where
  "one_child \<langle>\<rangle> = False"
| "one_child \<langle>l, a, r\<rangle> = ((l = \<langle>\<rangle>) \<noteq> (r = \<langle>\<rangle>))"

lemma bst_remove_at_hole:
  assumes "hole (nodes b) (root b) c p" "shape (nodes b) (par_of c) p t" "distinct (addrs (plug c t))"
    "key_sorted (nodes b) (addrs t)" "x \<in> set (addrs t)" "key_of (nodes b) x = key"
    "c = [] \<Longrightarrow> \<not> (one_child t \<and> p = Some x)"
  shows "\<exists>b' t'. bst_remove_at key p (par_of c) b = Some (Inr (True, b'))
    \<and> shape (nodes b') None (root b') (plug c t') \<and> removed key (nodes b) (nodes b') t t'"
  using assms
proof (induction t arbitrary: b c p key x)
  case (Node l a r)
  then obtain n where n: "p = Some a" "nodes b a = Some n" "shape (nodes b) (Some a) (lf_left n) l"
      "shape (nodes b) (Some a) (lf_right n) r" "lf_parent n = par_of c"
    by auto
  have srt: "key_sorted (nodes b) (addrs l)" "key_sorted (nodes b) (addrs r)"
    "\<forall>x \<in> set (addrs l). key_of (nodes b) x < lf_key n" "\<forall>x \<in> set (addrs r). lf_key n < key_of (nodes b) x"
    using Node.prems(4) n(2) unfolding key_sorted_Node by auto
  have dis: "distinct (addrs \<langle>l, a, r\<rangle>)"
    using Node.prems(3) by (auto simp: addrs_plug)
  have dom: "set (addrs \<langle>l, a, r\<rangle>) \<subseteq> dom (nodes b)"
    using shape_addrs [OF Node.prems(2)] by blast
  have holes: "hole (nodes b) (root b) ((DirL, a, r) # c) (lf_left n)" "hole (nodes b) (root b) ((DirR, a, l) # c) (lf_right n)"
    using Node.prems(1) n by auto
  consider (left) "x \<in> set (addrs l)" | (right) "x \<in> set (addrs r)" | (two) "x = a" "l \<noteq> \<langle>\<rangle>" "r \<noteq> \<langle>\<rangle>"
    | (cut) "x = a" "l = \<langle>\<rangle> \<or> r = \<langle>\<rangle>"
    using Node.prems(5) by auto
  then show ?case
  proof cases
    case left
    have less: "key < lf_key n"
      using srt(3) left Node.prems(6) by blast
    obtain b' l' where ih: "bst_remove_at key (lf_left n) (Some a) b = Some (Inr (True, b'))"
        "shape (nodes b') None (root b') (plug ((DirL, a, r) # c) l')" "removed key (nodes b) (nodes b') l l'"
      using Node.IH(1) [OF holes(1) _ _ srt(1) left Node.prems(6)] n(3) Node.prems(3) by auto
    have "removed key (nodes b) (nodes b') \<langle>l, a, r\<rangle> \<langle>l', a, r\<rangle>"
      using ih(3) dis Node.prems(4) less dom n(2) by (intro removed_left) auto
    then show ?thesis
      using n(1,2) less ih(1,2) by (subst bst_remove_at.simps) auto
  next
    case right
    have less: "lf_key n < key"
      using srt(4) right Node.prems(6) by blast
    obtain b' r' where ih: "bst_remove_at key (lf_right n) (Some a) b = Some (Inr (True, b'))"
        "shape (nodes b') None (root b') (plug ((DirR, a, l) # c) r')" "removed key (nodes b) (nodes b') r r'"
      using Node.IH(2) [OF holes(2) _ _ srt(2) right Node.prems(6)] n(4) Node.prems(3) by auto
    have "removed key (nodes b) (nodes b') \<langle>l, a, r\<rangle> \<langle>l, a, r'\<rangle>"
      using ih(3) dis Node.prems(4) less dom n(2) by (intro removed_right) auto
    then show ?thesis
      using n(1,2) less ih(1,2) by (subst bst_remove_at.simps) auto
  next
    case two
    let ?s = "hd (addrs r)"
    have "addrs r \<noteq> []"
      using two(3) by (cases r) auto
    then have s: "?s \<in> set (addrs r)" "min_addr r = Some ?s"
      using min_addr_hd [OF two(3)] hd_in_set by blast+
    then obtain sn where sn: "nodes b ?s = Some sn"
      using shape_addrs [OF n(4)] by blast
    let ?b = "b\<lparr>nodes := (nodes b)(a \<mapsto> n\<lparr>lf_key := lf_key sn, lf_val := lf_val sn\<rparr>)\<rparr>"
    have a: "a \<notin> set_tree l" "a \<notin> set_tree r" "a \<notin> ctx_addrs c" "?s \<noteq> a"
      using Node.prems(3) s(1) by (auto simp: addrs_plug)
    have "key_of (nodes ?b) y = key_of (nodes b) y" if "y \<in> set (addrs r)" for y
      using that a(2) by (auto simp: key_of_def)
    then have srt': "key_sorted (nodes ?b) (addrs r)"
      using srt(2) key_sorted_cong by blast
    have hole': "hole (nodes ?b) (root ?b) ((DirR, a, l) # c) (lf_right n)"
      using Node.prems(1) n a by simp
    have sub: "shape (nodes ?b) (par_of ((DirR, a, l) # c)) (lf_right n) r" "distinct (addrs (plug ((DirR, a, l) # c) r))"
      "key_of (nodes ?b) ?s = lf_key sn"
      using n(4) a Node.prems(3) sn by simp_all
    obtain b' r' where ih: "bst_remove_at (lf_key sn) (lf_right n) (Some a) ?b = Some (Inr (True, b'))"
        "shape (nodes b') None (root b') (plug ((DirR, a, l) # c) r')" "removed (lf_key sn) (nodes ?b) (nodes b') r r'"
      using Node.IH(2) [OF hole' sub(1,2) srt' s(1) sub(3)] unfolding par_of.simps by blast
    have kids: "lf_left n \<noteq> None" "lf_right n \<noteq> None" "key = lf_key n"
      using two n(2-4) Node.prems(6) by (cases l; cases r; auto)+
    have "findSuccessor (nodes b) p = Some (Inr (Some ?s))"
      using n(1,2) kids(2) findMin_shape [OF n(4)] s(2) by (simp add: findSuccessor_def)
    then have "bst_remove_at key p (par_of c) b = bst_remove_at (lf_key sn) (lf_right n) (Some a) ?b"
      using n(1,2) kids sn by (subst bst_remove_at.simps) (simp add: put_leaf_def)
    moreover have "removed (key_of (nodes b) a) (nodes b) (nodes b') \<langle>l, a, r\<rangle> \<langle>l, a, r'\<rangle>"
      using removed_successor [of "nodes b" ?s "nodes ?b", OF _ dis Node.prems(4) dom two(3) refl n(2) sn] ih(3) sn by simp
    ultimately show ?thesis
      using ih(1,2) Node.prems(6) two(1) by auto
  next
    case cut
    have key: "key = lf_key n" "key_of (nodes b) a = key"
      using Node.prems(6) cut(1) n(2) by auto
    have "\<not> (lf_left n \<noteq> None \<and> lf_right n \<noteq> None)"
      using cut(2) n(3,4) by auto
    then have step: "bst_remove_at key p (par_of c) b = Some (remove_node p (par_of c) n b)"
      using n(1,2) key(1) by (subst bst_remove_at.simps) auto
    have "c = [] \<Longrightarrow> l = \<langle>\<rangle> \<and> r = \<langle>\<rangle>"
      using Node.prems(7) cut n(1) by auto
    then obtain b' where b': "remove_node (Some a) (par_of c) n b = Inr (True, b')"
        "shape (nodes b') None (root b') (plug c (if l = \<langle>\<rangle> then r else l))" "same_data ((nodes b)(a := None)) (nodes b')"
      using remove_node_hole [OF _ Node.prems(3) n(2) cut(2)] Node.prems(1,2) shape_plug by blast
    show ?thesis
      using step b' n(1) removed_cut [OF b'(3) dis Node.prems(4) dom cut(2)] key(2) by auto
  qed
qed simp

lemma bst_remove_at_absent:
  "shape (nodes b) par p t \<Longrightarrow> key_sorted (nodes b) (addrs t) \<Longrightarrow> \<forall>x \<in> set (addrs t). key_of (nodes b) x \<noteq> key \<Longrightarrow>
   bst_remove_at key p par' b = Some (Inr (False, b))"
proof (induction t arbitrary: par par' p)
  case Leaf
  then show ?case
    by (simp add: bst_remove_at.simps)
next
  case (Node l a r)
  then obtain n where n: "p = Some a" "nodes b a = Some n" "shape (nodes b) (Some a) (lf_left n) l"
      "shape (nodes b) (Some a) (lf_right n) r"
    by auto
  have srt: "key_sorted (nodes b) (addrs l)" "key_sorted (nodes b) (addrs r)"
    using Node.prems(2) unfolding key_sorted_Node by blast+
  have ne: "lf_key n \<noteq> key" "\<forall>x \<in> set (addrs l). key_of (nodes b) x \<noteq> key" "\<forall>x \<in> set (addrs r). key_of (nodes b) x \<noteq> key"
    using Node.prems(3) n(2) by auto
  show ?case
    using n Node.IH(1) [OF n(3) srt(1) ne(2)] Node.IH(2) [OF n(4) srt(2) ne(3)] ne(1)
    by (subst bst_remove_at.simps) auto
qed

lemma keys_contents: "fst ` set (contents h t) = key_of h ` set (addrs t)"
  by (auto simp: contents_def entry_of_def key_of_def image_image)

lemma key_sorted_contents: "key_sorted h (addrs t) \<longleftrightarrow> sorted_wrt (<) (map fst (contents h t))"
  by (simp add: key_sorted_def contents_def fst_entry o_def)

lemma bst_remove_rep:
  assumes "bst_rep b t" "key \<in> fst ` set (contents (nodes b) t)"
    "\<not> (one_child t \<and> map_option (key_of (nodes b)) (root b) = Some key)"
  shows "\<exists>b' t'. bst_remove key b = Some (Inr (True, b')) \<and> bst_rep b' t'
    \<and> contents (nodes b') t' = filter (\<lambda>e. fst e \<noteq> key) (contents (nodes b) t)"
proof -
  have rep: "shape (nodes b) None (root b) t" "distinct (addrs t)" "key_sorted (nodes b) (addrs t)" "dom (nodes b) = set (addrs t)"
    using assms(1) by (auto simp: bst_rep_def)
  obtain x where x: "x \<in> set (addrs t)" "key_of (nodes b) x = key"
    using assms(2) unfolding keys_contents by blast
  have "\<not> (one_child t \<and> root b = Some x)"
    using assms(3) x(2) by auto
  then obtain b' t' where b': "bst_remove key b = Some (Inr (True, b'))" "shape (nodes b') None (root b') t'"
      "removed key (nodes b) (nodes b') t t'"
    using bst_remove_at_hole [of b "[]" "root b" t x key] rep x unfolding bst_remove_def by auto
  then have rem: "contents (nodes b') t' = filter (\<lambda>e. fst e \<noteq> key) (contents (nodes b) t)" "subseq (addrs t') (addrs t)"
    "dom (nodes b') = dom (nodes b) - (set (addrs t) - set (addrs t'))"
    by (simp_all add: removed_def)
  have "key_sorted (nodes b') (addrs t')"
    using rep(3) unfolding key_sorted_contents rem(1) by (simp add: sorted_wrt_map sorted_wrt_filter)
  moreover have "distinct (addrs t')"
    using rem(2) rep(2) by (auto simp: subseq_conv_nths)
  moreover have "dom (nodes b') = set (addrs t')"
    using rem(2,3) rep(4) by (auto simp: subseq_conv_nths simp del: set_inorder dest: in_set_nthsD)
  ultimately show ?thesis
    using b'(1,2) rem(1) by (auto simp: bst_rep_def)
qed

lemma bst_remove_absent:
  assumes "bst_rep b t" "key \<notin> fst ` set (contents (nodes b) t)"
  shows "bst_remove key b = Some (Inr (False, b))"
  unfolding bst_remove_def using assms
  by (intro bst_remove_at_absent [of _ None _ t]) (auto simp: bst_rep_def keys_contents)

text \<open>The root with one child: the parent is null, and the code looks at its children.\<close>

lemma bst_remove_null_parent:
  assumes "bst_rep b t" "one_child t" "root b = Some a" "key_of (nodes b) a = key"
  shows "bst_remove key b = Some (Inl NullDeref)"
proof -
  obtain l r where t: "t = \<langle>l, a, r\<rangle>"
    using bst_rep_shape [OF assms(1)] assms(3) by (auto simp: shape_Some)
  obtain n where n: "nodes b a = Some n" "shape (nodes b) (Some a) (lf_left n) l" "shape (nodes b) (Some a) (lf_right n) r"
    using bst_rep_shape [OF assms(1)] t by auto
  have "(lf_left n = None) \<noteq> (lf_right n = None)"
    using n(2,3) assms(2) t by (cases l; cases r; auto)
  then show ?thesis
    using assms(3,4) n(1) unfolding bst_remove_def
    by (subst bst_remove_at.simps) (auto simp: remove_node_def replace_child_def deref_def)
qed

section \<open>The destructor\<close>

lemma deleteSubtree_shape:
  "shape (nodes b) par p t \<Longrightarrow> distinct (addrs t) \<Longrightarrow>
   deleteSubtree p b = Some (Inr (b\<lparr>nodes := nodes b |` (- set_tree t)\<rparr>))"
proof (induction t arbitrary: b par p)
  case Leaf
  then show ?case
    by (simp add: deleteSubtree.simps)
next
  case (Node l a r)
  then obtain n where n: "p = Some a" "nodes b a = Some n" "shape (nodes b) (Some a) (lf_left n) l"
      "shape (nodes b) (Some a) (lf_right n) r"
    by auto
  let ?b = "b\<lparr>nodes := nodes b |` (- set_tree l)\<rparr>"
  have dis: "a \<notin> set_tree l" "a \<notin> set_tree r" "set_tree l \<inter> set_tree r = {}" "distinct (addrs l)" "distinct (addrs r)"
    using Node.prems(2) by auto
  have "shape (nodes ?b) (Some a) (lf_right n) r"
    using n(4) dis(3) by (subst shape_cong [of _ _ "nodes b"]) (auto simp: restrict_map_def)
  then have r: "deleteSubtree (lf_right n) ?b = Some (Inr (?b\<lparr>nodes := nodes ?b |` (- set_tree r)\<rparr>))"
    using Node.IH(2) dis(5) by blast
  have upd: "(nodes b |` (- set_tree l \<inter> - set_tree r))(a := None) = nodes b |` (- set_tree \<langle>l, a, r\<rangle>)"
    by (auto simp: restrict_map_def)
  show ?case
    using n(1,2) Node.IH(1) [OF n(3) dis(4)] r dis(1,2) upd
    by (subst deleteSubtree.simps) (auto simp: delete_leaf_def)
qed

lemma bst_destroy_rep: "bst_rep b t \<Longrightarrow> bst_destroy b = Some (Inr (b\<lparr>nodes := Map.empty\<rparr>))"
proof -
  assume "bst_rep b t"
  then have "bst_destroy b = Some (Inr (b\<lparr>nodes := nodes b |` (- set_tree t)\<rparr>))" "dom (nodes b) = set_tree t"
    unfolding bst_destroy_def by (auto simp: bst_rep_def intro: deleteSubtree_shape)
  moreover from this have "nodes b |` (- set_tree t) = Map.empty"
    by (auto simp: restrict_map_def fun_eq_iff)
  ultimately show ?thesis
    by simp
qed

section \<open>The iterator\<close>

text \<open>The first element of a list, as a pointer.\<close>

definition first :: "addr list \<Rightarrow> addr option" where
  "first as = (case as of [] \<Rightarrow> None | a # _ \<Rightarrow> Some a)"

lemma min_addr_first: "min_addr t = first (addrs t)"
proof (cases "t = \<langle>\<rangle>")
  case False
  moreover from this have "addrs t \<noteq> []"
    by (cases t) auto
  ultimately show ?thesis
    by (cases "addrs t") (auto simp: first_def min_addr_hd)
qed (simp add: first_def)

lemma leftmost_shape: "shape h par p t \<Longrightarrow> t \<noteq> \<langle>\<rangle> \<Longrightarrow> leftmost h p = Some (Inr (min_addr t))"
proof (induction t arbitrary: par p)
  case (Node l a r)
  then obtain n where n: "p = Some a" "h a = Some n" "shape h (Some a) (lf_left n) l"
    by auto
  show ?case
    using n Node.IH(1) [OF n(3)] by (subst leftmost.simps) (cases l, auto)
qed simp

text \<open>Climbing from a subtree reaches the first node after it.\<close>

lemma climb_hole:
  assumes "hole h rt c (Some x)" "c \<noteq> []" "shape h (par_of c) (Some x) t" "distinct (addrs (plug c t))"
  shows "climb h (Some x) (par_of c) = Some (Inr (first (after c)))"
  using assms
proof (induction c arbitrary: x t)
  case (Cons e c)
  obtain d y u where e: "e = (d, y, u)"
    by (cases e)
  obtain yn where yn: "h y = Some yn" "lf_parent yn = par_of c"
    using hole_par Cons.prems(1) e by blast
  show ?case
  proof (cases d)
    case DirL
    have u: "shape h (Some y) (lf_right yn) u"
      using Cons.prems(1) e DirL yn by auto
    obtain n l r where n: "t = \<langle>l, x, r\<rangle>" "h x = Some n" "shape h (Some x) (lf_right n) r"
      using Cons.prems(3) by (auto simp: shape_Some)
    have dis: "x \<notin> set_tree u" "y \<notin> set_tree r"
      using Cons.prems(4) n(1) e DirL by (auto simp: addrs_plug)
    have "lf_right yn \<noteq> Some x" "lf_right n \<noteq> Some y"
      using u n(3) dis by (auto simp: shape_Some)
    then show ?thesis
      using e DirL yn n(2) by (subst climb.simps) (auto simp: first_def)
  next
    case DirR
    then have up: "hole h rt c (Some y)" "lf_right yn = Some x" "shape h (par_of c) (Some y) \<langle>u, y, t\<rangle>"
      using Cons.prems(1,3) e yn by auto
    show ?thesis
    proof (cases "c = []")
      case True
      then show ?thesis
        using e DirR yn up by (subst climb.simps) (simp add: first_def)
    next
      case False
      then have "par_of c \<noteq> None"
        by (cases c) auto
      moreover have "climb h (Some y) (par_of c) = Some (Inr (first (after c)))"
        using Cons.IH [OF up(1) False up(3)] Cons.prems(4) e DirR by simp
      ultimately show ?thesis
        using e DirR yn up by (subst climb.simps) auto
    qed
  qed
qed simp

lemma find_hole: "a \<in> set (addrs t) \<Longrightarrow> \<exists>c l r. t = plug c \<langle>l, a, r\<rangle>"
proof -
  have "\<exists>c' l r. plug c t = plug c' \<langle>l, a, r\<rangle>" if "a \<in> set (addrs t)" for c
    using that
  proof (induction t arbitrary: c)
    case (Node l x r)
    then consider "a = x" | "a \<in> set (addrs l)" | "a \<in> set (addrs r)"
      by auto
    then show ?case
      using Node.IH(1) [of "(DirL, x, r) # c"] Node.IH(2) [of "(DirR, x, l) # c"] by cases auto
  qed simp
  from this [of "[]"] show "a \<in> set (addrs t) \<Longrightarrow> \<exists>c l r. t = plug c \<langle>l, a, r\<rangle>"
    by simp
qed

text \<open>The iterator goes from each address to the next one in order.\<close>

lemma iter_increment_next:
  assumes "shape h None rt t" "distinct (addrs t)" "addrs t = pre @ a # suf"
  shows "iter_increment h (Some a) = Some (Inr (first suf))"
proof -
  obtain c l r where t: "t = plug c \<langle>l, a, r\<rangle>"
    using find_hole [of a t] assms(3) by (metis in_set_conv_decomp)
  have eq: "(before c @ addrs l) @ a # (addrs r @ after c) = pre @ a # suf"
    using assms(3) unfolding t addrs_plug by simp
  moreover have "a \<notin> set (before c @ addrs l)"
    using assms(2) unfolding t addrs_plug by auto
  moreover have "a \<notin> set (addrs r @ after c)"
    using assms(2) unfolding t addrs_plug by auto
  ultimately have suf: "suf = addrs r @ after c"
    by (metis append_Cons_eq_iff)
  obtain p where p: "hole h rt c p" "shape h (par_of c) p \<langle>l, a, r\<rangle>"
    using assms(1) unfolding t shape_plug by blast
  then obtain n where n: "p = Some a" "h a = Some n" "lf_parent n = par_of c" "shape h (Some a) (lf_right n) r"
    by auto
  show ?thesis
  proof (cases "r = \<langle>\<rangle>")
    case True
    then show ?thesis
    proof (cases "c = []")
      case False
      then have "par_of c \<noteq> None"
        by (cases c) auto
      then show ?thesis
        using climb_hole [OF _ False, of h rt a "\<langle>l, a, r\<rangle>"] p n True assms(2) t suf by (auto simp: iter_increment_def)
    qed (use n True suf in \<open>auto simp: iter_increment_def first_def\<close>)
  next
    case False
    then have "lf_right n \<noteq> None" "min_addr r = first suf"
      using n(4) suf min_addr_first [of r] by (cases r; auto simp: first_def split: list.splits)+
    then show ?thesis
      using n leftmost_shape [OF n(4) False] by (simp add: iter_increment_def)
  qed
qed

lemma iter_begin_first: "shape (nodes b) None (root b) t \<Longrightarrow> iter_begin b = Some (Inr (first (addrs t)))"
  using findMin_shape min_addr_first by (metis iter_begin_def)

section \<open>Properties\<close>

text \<open>A tree with the keys 10 and 20, the first at the root.\<close>

definition tree_10_20 :: "string bst" where
  "tree_10_20 = \<lparr>nodes = [7 \<mapsto> \<lparr>lf_key = 10, lf_val = ''a'', lf_color = RBNone, lf_parent = None, lf_left = None, lf_right = Some 8\<rparr>,
      8 \<mapsto> \<lparr>lf_key = 20, lf_val = ''b'', lf_color = RBNone, lf_parent = Some 7, lf_left = None, lf_right = None\<rparr>], root = Some 7\<rparr>"

lemma tree_10_20_rep: "bst_rep tree_10_20 \<langle>\<langle>\<rangle>, 7, \<langle>\<langle>\<rangle>, 8, \<langle>\<rangle>\<rangle>\<rangle>"
  by (auto simp: bst_rep_def tree_10_20_def key_sorted_def key_of_def)

lemma tree_10_20_contents: "contents (nodes tree_10_20) \<langle>\<langle>\<rangle>, 7, \<langle>\<langle>\<rangle>, 8, \<langle>\<rangle>\<rangle>\<rangle> = [(10, ''a''), (20, ''b'')]"
  by (simp add: contents_def entry_of_def tree_10_20_def)

text \<open>
  C32: Inserting an allocated, unlinked leaf into a search tree terminates. If its key is new, the
  result is a search tree whose entries are the old ones and that of the leaf; if the key is
  already in the tree, the kernel panics.
\<close>

theorem binary_search_tree_insert:
  assumes "bst_rep b t" "nodes b leaf = None" "unlinked n"
  shows "if lf_key n \<in> fst ` set (contents (nodes b) t)
    then bst_insert leaf (alloc_leaf leaf n b) = Some (Inl (Panic ''u wot m8''))
    else \<exists>b' t'. bst_insert leaf (alloc_leaf leaf n b) = Some (Inr b') \<and> bst_rep b' t'
      \<and> set (contents (nodes b') t') = insert (lf_key n, lf_val n) (set (contents (nodes b) t))"
  using bst_insert_rep [OF assms] bst_insert_duplicate [OF assms(1,2)] by simp

theorem binary_search_tree_insert_witness:
  "\<exists>b' t'. bst_insert 3 (alloc_leaf 3 \<lparr>lf_key = 15, lf_val = ''c'', lf_color = RBNone, lf_parent = None, lf_left = None, lf_right = None\<rparr> tree_10_20)
      = Some (Inr b') \<and> bst_rep b' t' \<and> set (contents (nodes b') t') = {(10, ''a''), (15, ''c''), (20, ''b'')}"
proof -
  have "nodes tree_10_20 3 = None"
    by (simp add: tree_10_20_def)
  from binary_search_tree_insert [OF tree_10_20_rep this,
      of "\<lparr>lf_key = 15, lf_val = ''c'', lf_color = RBNone, lf_parent = None, lf_left = None, lf_right = None\<rparr>"]
  show ?thesis
    by (simp add: tree_10_20_contents unlinked_def insert_commute)
qed

text \<open>
  C33: Removing a key from a search tree terminates and reports whether the key was there. Unless the
  key is that of a root with exactly one child, what is left is a search tree with the other
  entries, in the same order.
\<close>

theorem binary_search_tree_remove:
  assumes "bst_rep b t" "\<not> (one_child t \<and> map_option (key_of (nodes b)) (root b) = Some key)"
  shows "\<exists>b' t'. bst_remove key b = Some (Inr (key \<in> fst ` set (contents (nodes b) t), b')) \<and> bst_rep b' t'
    \<and> contents (nodes b') t' = filter (\<lambda>e. fst e \<noteq> key) (contents (nodes b) t)"
proof (cases "key \<in> fst ` set (contents (nodes b) t)")
  case True
  then show ?thesis
    using bst_remove_rep [OF assms(1) _ assms(2)] by simp
next
  case False
  then have "filter (\<lambda>e. fst e \<noteq> key) (contents (nodes b) t) = contents (nodes b) t"
    by (metis (mono_tags, lifting) filter_True image_eqI)
  then show ?thesis
    using False bst_remove_absent [OF assms(1) False] assms(1) by metis
qed

theorem binary_search_tree_remove_witness:
  "\<exists>b' t'. bst_remove 20 tree_10_20 = Some (Inr (True, b')) \<and> bst_rep b' t' \<and> contents (nodes b') t' = [(10, ''a'')]"
proof -
  have "\<not> (one_child \<langle>\<langle>\<rangle>, 7, \<langle>\<langle>\<rangle>, 8, \<langle>\<rangle>\<rangle>\<rangle> \<and> map_option (key_of (nodes tree_10_20)) (root tree_10_20) = Some 20)"
    by (simp add: tree_10_20_def key_of_def)
  from binary_search_tree_remove [OF tree_10_20_rep this] show ?thesis
    by (simp add: tree_10_20_contents)
qed

text \<open>
  C34: Removing the key of a root that has exactly one child dereferences a null pointer: the code
  looks for the node among the children of its parent, and the root has none.
\<close>

theorem binary_search_tree_remove_root:
  assumes "bst_rep b t" "one_child t" "root b = Some a" "key_of (nodes b) a = key"
  shows "bst_remove key b = Some (Inl NullDeref)"
  using bst_remove_null_parent [OF assms] .

theorem binary_search_tree_remove_root_witness:
  "bst_remove 10 tree_10_20 = Some (Inl NullDeref)"
  using binary_search_tree_remove_root [OF tree_10_20_rep, of 7 10] by (simp add: tree_10_20_def key_of_def)

text \<open>
  The iterator starts at the entry with the smallest key, goes from each entry to the one with the
  next larger key, and ends after the last one; iterating in order calls the callback on the same
  sequence.
\<close>

theorem binary_search_tree_iterator:
  assumes "bst_rep b t"
  shows "iter_begin b = Some (Inr (first (addrs t)))
    \<and> (\<forall>pre a suf. addrs t = pre @ a # suf \<longrightarrow> iter_increment (nodes b) (Some a) = Some (Inr (first suf)))
    \<and> iterateInOrder (\<lambda>n s. s @ [(lf_key n, lf_val n)]) (nodes b) (root b) [] = Some (Inr (contents (nodes b) t))
    \<and> sorted_wrt (<) (map fst (contents (nodes b) t))"
proof -
  have rep: "shape (nodes b) None (root b) t" "distinct (addrs t)" "key_sorted (nodes b) (addrs t)"
    using assms by (auto simp: bst_rep_def)
  have "fold (\<lambda>a s. s @ [(lf_key (the (nodes b a)), lf_val (the (nodes b a)))]) as s = s @ map (entry_of (nodes b)) as" for as s
    by (induction as arbitrary: s) (auto simp: entry_of_def)
  then have "iterateInOrder (\<lambda>n s. s @ [(lf_key n, lf_val n)]) (nodes b) (root b) [] = Some (Inr (contents (nodes b) t))"
    unfolding iterateInOrder_shape [OF rep(1)] contents_def by simp
  then show ?thesis
    using iter_begin_first [OF rep(1)] iter_increment_next [OF rep(1,2)] rep(3) key_sorted_contents by blast
qed

theorem binary_search_tree_iterator_witness:
  "iter_increment (nodes tree_10_20) (Some 7) = Some (Inr (Some 8)) \<and> iter_increment (nodes tree_10_20) (Some 8) = Some (Inr None)"
proof -
  have "iter_increment (nodes tree_10_20) (Some 7) = Some (Inr (first [8]))" "iter_increment (nodes tree_10_20) (Some 8) = Some (Inr (first []))"
    using binary_search_tree_iterator [OF tree_10_20_rep] by (auto simp: Cons_eq_append_conv)
  then show ?thesis
    by (simp add: first_def)
qed

end
