(* ===== verification/Rt_RBT.thy ===== *)
theory Rt_RBT
  imports Rt_BST_Ops
begin

text \<open>
  The red-black tree \<^verbatim>\<open>kernel/src/runtime/RedBlackTree.h\<close>, a subclass of the binary search tree whose
  insertion recolours and rotates. The rotations and the repair loop follow the pointers as the
  code does. Insertion is shown to keep the colour and height invariants as well as the search
  tree, so the height stays logarithmic. The repair after a removal is never called: removals go
  to the binary search tree.
\<close>

section \<open>Colours and rotations\<close>

definition field_of :: "addr option \<Rightarrow> ('v leaf \<Rightarrow> 'x) \<Rightarrow> 'v bst \<Rightarrow> 'x outcome" where
  "field_of p f b = obind (deref (nodes b) p) (\<lambda>n. Inr (f n))"

definition setColor :: "addr option \<Rightarrow> rb_color \<Rightarrow> 'v bst \<Rightarrow> 'v bst outcome" where
  "setColor p c b = put_leaf p (lf_color_update (\<lambda>_. c)) b"

definition Color :: "addr option \<Rightarrow> 'v bst \<Rightarrow> rb_color outcome" where
  "Color leaf b = (if leaf = None then Inr Black else field_of leaf lf_color b)"

text \<open>The new child of the parent of \<open>x\<close>, or the new root.\<close>

definition replace_left_first :: "addr option \<Rightarrow> addr option \<Rightarrow> 'v bst \<Rightarrow> 'v bst outcome" where
  "replace_left_first x y b =
     obind (field_of x lf_parent b) (\<lambda>xp.
     if xp = None then Inr (b\<lparr>root := y\<rparr>)
     else obind (field_of xp lf_left b) (\<lambda>xpl.
       if x = xpl then put_leaf xp (lf_left_update (\<lambda>_. y)) b else put_leaf xp (lf_right_update (\<lambda>_. y)) b))"

definition replace_right_first :: "addr option \<Rightarrow> addr option \<Rightarrow> 'v bst \<Rightarrow> 'v bst outcome" where
  "replace_right_first x y b =
     obind (field_of x lf_parent b) (\<lambda>xp.
     if xp = None then Inr (b\<lparr>root := y\<rparr>)
     else obind (field_of xp lf_right b) (\<lambda>xpr.
       if x = xpr then put_leaf xp (lf_right_update (\<lambda>_. y)) b else put_leaf xp (lf_left_update (\<lambda>_. y)) b))"

definition swap :: "addr option \<Rightarrow> addr option \<Rightarrow> 'v bst \<Rightarrow> 'v bst outcome" where
  "swap u v b =
     obind (replace_left_first u v b) (\<lambda>b.
     if v = None then Inr b
     else obind (field_of u lf_parent b) (\<lambda>up. put_leaf v (lf_parent_update (\<lambda>_. up)) b))"

definition leftRotate :: "addr option \<Rightarrow> 'v bst \<Rightarrow> 'v bst outcome" where
  "leftRotate x b =
     obind (field_of x lf_right b) (\<lambda>y.
     obind (field_of y lf_left b) (\<lambda>yl.
     obind (put_leaf x (lf_right_update (\<lambda>_. yl)) b) (\<lambda>b.
     obind (field_of y lf_left b) (\<lambda>yl.
     obind (if yl = None then Inr b else put_leaf yl (lf_parent_update (\<lambda>_. x)) b) (\<lambda>b.
     obind (field_of x lf_parent b) (\<lambda>xp.
     obind (put_leaf y (lf_parent_update (\<lambda>_. xp)) b) (\<lambda>b.
     obind (replace_left_first x y b) (\<lambda>b.
     obind (put_leaf y (lf_left_update (\<lambda>_. x)) b) (\<lambda>b.
     put_leaf x (lf_parent_update (\<lambda>_. y)) b)))))))))"

definition rightRotate :: "addr option \<Rightarrow> 'v bst \<Rightarrow> 'v bst outcome" where
  "rightRotate x b =
     obind (field_of x lf_left b) (\<lambda>y.
     obind (field_of y lf_right b) (\<lambda>yr.
     obind (put_leaf x (lf_left_update (\<lambda>_. yr)) b) (\<lambda>b.
     obind (field_of y lf_right b) (\<lambda>yr.
     obind (if yr = None then Inr b else put_leaf yr (lf_parent_update (\<lambda>_. x)) b) (\<lambda>b.
     obind (field_of x lf_parent b) (\<lambda>xp.
     obind (put_leaf y (lf_parent_update (\<lambda>_. xp)) b) (\<lambda>b.
     obind (replace_right_first x y b) (\<lambda>b.
     obind (put_leaf y (lf_right_update (\<lambda>_. x)) b) (\<lambda>b.
     put_leaf x (lf_parent_update (\<lambda>_. y)) b)))))))))"

section \<open>Repairing after an insertion\<close>

definition parent_of :: "addr option \<Rightarrow> 'v bst \<Rightarrow> addr option outcome" where
  "parent_of p b = field_of p lf_parent b"

definition grandparent_of :: "addr option \<Rightarrow> 'v bst \<Rightarrow> addr option outcome" where
  "grandparent_of p b = obind (parent_of p b) (\<lambda>q. parent_of q b)"

text \<open>The red uncle \<open>temp\<close>: move the blackness of the grandparent down.\<close>

definition recolor :: "addr option \<Rightarrow> addr option \<Rightarrow> 'v bst \<Rightarrow> (addr option \<times> 'v bst) outcome" where
  "recolor temp leaf b =
     obind (setColor temp Black b) (\<lambda>b.
     obind (parent_of leaf b) (\<lambda>p.
     obind (setColor p Black b) (\<lambda>b.
     obind (grandparent_of leaf b) (\<lambda>g.
     obind (setColor g Red b) (\<lambda>b.
     obind (grandparent_of leaf b) (\<lambda>g. Inr (g, b)))))))"

text \<open>The black uncle: the colours before the last rotation.\<close>

definition blacken_parent :: "addr option \<Rightarrow> 'v bst \<Rightarrow> (addr option \<times> 'v bst) outcome" where
  "blacken_parent leaf b =
     obind (parent_of leaf b) (\<lambda>p.
     obind (setColor p Black b) (\<lambda>b.
     obind (grandparent_of leaf b) (\<lambda>g.
     obind (setColor g Red b) (\<lambda>b.
     obind (grandparent_of leaf b) (\<lambda>g. Inr (g, b))))))"

text \<open>One iteration of the loop.\<close>

definition repair_step :: "addr option \<Rightarrow> 'v bst \<Rightarrow> (addr option \<times> 'v bst) outcome" where
  "repair_step leaf b =
     obind (parent_of leaf b) (\<lambda>p.
     obind (grandparent_of leaf b) (\<lambda>g.
     obind (field_of g lf_right b) (\<lambda>gr.
     if p = gr then
       obind (field_of g lf_left b) (\<lambda>temp.
       obind (Color temp b) (\<lambda>tc.
       if tc = Red then recolor temp leaf b
       else
         obind (field_of p lf_left b) (\<lambda>pl.
         obind (if leaf = pl then obind (rightRotate p b) (\<lambda>b. Inr (p, b)) else Inr (leaf, b)) (\<lambda>(leaf, b).
         obind (blacken_parent leaf b) (\<lambda>(g, b).
         obind (leftRotate g b) (\<lambda>b. Inr (leaf, b)))))))
     else
       obind (field_of g lf_right b) (\<lambda>temp.
       obind (Color temp b) (\<lambda>tc.
       if tc = Red then recolor temp leaf b
       else
         obind (field_of p lf_right b) (\<lambda>pr.
         obind (if leaf = pr then obind (leftRotate p b) (\<lambda>b. Inr (p, b)) else Inr (leaf, b)) (\<lambda>(leaf, b).
         obind (blacken_parent leaf b) (\<lambda>(g, b).
         obind (rightRotate g b) (\<lambda>b. Inr (leaf, b))))))))))"

partial_function (option) repairPostInsert :: "addr option \<Rightarrow> 'v bst \<Rightarrow> 'v bst outcome option" where
  "repairPostInsert leaf b =
     dbind (Some (parent_of leaf b)) (\<lambda>p.
     dbind (Some (if p = None then Inr Black else Color p b)) (\<lambda>pc.
     if pc \<noteq> Red then Some (setColor (root b) Black b)
     else dbind (Some (repair_step leaf b)) (\<lambda>(leaf, b).
       if leaf = root b then Some (setColor (root b) Black b) else repairPostInsert leaf b)))"

text \<open>What the method does after the leaf was linked.\<close>

definition rbt_finish :: "addr \<Rightarrow> 'v bst \<Rightarrow> (bool \<times> 'v bst) outcome option" where
  "rbt_finish leaf b =
     dbind (Some (setColor (Some leaf) Red b)) (\<lambda>b.
     dbind (Some (parent_of (Some leaf) b)) (\<lambda>p.
     if p = None then dbind (Some (setColor (Some leaf) Black b)) (\<lambda>b. Some (Inr (True, b)))
     else dbind (Some (grandparent_of (Some leaf) b)) (\<lambda>g.
       if g = None then Some (Inr (True, b))
       else dbind (repairPostInsert (Some leaf) b) (\<lambda>b. Some (Inr (True, b))))))"

partial_function (option) rbt_insert_at ::
  "u64 \<Rightarrow> addr \<Rightarrow> slot \<Rightarrow> addr option \<Rightarrow> 'v bst \<Rightarrow> (bool \<times> 'v bst) outcome option" where
  "rbt_insert_at key leaf slot parent b =
     dbind (insert_body rbt_insert_at key leaf slot parent b) (\<lambda>(inserted, b).
     if inserted then rbt_finish leaf b else Some (Inr (False, b)))"

definition rbt_insert :: "addr \<Rightarrow> 'v bst \<Rightarrow> 'v bst outcome option" where
  "rbt_insert leaf b =
     dbind (Some (deref (nodes b) (Some leaf))) (\<lambda>n.
     dbind (rbt_insert_at (lf_key n) leaf RootSlot None b) (\<lambda>(_, b). Some (Inr b)))"

section \<open>Repairing after a removal\<close>

text \<open>
  The two halves of the loop body differ in the sides they look at: where the sibling \<open>sib\<close> is, which
  two children of the sibling the first test reads, which child is \<open>inner\<close> and which \<open>outer\<close>, and the
  two rotations.
\<close>

definition sibling :: "('v leaf \<Rightarrow> addr option) \<Rightarrow> addr option \<Rightarrow> 'v bst \<Rightarrow> addr option outcome" where
  "sibling sib x b = obind (parent_of x b) (\<lambda>p. field_of p sib b)"

definition child_color :: "('v leaf \<Rightarrow> addr option) \<Rightarrow> addr option \<Rightarrow> 'v bst \<Rightarrow> rb_color outcome" where
  "child_color child s b = obind (field_of s child b) (\<lambda>c. Color c b)"

definition set_child_color :: "('v leaf \<Rightarrow> addr option) \<Rightarrow> addr option \<Rightarrow> rb_color \<Rightarrow> 'v bst \<Rightarrow> 'v bst outcome" where
  "set_child_color child s col b = obind (field_of s child b) (\<lambda>c. setColor c col b)"

definition delete_case ::
  "('v leaf \<Rightarrow> addr option) \<Rightarrow> ('v leaf \<Rightarrow> addr option) \<Rightarrow> ('v leaf \<Rightarrow> addr option)
   \<Rightarrow> ('v leaf \<Rightarrow> addr option) \<Rightarrow> ('v leaf \<Rightarrow> addr option)
   \<Rightarrow> (addr option \<Rightarrow> 'v bst \<Rightarrow> 'v bst outcome) \<Rightarrow> (addr option \<Rightarrow> 'v bst \<Rightarrow> 'v bst outcome)
   \<Rightarrow> addr option \<Rightarrow> 'v bst \<Rightarrow> (addr option \<times> 'v bst) outcome" where
  "delete_case sib test1 test2 inner outer rot rot_sib x b =
     obind (sibling sib x b) (\<lambda>s.
     obind (Color s b) (\<lambda>sc.
     obind (if sc = Red then
         obind (setColor s Black b) (\<lambda>b.
         obind (parent_of x b) (\<lambda>p.
         obind (setColor p Red b) (\<lambda>b.
         obind (parent_of x b) (\<lambda>p.
         obind (rot p b) (\<lambda>b.
         obind (sibling sib x b) (\<lambda>s. Inr (s, b)))))))
       else Inr (s, b)) (\<lambda>(s, b).
     obind (child_color test1 s b) (\<lambda>c1.
     obind (if c1 = Black then child_color test2 s b else Inr Red) (\<lambda>c2.
     if c2 = Black then
       obind (setColor s Red b) (\<lambda>b. obind (parent_of x b) (\<lambda>p. Inr (p, b)))
     else
       obind (child_color outer s b) (\<lambda>oc.
       obind (if oc = Black then
           obind (set_child_color inner s Black b) (\<lambda>b.
           obind (setColor s Red b) (\<lambda>b.
           obind (rot_sib s b) (\<lambda>b.
           obind (sibling sib x b) (\<lambda>s. Inr (s, b)))))
         else Inr (s, b)) (\<lambda>(s, b).
       obind (parent_of x b) (\<lambda>p.
       obind (Color p b) (\<lambda>pc.
       obind (setColor s pc b) (\<lambda>b.
       obind (parent_of x b) (\<lambda>p.
       obind (setColor p Black b) (\<lambda>b.
       obind (set_child_color outer s Black b) (\<lambda>b.
       obind (parent_of x b) (\<lambda>p.
       obind (rot p b) (\<lambda>b. Inr (root b, b))))))))))))))))"

definition delete_step :: "addr option \<Rightarrow> 'v bst \<Rightarrow> (addr option \<times> 'v bst) outcome" where
  "delete_step x b =
     obind (parent_of x b) (\<lambda>p.
     obind (field_of p lf_left b) (\<lambda>pl.
     if x = pl then delete_case lf_right lf_left lf_right lf_left lf_right leftRotate rightRotate x b
     else delete_case lf_left lf_right lf_right lf_right lf_left rightRotate leftRotate x b))"

partial_function (option) repairPostDelete :: "addr option \<Rightarrow> 'v bst \<Rightarrow> 'v bst outcome option" where
  "repairPostDelete x b =
     dbind (Some (if x \<noteq> None \<and> x \<noteq> root b then Color x b else Inr RBNone)) (\<lambda>c.
     if c = Black then dbind (Some (delete_step x b)) (\<lambda>(x, b). repairPostDelete x b)
     else Some (setColor x Black b))"

section \<open>Rotations in a tree\<close>

lemma field_of_Some [simp]: "nodes b a = Some n \<Longrightarrow> field_of (Some a) f b = Inr (f n)"
  by (simp add: field_of_def)

lemma put_Some [simp]: "nodes b a = Some n \<Longrightarrow> put_leaf (Some a) f b = Inr (b\<lparr>nodes := (nodes b)(a \<mapsto> f n)\<rparr>)"
  by (simp add: put_leaf_def)

text \<open>The new child of the parent is written into the slot of the hole.\<close>

lemma replace_left_first_slot:
  assumes "hole (nodes b) (root b) c (Some x)" "nodes b x = Some n" "lf_parent n = par_of c" "x \<notin> ctx_addrs c"
  shows "replace_left_first (Some x) y b = write_slot (slot_of c) y b"
proof (cases c)
  case Nil
  then show ?thesis
    using assms by (simp add: replace_left_first_def)
next
  case (Cons e c')
  obtain d q u where e: "e = (d, q, u)"
    by (cases e)
  have "lf_left m \<noteq> Some x" if "d = DirR" "nodes b q = Some m" for m
    using assms(1,4) that Cons e by (auto simp: shape_Some)
  then show ?thesis
    using assms Cons e by (cases d) (auto simp: replace_left_first_def)
qed

lemma replace_right_first_slot:
  assumes "hole (nodes b) (root b) c (Some x)" "nodes b x = Some n" "lf_parent n = par_of c" "x \<notin> ctx_addrs c"
  shows "replace_right_first (Some x) y b = write_slot (slot_of c) y b"
proof (cases c)
  case Nil
  then show ?thesis
    using assms by (simp add: replace_right_first_def)
next
  case (Cons e c')
  obtain d q u where e: "e = (d, q, u)"
    by (cases e)
  have "lf_right m \<noteq> Some x" if "d = DirL" "nodes b q = Some m" for m
    using assms(1,4) that Cons e by (auto simp: shape_Some)
  then show ?thesis
    using assms Cons e by (cases d) (auto simp: replace_right_first_def)
qed

text \<open>A subtree gets another parent.\<close>

lemma reparent:
  assumes "shape (nodes b) par q t" "distinct (addrs t)"
  shows "\<exists>h'. (if q = None then Inr b else put_leaf q (lf_parent_update (\<lambda>_. p')) b) = Inr (b\<lparr>nodes := h'\<rparr>)
    \<and> shape h' p' q t \<and> (\<forall>a. a \<notin> set_tree t \<longrightarrow> h' a = nodes b a) \<and> same_data (nodes b) h'"
proof (cases q)
  case None
  then show ?thesis
    using assms(1) by (intro exI [of _ "nodes b"]) (auto simp: shape_None)
next
  case (Some a)
  then obtain n where n: "nodes b a = Some n" "a \<in> set_tree t"
    using assms(1) by (auto simp: shape_Some)
  have "shape ((nodes b)(a \<mapsto> n\<lparr>lf_parent := p'\<rparr>)) p' (Some a) t"
    using shape_parent [of "nodes b" par a t n p'] assms n(1) Some by simp
  then show ?thesis
    using Some n by (intro exI [of _ "(nodes b)(a \<mapsto> n\<lparr>lf_parent := p'\<rparr>)"]) (auto intro!: same_data_upd simp: data_def)
qed

text \<open>The last part of a rotation: \<open>y\<close> takes the place of \<open>x\<close> and \<open>x\<close> becomes its child.\<close>

lemma take_place:
  assumes repl: "\<forall>b n. hole (nodes b) (root b) c (Some x) \<and> nodes b x = Some n \<and> lf_parent n = par_of c \<and> x \<notin> ctx_addrs c
      \<longrightarrow> repl (Some x) (Some y) b = write_slot (slot_of c) (Some y) b"
    and F: "\<And>n. data (F n) = data n"
    and hole: "hole (nodes b) (root b) c (Some x)" and n: "nodes b x = Some n" "nodes b y = Some m" "lf_parent n = par_of c"
    and dis: "x \<noteq> y" "x \<notin> ctx_addrs c" "y \<notin> ctx_addrs c" "distinct (before c @ after c)"
  shows "\<exists>b'. obind (field_of (Some x) lf_parent b) (\<lambda>xp.
      obind (put_leaf (Some y) (lf_parent_update (\<lambda>_. xp)) b) (\<lambda>b.
      obind (repl (Some x) (Some y) b) (\<lambda>b.
      obind (put_leaf (Some y) F b) (\<lambda>b.
      put_leaf (Some x) (lf_parent_update (\<lambda>_. Some y)) b)))) = Inr b'
    \<and> hole (nodes b') (root b') c (Some y)
    \<and> nodes b' y = Some (F (m\<lparr>lf_parent := par_of c\<rparr>)) \<and> nodes b' x = Some (n\<lparr>lf_parent := Some y\<rparr>)
    \<and> (\<forall>a. a \<notin> ctx_addrs c \<union> {x, y} \<longrightarrow> nodes b' a = nodes b a) \<and> same_data (nodes b) (nodes b')"
proof -
  let ?m = "m\<lparr>lf_parent := par_of c\<rparr>"
  let ?b1 = "b\<lparr>nodes := (nodes b)(y \<mapsto> ?m)\<rparr>"
  have hole1: "hole (nodes ?b1) (root ?b1) c (Some x)"
    using hole dis by simp
  then obtain b2 where b2: "write_slot (slot_of c) (Some y) ?b1 = Inr b2" "hole (nodes b2) (root b2) c (Some y)"
      "\<forall>a. a \<notin> ctx_addrs c \<longrightarrow> nodes b2 a = nodes ?b1 a" "same_data (nodes ?b1) (nodes b2)"
    using write_slot_hole [OF hole1 dis(4), of "Some y"] by blast
  have repl1: "repl (Some x) (Some y) ?b1 = Inr b2"
    using repl [rule_format, of ?b1 n] hole1 n dis b2(1) by simp
  have at: "nodes b2 y = Some ?m" "nodes b2 x = Some n"
    using b2(3) dis n by simp_all
  let ?b3 = "b2\<lparr>nodes := (nodes b2)(y \<mapsto> F ?m, x \<mapsto> n\<lparr>lf_parent := Some y\<rparr>)\<rparr>"
  have "same_data (nodes b) (nodes ?b1)" "same_data (nodes b2) ((nodes b2)(y \<mapsto> F ?m))"
    "same_data ((nodes b2)(y \<mapsto> F ?m)) (nodes ?b3)"
    using n at dis(1) F by (auto intro!: same_data_upd simp: data_def)
  then have "same_data (nodes b) (nodes ?b3)"
    using b2(4) same_data_trans by blast
  moreover have "hole (nodes ?b3) (root ?b3) c (Some y)"
    using b2(2) dis by simp
  moreover have "\<forall>a. a \<notin> ctx_addrs c \<union> {x, y} \<longrightarrow> nodes ?b3 a = nodes b a"
    using b2(3) by simp
  ultimately show ?thesis
    using n at repl1 dis(1) by (intro exI [of _ ?b3]) simp
qed

lemma replace_first_slots:
  "\<forall>b n. hole (nodes b) (root b) c (Some x) \<and> nodes b x = Some n \<and> lf_parent n = par_of c \<and> x \<notin> ctx_addrs c
    \<longrightarrow> replace_left_first (Some x) (Some y) b = write_slot (slot_of c) (Some y) b"
  "\<forall>b n. hole (nodes b) (root b) c (Some x) \<and> nodes b x = Some n \<and> lf_parent n = par_of c \<and> x \<notin> ctx_addrs c
    \<longrightarrow> replace_right_first (Some x) (Some y) b = write_slot (slot_of c) (Some y) b"
  by (blast intro: replace_left_first_slot replace_right_first_slot)+

lemma leftRotate_tree:
  assumes shp: "shape (nodes b) None (root b) (plug c \<langle>A, x, \<langle>B, y, C\<rangle>\<rangle>)"
    and dis: "distinct (addrs (plug c \<langle>A, x, \<langle>B, y, C\<rangle>\<rangle>))"
  shows "\<exists>b'. leftRotate (Some x) b = Inr b' \<and> shape (nodes b') None (root b') (plug c \<langle>\<langle>A, x, B\<rangle>, y, C\<rangle>)
    \<and> same_data (nodes b) (nodes b')"
proof -
  obtain n m where n: "hole (nodes b) (root b) c (Some x)" "nodes b x = Some n" "lf_parent n = par_of c"
      "shape (nodes b) (Some x) (lf_left n) A" "lf_right n = Some y" "nodes b y = Some m"
      "shape (nodes b) (Some y) (lf_left m) B" "shape (nodes b) (Some y) (lf_right m) C"
    using shp unfolding shape_plug by auto
  have dis': "distinct (addrs B)" "x \<noteq> y" "x \<notin> ctx_addrs c" "y \<notin> ctx_addrs c" "distinct (before c @ after c)"
    "x \<notin> set_tree A \<union> set_tree B \<union> set_tree C" "y \<notin> set_tree A \<union> set_tree B \<union> set_tree C"
    "(set_tree A \<union> set_tree B \<union> set_tree C) \<inter> ctx_addrs c = {}" "set_tree B \<inter> (set_tree A \<union> set_tree C) = {}"
    using dis by (auto simp: addrs_plug)
  let ?n = "n\<lparr>lf_right := lf_left m\<rparr>"
  let ?b1 = "b\<lparr>nodes := (nodes b)(x \<mapsto> ?n)\<rparr>"
  obtain h2 where h2: "(if lf_left m = None then Inr ?b1 else put_leaf (lf_left m) (lf_parent_update (\<lambda>_. Some x)) ?b1) = Inr (?b1\<lparr>nodes := h2\<rparr>)"
      "shape h2 (Some x) (lf_left m) B" "\<forall>a. a \<notin> set_tree B \<longrightarrow> h2 a = nodes ?b1 a" "same_data (nodes ?b1) h2"
    using reparent [of ?b1 "Some y" "lf_left m" B "Some x"] n(7) dis'(1,6) by auto
  let ?b2 = "?b1\<lparr>nodes := h2\<rparr>"
  have at: "nodes ?b2 x = Some ?n" "nodes ?b2 y = Some m" "hole (nodes ?b2) (root ?b2) c (Some x)"
    using h2(3) dis' n(1,2,6) by (auto intro!: hole_cong [THEN iffD2, of _ _ "nodes b"])
  have data: "data (lf_left_update (\<lambda>_. Some x) k) = data k" "lf_parent ?n = par_of c" for k :: "'a leaf"
    using n(3) by (simp_all add: data_def)
  obtain b' where b': "obind (field_of (Some x) lf_parent ?b2) (\<lambda>xp.
      obind (put_leaf (Some y) (lf_parent_update (\<lambda>_. xp)) ?b2) (\<lambda>b.
      obind (replace_left_first (Some x) (Some y) b) (\<lambda>b.
      obind (put_leaf (Some y) (lf_left_update (\<lambda>_. Some x)) b) (\<lambda>b.
      put_leaf (Some x) (lf_parent_update (\<lambda>_. Some y)) b)))) = Inr b'"
    "hole (nodes b') (root b') c (Some y)"
    "nodes b' y = Some (m\<lparr>lf_parent := par_of c, lf_left := Some x\<rparr>)" "nodes b' x = Some (?n\<lparr>lf_parent := Some y\<rparr>)"
    "\<forall>a. a \<notin> ctx_addrs c \<union> {x, y} \<longrightarrow> nodes b' a = nodes ?b2 a" "same_data (nodes ?b2) (nodes b')"
    using take_place [of c x replace_left_first y "lf_left_update (\<lambda>_. Some x)" ?b2 ?n m,
        OF replace_first_slots(1) data(1) at(3,1,2) data(2) dis'(2-5)] by blast
  have "nodes b' a = nodes b a" if "a \<in> set_tree A \<union> set_tree C" for a
  proof -
    have "a \<notin> ctx_addrs c \<union> {x, y}" "a \<notin> set_tree B" "a \<noteq> x"
      using that dis'(6-9) by auto
    then show ?thesis
      using b'(5) h2(3) by simp
  qed
  moreover have "nodes b' a = h2 a" if "a \<in> set_tree B" for a
    using that b'(5) dis'(6-8) by auto
  ultimately have "shape (nodes b') (Some x) (lf_left n) A" "shape (nodes b') (Some x) (lf_left m) B" "shape (nodes b') (Some y) (lf_right m) C"
    using n(4,8) h2(2) shape_cong [of A "nodes b'" "nodes b"] shape_cong [of B "nodes b'" h2] shape_cong [of C "nodes b'" "nodes b"]
    by simp_all
  then have "shape (nodes b') None (root b') (plug c \<langle>\<langle>A, x, B\<rangle>, y, C\<rangle>)"
    using b'(2-4) unfolding shape_plug by auto
  moreover have "same_data (nodes b) (nodes ?b1)"
    using n(2) by (auto intro!: same_data_upd simp: data_def)
  then have "same_data (nodes b) (nodes b')"
    using same_data_trans [OF _ h2(4)] same_data_trans [OF _ b'(6)] by simp
  moreover have "leftRotate (Some x) b = Inr b'"
    unfolding leftRotate_def using n dis'(2) h2(1) b'(1) by simp
  ultimately show ?thesis
    by blast
qed

lemma rightRotate_tree:
  assumes shp: "shape (nodes b) None (root b) (plug c \<langle>\<langle>C, y, B\<rangle>, x, A\<rangle>)"
    and dis: "distinct (addrs (plug c \<langle>\<langle>C, y, B\<rangle>, x, A\<rangle>))"
  shows "\<exists>b'. rightRotate (Some x) b = Inr b' \<and> shape (nodes b') None (root b') (plug c \<langle>C, y, \<langle>B, x, A\<rangle>\<rangle>)
    \<and> same_data (nodes b) (nodes b')"
proof -
  obtain n m where n: "hole (nodes b) (root b) c (Some x)" "nodes b x = Some n" "lf_parent n = par_of c"
      "shape (nodes b) (Some x) (lf_right n) A" "lf_left n = Some y" "nodes b y = Some m"
      "shape (nodes b) (Some y) (lf_right m) B" "shape (nodes b) (Some y) (lf_left m) C"
    using shp unfolding shape_plug by auto
  have dis': "distinct (addrs B)" "x \<noteq> y" "x \<notin> ctx_addrs c" "y \<notin> ctx_addrs c" "distinct (before c @ after c)"
    "x \<notin> set_tree A \<union> set_tree B \<union> set_tree C" "y \<notin> set_tree A \<union> set_tree B \<union> set_tree C"
    "(set_tree A \<union> set_tree B \<union> set_tree C) \<inter> ctx_addrs c = {}" "set_tree B \<inter> (set_tree A \<union> set_tree C) = {}"
    using dis by (auto simp: addrs_plug)
  let ?n = "n\<lparr>lf_left := lf_right m\<rparr>"
  let ?b1 = "b\<lparr>nodes := (nodes b)(x \<mapsto> ?n)\<rparr>"
  obtain h2 where h2: "(if lf_right m = None then Inr ?b1 else put_leaf (lf_right m) (lf_parent_update (\<lambda>_. Some x)) ?b1) = Inr (?b1\<lparr>nodes := h2\<rparr>)"
      "shape h2 (Some x) (lf_right m) B" "\<forall>a. a \<notin> set_tree B \<longrightarrow> h2 a = nodes ?b1 a" "same_data (nodes ?b1) h2"
    using reparent [of ?b1 "Some y" "lf_right m" B "Some x"] n(7) dis'(1,6) by auto
  let ?b2 = "?b1\<lparr>nodes := h2\<rparr>"
  have at: "nodes ?b2 x = Some ?n" "nodes ?b2 y = Some m" "hole (nodes ?b2) (root ?b2) c (Some x)"
    using h2(3) dis' n(1,2,6) by (auto intro!: hole_cong [THEN iffD2, of _ _ "nodes b"])
  have data: "data (lf_right_update (\<lambda>_. Some x) k) = data k" "lf_parent ?n = par_of c" for k :: "'a leaf"
    using n(3) by (simp_all add: data_def)
  obtain b' where b': "obind (field_of (Some x) lf_parent ?b2) (\<lambda>xp.
      obind (put_leaf (Some y) (lf_parent_update (\<lambda>_. xp)) ?b2) (\<lambda>b.
      obind (replace_right_first (Some x) (Some y) b) (\<lambda>b.
      obind (put_leaf (Some y) (lf_right_update (\<lambda>_. Some x)) b) (\<lambda>b.
      put_leaf (Some x) (lf_parent_update (\<lambda>_. Some y)) b)))) = Inr b'"
    "hole (nodes b') (root b') c (Some y)"
    "nodes b' y = Some (m\<lparr>lf_parent := par_of c, lf_right := Some x\<rparr>)" "nodes b' x = Some (?n\<lparr>lf_parent := Some y\<rparr>)"
    "\<forall>a. a \<notin> ctx_addrs c \<union> {x, y} \<longrightarrow> nodes b' a = nodes ?b2 a" "same_data (nodes ?b2) (nodes b')"
    using take_place [of c x replace_right_first y "lf_right_update (\<lambda>_. Some x)" ?b2 ?n m,
        OF replace_first_slots(2) data(1) at(3,1,2) data(2) dis'(2-5)] by blast
  have "nodes b' a = nodes b a" if "a \<in> set_tree A \<union> set_tree C" for a
  proof -
    have "a \<notin> ctx_addrs c \<union> {x, y}" "a \<notin> set_tree B" "a \<noteq> x"
      using that dis'(6-9) by auto
    then show ?thesis
      using b'(5) h2(3) by simp
  qed
  moreover have "nodes b' a = h2 a" if "a \<in> set_tree B" for a
    using that b'(5) dis'(6-8) by auto
  ultimately have "shape (nodes b') (Some x) (lf_right n) A" "shape (nodes b') (Some x) (lf_right m) B" "shape (nodes b') (Some y) (lf_left m) C"
    using n(4,8) h2(2) shape_cong [of A "nodes b'" "nodes b"] shape_cong [of B "nodes b'" h2] shape_cong [of C "nodes b'" "nodes b"]
    by simp_all
  then have "shape (nodes b') None (root b') (plug c \<langle>C, y, \<langle>B, x, A\<rangle>\<rangle>)"
    using b'(2-4) unfolding shape_plug by auto
  moreover have "same_data (nodes b) (nodes ?b1)"
    using n(2) by (auto intro!: same_data_upd simp: data_def)
  then have "same_data (nodes b) (nodes b')"
    using same_data_trans [OF _ h2(4)] same_data_trans [OF _ b'(6)] by simp
  moreover have "rightRotate (Some x) b = Inr b'"
    unfolding rightRotate_def using n dis'(2) h2(1) b'(1) by simp
  ultimately show ?thesis
    by blast
qed

section \<open>Coloured trees\<close>

fun root_of :: "addr tree \<Rightarrow> addr option" where
  "root_of \<langle>\<rangle> = None"
| "root_of \<langle>l, a, r\<rangle> = Some a"

fun root_color :: "(addr \<Rightarrow> rb_color) \<Rightarrow> addr tree \<Rightarrow> rb_color" where
  "root_color cl \<langle>\<rangle> = Black"
| "root_color cl \<langle>l, a, r\<rangle> = cl a"

text \<open>
  The heap holds the tree with the given colours. What is read from it and what the steps do to
  it is stated on trees from here on.
\<close>

definition color_of :: "'v leaf_heap \<Rightarrow> addr \<Rightarrow> rb_color" where
  "color_of h a = lf_color (the (h a))"

definition holds :: "'v bst \<Rightarrow> addr tree \<Rightarrow> (addr \<Rightarrow> rb_color) \<Rightarrow> bool" where
  "holds b t cl \<longleftrightarrow> shape (nodes b) None (root b) t \<and> distinct (addrs t) \<and> (\<forall>a \<in> set_tree t. color_of (nodes b) a = cl a)"

definition same_entries :: "'v leaf_heap \<Rightarrow> 'v leaf_heap \<Rightarrow> bool" where
  "same_entries h h' \<longleftrightarrow> (\<forall>a. map_option (\<lambda>n. (lf_key n, lf_val n)) (h' a) = map_option (\<lambda>n. (lf_key n, lf_val n)) (h a))"

lemma same_entries_refl [simp]: "same_entries h h"
  by (simp add: same_entries_def)

lemma same_entries_trans: "same_entries h h' \<Longrightarrow> same_entries h' h'' \<Longrightarrow> same_entries h h''"
  by (simp add: same_entries_def)

lemma same_data_entries: "same_data h h' \<Longrightarrow> same_entries h h'"
  unfolding same_entries_def
proof
  fix a
  assume "same_data h h'"
  then have "map_option data (h' a) = map_option data (h a)"
    by (simp add: same_data_def)
  then show "map_option (\<lambda>n. (lf_key n, lf_val n)) (h' a) = map_option (\<lambda>n. (lf_key n, lf_val n)) (h a)"
    by (cases "h' a"; cases "h a") (auto simp: data_def)
qed

lemma shape_root: "shape h par p t \<Longrightarrow> p = root_of t"
  by (cases t) auto

lemma root_of_None [simp]: "root_of t = None \<longleftrightarrow> t = \<langle>\<rangle>"
  by (cases t) auto

lemma holds_root: "holds b t cl \<Longrightarrow> root b = root_of t"
  by (auto simp: holds_def intro: shape_root)

lemma holds_data:
  assumes "holds b t cl" "shape (nodes b') None (root b') t'" "same_data (nodes b) (nodes b')" "addrs t' = addrs t"
  shows "holds b' t' cl"
proof -
  have set: "set_tree t' = set_tree t"
    using assms(4) set_inorder by metis
  have "color_of (nodes b') a = cl a" if "a \<in> set_tree t" for a
  proof -
    have "a \<in> dom (nodes b)"
      using assms(1) that shape_addrs [of "nodes b" None "root b" t a] by (auto simp: holds_def)
    then show ?thesis
      using same_data_of(3) [OF assms(3)] assms(1) that by (simp add: holds_def color_of_def)
  qed
  then show ?thesis
    using assms set by (simp add: holds_def)
qed

lemma leftRotate_holds:
  assumes "holds b (plug c \<langle>A, x, \<langle>B, y, C\<rangle>\<rangle>) cl"
  shows "\<exists>b'. leftRotate (Some x) b = Inr b' \<and> holds b' (plug c \<langle>\<langle>A, x, B\<rangle>, y, C\<rangle>) cl \<and> same_entries (nodes b) (nodes b')"
proof -
  obtain b' where b': "leftRotate (Some x) b = Inr b'" "shape (nodes b') None (root b') (plug c \<langle>\<langle>A, x, B\<rangle>, y, C\<rangle>)"
      "same_data (nodes b) (nodes b')"
    using leftRotate_tree [of b c A x B y C] assms by (auto simp: holds_def)
  then show ?thesis
    using holds_data [OF assms b'(2,3)] same_data_entries by (auto simp: addrs_plug)
qed

lemma rightRotate_holds:
  assumes "holds b (plug c \<langle>\<langle>C, y, B\<rangle>, x, A\<rangle>) cl"
  shows "\<exists>b'. rightRotate (Some x) b = Inr b' \<and> holds b' (plug c \<langle>C, y, \<langle>B, x, A\<rangle>\<rangle>) cl \<and> same_entries (nodes b) (nodes b')"
proof -
  obtain b' where b': "rightRotate (Some x) b = Inr b'" "shape (nodes b') None (root b') (plug c \<langle>C, y, \<langle>B, x, A\<rangle>\<rangle>)"
      "same_data (nodes b) (nodes b')"
    using rightRotate_tree [of b c C y B x A] assms by (auto simp: holds_def)
  then show ?thesis
    using holds_data [OF assms b'(2,3)] same_data_entries by (auto simp: addrs_plug)
qed

lemma setColor_holds:
  assumes "holds b t cl" "a \<in> set_tree t"
  shows "\<exists>b'. setColor (Some a) col b = Inr b' \<and> holds b' t (cl(a := col)) \<and> same_entries (nodes b) (nodes b')"
proof -
  obtain n where n: "nodes b a = Some n"
    using assms shape_addrs [of "nodes b" None "root b" t a] by (auto simp: holds_def)
  let ?b = "b\<lparr>nodes := (nodes b)(a \<mapsto> n\<lparr>lf_color := col\<rparr>)\<rparr>"
  have "shape (nodes ?b) None (root ?b) t"
    using assms(1) n shape_links [of "nodes b" None "root b" t a n] by (simp add: holds_def same_links_def)
  then have "holds ?b t (cl(a := col))"
    using assms(1) by (auto simp: holds_def color_of_def)
  moreover have "same_entries (nodes b) (nodes ?b)"
    using n by (simp add: same_entries_def)
  ultimately show ?thesis
    using n by (simp add: setColor_def)
qed

text \<open>Reading a node at the hole.\<close>

lemma holds_get:
  assumes "holds b (plug c \<langle>l, x, r\<rangle>) cl"
  shows "parent_of (Some x) b = Inr (par_of c)" "field_of (Some x) lf_left b = Inr (root_of l)"
    "field_of (Some x) lf_right b = Inr (root_of r)"
proof -
  obtain n where "nodes b x = Some n" "lf_parent n = par_of c" "shape (nodes b) (Some x) (lf_left n) l"
      "shape (nodes b) (Some x) (lf_right n) r"
    using assms by (auto simp: holds_def shape_plug)
  then show "parent_of (Some x) b = Inr (par_of c)" "field_of (Some x) lf_left b = Inr (root_of l)"
    "field_of (Some x) lf_right b = Inr (root_of r)"
    using shape_root by (auto simp: parent_of_def)
qed

lemma holds_Color: "holds b (plug c t) cl \<Longrightarrow> Color (root_of t) b = Inr (root_color cl t)"
proof (cases t)
  case (Node l x r)
  assume h: "holds b (plug c t) cl"
  then obtain n where "nodes b x = Some n"
    using Node by (auto simp: holds_def shape_plug)
  moreover have "x \<in> set_tree (plug c t)"
    using addrs_plug [of c t] Node by (metis Un_iff set_append set_inorder tree.set_intros(2))
  ultimately show ?thesis
    using h Node by (auto simp: holds_def Color_def color_of_def)
qed (simp add: Color_def)

lemma holds_mem: "holds b (plug c t) cl \<Longrightarrow> a \<in> set_tree t \<Longrightarrow> a \<in> set_tree (plug c t)"
  using addrs_plug [of c t] by (metis Un_iff set_append set_inorder)

section \<open>Steps of the repair\<close>

fun node :: "dir \<Rightarrow> addr \<Rightarrow> addr tree \<Rightarrow> addr tree \<Rightarrow> addr tree" where
  "node DirL a t u = \<langle>t, a, u\<rangle>"
| "node DirR a t u = \<langle>u, a, t\<rangle>"

fun flip :: "dir \<Rightarrow> dir" where
  "flip DirL = DirR"
| "flip DirR = DirL"

lemma plug_node: "plug ((d, a, u) # c) t = plug c (node d a t u)"
  by (cases d) auto

lemma node_flip: "node d a t u = node (flip d) a u t"
  by (cases d) auto

text \<open>What the loop body reads when the leaf \<open>x\<close> has a grandparent \<open>g\<close> and the uncle \<open>u\<close>.\<close>

lemma holds_up:
  assumes "holds b (plug ((d, p, u1) # (e, g, u) # c) \<langle>l, x, r\<rangle>) cl"
  shows "parent_of (Some x) b = Inr (Some p)" "parent_of (Some p) b = Inr (Some g)" "grandparent_of (Some x) b = Inr (Some g)"
    "field_of (Some g) lf_right b = Inr (if e = DirR then Some p else root_of u)"
    "field_of (Some g) lf_left b = Inr (if e = DirL then Some p else root_of u)"
    "field_of (Some p) lf_right b = Inr (if d = DirR then Some x else root_of u1)"
    "field_of (Some p) lf_left b = Inr (if d = DirL then Some x else root_of u1)"
    "Color (root_of u) b = Inr (root_color cl u)" "root_of u \<noteq> Some p" "root_of u1 \<noteq> Some x"
proof -
  show p: "parent_of (Some x) b = Inr (Some p)"
    using holds_get(1) [OF assms] by simp
  have p2: "holds b (plug ((e, g, u) # c) (node d p \<langle>l, x, r\<rangle> u1)) cl"
    using assms by (cases d) auto
  then show g: "parent_of (Some p) b = Inr (Some g)" "field_of (Some p) lf_right b = Inr (if d = DirR then Some x else root_of u1)"
    "field_of (Some p) lf_left b = Inr (if d = DirL then Some x else root_of u1)"
    by (cases d; auto dest: holds_get)+
  show "grandparent_of (Some x) b = Inr (Some g)"
    using p g by (simp add: grandparent_of_def)
  have "holds b (plug c (node e g (node d p \<langle>l, x, r\<rangle> u1) u)) cl"
    using p2 by (cases e) auto
  then show "field_of (Some g) lf_right b = Inr (if e = DirR then Some p else root_of u)"
    "field_of (Some g) lf_left b = Inr (if e = DirL then Some p else root_of u)"
    by (cases d; cases e; auto dest: holds_get)+
  have "holds b (plug ((flip e, g, node d p \<langle>l, x, r\<rangle> u1) # c) u) cl"
    using p2 by (cases e) auto
  then show "Color (root_of u) b = Inr (root_color cl u)"
    by (rule holds_Color)
  have "p \<notin> set_tree u" "x \<notin> set_tree u1"
    using assms by (cases d; cases e; auto simp: holds_def addrs_plug)+
  then show "root_of u \<noteq> Some p" "root_of u1 \<noteq> Some x"
    by (cases u; cases u1; auto)+
qed

lemma step_recolor:
  assumes h: "holds b (plug ((d, p, u1) # (e, g, \<langle>ul, t, ur\<rangle>) # c) \<langle>l, x, r\<rangle>) cl" and red: "cl t = Red"
  shows "\<exists>b'. repair_step (Some x) b = Inr (Some g, b') \<and> same_entries (nodes b) (nodes b')
    \<and> holds b' (plug ((d, p, u1) # (e, g, \<langle>ul, t, ur\<rangle>) # c) \<langle>l, x, r\<rangle>) (cl(t := Black, p := Black, g := Red))"
proof -
  let ?t = "plug ((d, p, u1) # (e, g, \<langle>ul, t, ur\<rangle>) # c) \<langle>l, x, r\<rangle>"
  have mem: "t \<in> set_tree ?t" "p \<in> set_tree ?t" "g \<in> set_tree ?t"
    using addrs_plug [of "(d, p, u1) # (e, g, \<langle>ul, t, ur\<rangle>) # c" "\<langle>l, x, r\<rangle>"]
    by (cases d; cases e; simp flip: set_inorder)+
  obtain b1 where b1: "setColor (Some t) Black b = Inr b1" "holds b1 ?t (cl(t := Black))" "same_entries (nodes b) (nodes b1)"
    using setColor_holds [OF h mem(1)] by blast
  obtain b2 where b2: "setColor (Some p) Black b1 = Inr b2" "holds b2 ?t (cl(t := Black, p := Black))" "same_entries (nodes b1) (nodes b2)"
    using setColor_holds [OF b1(2) mem(2)] by blast
  obtain b3 where b3: "setColor (Some g) Red b2 = Inr b3" "holds b3 ?t (cl(t := Black, p := Black, g := Red))" "same_entries (nodes b2) (nodes b3)"
    using setColor_holds [OF b2(2) mem(3)] by blast
  have "recolor (Some t) (Some x) b = Inr (Some g, b3)"
    using b1(1) b2(1) b3(1) holds_up(1,3) [OF b1(2)] holds_up(3) [OF b2(2)] holds_up(3) [OF b3(2)] by (simp add: recolor_def)
  moreover have "repair_step (Some x) b = recolor (Some t) (Some x) b"
    using holds_up [OF h] red by (cases e) (auto simp: repair_step_def)
  ultimately show ?thesis
    using b3(2) same_entries_trans [OF same_entries_trans [OF b1(3) b2(3)] b3(3)] by simp
qed

lemma blacken_holds:
  assumes h: "holds b (plug ((d, p, u1) # (e, g, u) # c) \<langle>l, x, r\<rangle>) cl"
  shows "\<exists>b'. blacken_parent (Some x) b = Inr (Some g, b') \<and> same_entries (nodes b) (nodes b')
    \<and> holds b' (plug ((d, p, u1) # (e, g, u) # c) \<langle>l, x, r\<rangle>) (cl(p := Black, g := Red))"
proof -
  let ?t = "plug ((d, p, u1) # (e, g, u) # c) \<langle>l, x, r\<rangle>"
  have mem: "p \<in> set_tree ?t" "g \<in> set_tree ?t"
    using addrs_plug [of "(d, p, u1) # (e, g, u) # c" "\<langle>l, x, r\<rangle>"] by (cases d; cases e; simp flip: set_inorder)+
  obtain b1 where b1: "setColor (Some p) Black b = Inr b1" "holds b1 ?t (cl(p := Black))" "same_entries (nodes b) (nodes b1)"
    using setColor_holds [OF h mem(1)] by blast
  obtain b2 where b2: "setColor (Some g) Red b1 = Inr b2" "holds b2 ?t (cl(p := Black, g := Red))" "same_entries (nodes b1) (nodes b2)"
    using setColor_holds [OF b1(2) mem(2)] by blast
  have "blacken_parent (Some x) b = Inr (Some g, b2)"
    using b1(1) b2(1) holds_up(1) [OF h] holds_up(3) [OF b1(2)] holds_up(3) [OF b2(2)] by (simp add: blacken_parent_def)
  then show ?thesis
    using b2(2) same_entries_trans [OF b1(3) b2(3)] by simp
qed

lemma outer_right:
  assumes "holds b (plug ((DirR, p, u1) # (DirR, g, u) # c) \<langle>l, x, r\<rangle>) cl"
  shows "\<exists>b'. obind (blacken_parent (Some x) b) (\<lambda>(g, b). obind (leftRotate g b) (\<lambda>b. Inr (Some x, b))) = Inr (Some x, b')
    \<and> same_entries (nodes b) (nodes b') \<and> holds b' (plug ((DirR, p, \<langle>u, g, u1\<rangle>) # c) \<langle>l, x, r\<rangle>) (cl(p := Black, g := Red))"
proof -
  obtain b1 where b1: "blacken_parent (Some x) b = Inr (Some g, b1)" "same_entries (nodes b) (nodes b1)"
      "holds b1 (plug c \<langle>u, g, \<langle>u1, p, \<langle>l, x, r\<rangle>\<rangle>\<rangle>) (cl(p := Black, g := Red))"
    using blacken_holds [OF assms] by (auto simp del: fun_upd_apply)
  obtain b2 where b2: "leftRotate (Some g) b1 = Inr b2" "holds b2 (plug c \<langle>\<langle>u, g, u1\<rangle>, p, \<langle>l, x, r\<rangle>\<rangle>) (cl(p := Black, g := Red))"
      "same_entries (nodes b1) (nodes b2)"
    using leftRotate_holds [OF b1(3)] by blast
  show ?thesis
    using b1(1) b2(1,2) same_entries_trans [OF b1(2) b2(3)] by (auto simp del: fun_upd_apply)
qed

lemma outer_left:
  assumes "holds b (plug ((DirL, p, u1) # (DirL, g, u) # c) \<langle>l, x, r\<rangle>) cl"
  shows "\<exists>b'. obind (blacken_parent (Some x) b) (\<lambda>(g, b). obind (rightRotate g b) (\<lambda>b. Inr (Some x, b))) = Inr (Some x, b')
    \<and> same_entries (nodes b) (nodes b') \<and> holds b' (plug ((DirL, p, \<langle>u1, g, u\<rangle>) # c) \<langle>l, x, r\<rangle>) (cl(p := Black, g := Red))"
proof -
  obtain b1 where b1: "blacken_parent (Some x) b = Inr (Some g, b1)" "same_entries (nodes b) (nodes b1)"
      "holds b1 (plug c \<langle>\<langle>\<langle>l, x, r\<rangle>, p, u1\<rangle>, g, u\<rangle>) (cl(p := Black, g := Red))"
    using blacken_holds [OF assms] by (auto simp del: fun_upd_apply)
  obtain b2 where b2: "rightRotate (Some g) b1 = Inr b2" "holds b2 (plug c \<langle>\<langle>l, x, r\<rangle>, p, \<langle>u1, g, u\<rangle>\<rangle>) (cl(p := Black, g := Red))"
      "same_entries (nodes b1) (nodes b2)"
    using rightRotate_holds [OF b1(3)] by blast
  show ?thesis
    using b1(1) b2(1,2) same_entries_trans [OF b1(2) b2(3)] by (auto simp del: fun_upd_apply)
qed

text \<open>
  With a black uncle the loop body ends with a black node \<open>q\<close> in the place of the grandparent: the
  leaf \<open>z\<close> it continues with and \<open>g\<close> are its red children, and the four subtrees are the old ones.
\<close>

lemma step_rotate:
  assumes h: "holds b (plug ((d, p, u1) # (e, g, u) # c) \<langle>l, x, r\<rangle>) cl" and black: "root_color cl u \<noteq> Red"
  shows "\<exists>b' q z zl zr A B. repair_step (Some x) b = Inr (Some z, b') \<and> same_entries (nodes b) (nodes b')
    \<and> holds b' (plug ((e, q, \<langle>A, g, B\<rangle>) # c) \<langle>zl, z, zr\<rangle>) (cl(q := Black, g := Red))
    \<and> addrs (plug ((e, q, \<langle>A, g, B\<rangle>) # c) \<langle>zl, z, zr\<rangle>) = addrs (plug ((d, p, u1) # (e, g, u) # c) \<langle>l, x, r\<rangle>)
    \<and> {z, q} = {x, p} \<and> {zl, zr, A, B} \<subseteq> {l, r, u1, u}"
proof (cases e)
  case DirR
  note up = holds_up [OF h, unfolded DirR]
  show ?thesis
  proof (cases d)
    case DirR
    obtain b2 where b2: "obind (blacken_parent (Some x) b) (\<lambda>(g, b). obind (leftRotate g b) (\<lambda>b. Inr (Some x, b))) = Inr (Some x, b2)"
        "same_entries (nodes b) (nodes b2)" "holds b2 (plug ((DirR, p, \<langle>u, g, u1\<rangle>) # c) \<langle>l, x, r\<rangle>) (cl(p := Black, g := Red))"
      using outer_right [of b p u1 g u c l x r cl] h \<open>e = DirR\<close> DirR by blast
    have "repair_step (Some x) b = Inr (Some x, b2)"
      using up black \<open>d = DirR\<close> b2(1) by (auto simp: repair_step_def split_def)
    show ?thesis
    proof (intro exI conjI)
      show "repair_step (Some x) b = Inr (Some x, b2)"
        by fact
      show "holds b2 (plug ((e, p, \<langle>u, g, u1\<rangle>) # c) \<langle>l, x, r\<rangle>) (cl(p := Black, g := Red))"
        using b2(3) \<open>e = DirR\<close> by simp
    qed (use b2(2) \<open>e = DirR\<close> \<open>d = DirR\<close> in \<open>auto simp: addrs_plug\<close>)
  next
    case DirL
    obtain b1 where b1: "rightRotate (Some p) b = Inr b1" "same_entries (nodes b) (nodes b1)"
        "holds b1 (plug ((DirR, x, l) # (DirR, g, u) # c) \<langle>r, p, u1\<rangle>) cl"
      using rightRotate_holds [of b "(DirR, g, u) # c" l x r p u1 cl] h \<open>e = DirR\<close> DirL by auto
    obtain b2 where b2: "obind (blacken_parent (Some p) b1) (\<lambda>(g, b). obind (leftRotate g b) (\<lambda>b. Inr (Some p, b))) = Inr (Some p, b2)"
        "same_entries (nodes b1) (nodes b2)" "holds b2 (plug ((DirR, x, \<langle>u, g, l\<rangle>) # c) \<langle>r, p, u1\<rangle>) (cl(x := Black, g := Red))"
      using outer_right [OF b1(3)] by blast
    have "repair_step (Some x) b = Inr (Some p, b2)"
      using up black DirL b1(1) b2(1) by (auto simp: repair_step_def split_def)
    show ?thesis
    proof (intro exI conjI)
      show "repair_step (Some x) b = Inr (Some p, b2)"
        by fact
      show "holds b2 (plug ((e, x, \<langle>u, g, l\<rangle>) # c) \<langle>r, p, u1\<rangle>) (cl(x := Black, g := Red))"
        using b2(3) \<open>e = DirR\<close> by simp
    qed (use same_entries_trans [OF b1(2) b2(2)] \<open>e = DirR\<close> \<open>d = DirL\<close> in \<open>auto simp: addrs_plug\<close>)
  qed
next
  case DirL
  note up = holds_up [OF h, unfolded DirL]
  show ?thesis
  proof (cases d)
    case DirL
    obtain b2 where b2: "obind (blacken_parent (Some x) b) (\<lambda>(g, b). obind (rightRotate g b) (\<lambda>b. Inr (Some x, b))) = Inr (Some x, b2)"
        "same_entries (nodes b) (nodes b2)" "holds b2 (plug ((DirL, p, \<langle>u1, g, u\<rangle>) # c) \<langle>l, x, r\<rangle>) (cl(p := Black, g := Red))"
      using outer_left [of b p u1 g u c l x r cl] h \<open>e = DirL\<close> DirL by blast
    have "repair_step (Some x) b = Inr (Some x, b2)"
      using up black \<open>d = DirL\<close> b2(1) by (auto simp: repair_step_def split_def)
    show ?thesis
    proof (intro exI conjI)
      show "repair_step (Some x) b = Inr (Some x, b2)"
        by fact
      show "holds b2 (plug ((e, p, \<langle>u1, g, u\<rangle>) # c) \<langle>l, x, r\<rangle>) (cl(p := Black, g := Red))"
        using b2(3) \<open>e = DirL\<close> by simp
    qed (use b2(2) \<open>e = DirL\<close> \<open>d = DirL\<close> in \<open>auto simp: addrs_plug\<close>)
  next
    case DirR
    obtain b1 where b1: "leftRotate (Some p) b = Inr b1" "same_entries (nodes b) (nodes b1)"
        "holds b1 (plug ((DirL, x, r) # (DirL, g, u) # c) \<langle>u1, p, l\<rangle>) cl"
      using leftRotate_holds [of b "(DirL, g, u) # c" u1 p l x r cl] h \<open>e = DirL\<close> DirR by auto
    obtain b2 where b2: "obind (blacken_parent (Some p) b1) (\<lambda>(g, b). obind (rightRotate g b) (\<lambda>b. Inr (Some p, b))) = Inr (Some p, b2)"
        "same_entries (nodes b1) (nodes b2)" "holds b2 (plug ((DirL, x, \<langle>r, g, u\<rangle>) # c) \<langle>u1, p, l\<rangle>) (cl(x := Black, g := Red))"
      using outer_left [OF b1(3)] by blast
    have "repair_step (Some x) b = Inr (Some p, b2)"
      using up black DirR b1(1) b2(1) by (auto simp: repair_step_def split_def)
    show ?thesis
    proof (intro exI conjI)
      show "repair_step (Some x) b = Inr (Some p, b2)"
        by fact
      show "holds b2 (plug ((e, x, \<langle>r, g, u\<rangle>) # c) \<langle>u1, p, l\<rangle>) (cl(x := Black, g := Red))"
        using b2(3) \<open>e = DirL\<close> by simp
    qed (use same_entries_trans [OF b1(2) b2(2)] \<open>e = DirL\<close> \<open>d = DirR\<close> in \<open>auto simp: addrs_plug\<close>)
  qed
qed

section \<open>Invariants\<close>

text \<open>
  No red node has a red child, and the number of black nodes on every way down is the same, \<open>n\<close>;
  then the same for a context, whose hole takes subtrees with \<open>n\<close> black nodes.
\<close>

fun rbt_ok :: "(addr \<Rightarrow> rb_color) \<Rightarrow> addr tree \<Rightarrow> nat \<Rightarrow> bool" where
  "rbt_ok cl \<langle>\<rangle> n \<longleftrightarrow> n = 0"
| "rbt_ok cl \<langle>l, a, r\<rangle> n \<longleftrightarrow> (case cl a of
     Red \<Rightarrow> rbt_ok cl l n \<and> rbt_ok cl r n \<and> root_color cl l \<noteq> Red \<and> root_color cl r \<noteq> Red
   | Black \<Rightarrow> n > 0 \<and> rbt_ok cl l (n - 1) \<and> rbt_ok cl r (n - 1)
   | RBNone \<Rightarrow> False)"

fun black_parent :: "(addr \<Rightarrow> rb_color) \<Rightarrow> ctx \<Rightarrow> bool" where
  "black_parent cl [] = False"
| "black_parent cl ((d, a, u) # c) = (cl a = Black)"

fun ctx_ok :: "(addr \<Rightarrow> rb_color) \<Rightarrow> ctx \<Rightarrow> nat \<Rightarrow> bool" where
  "ctx_ok cl [] n = True"
| "ctx_ok cl ((d, a, u) # c) n \<longleftrightarrow> rbt_ok cl u n \<and> (case cl a of
     Red \<Rightarrow> root_color cl u \<noteq> Red \<and> black_parent cl c \<and> ctx_ok cl c n
   | Black \<Rightarrow> ctx_ok cl c (Suc n)
   | RBNone \<Rightarrow> False)"

definition rb_tree :: "(addr \<Rightarrow> rb_color) \<Rightarrow> addr tree \<Rightarrow> bool" where
  "rb_tree cl t \<longleftrightarrow> root_color cl t = Black \<and> (\<exists>n. rbt_ok cl t n)"

lemma rbt_ok_color: "rbt_ok cl t n \<Longrightarrow> root_color cl t \<noteq> Red \<Longrightarrow> root_color cl t = Black"
  by (cases t) (auto split: rb_color.splits)

lemma rbt_ok_cong: "(\<And>a. a \<in> set_tree t \<Longrightarrow> cl' a = cl a) \<Longrightarrow> rbt_ok cl' t n = rbt_ok cl t n \<and> root_color cl' t = root_color cl t"
  by (induction cl t n rule: rbt_ok.induct) (auto split: rb_color.splits)

lemma rb_upd [simp]:
  "a \<notin> set_tree t \<Longrightarrow> rbt_ok (cl(a := k)) t n = rbt_ok cl t n"
  "a \<notin> set_tree t \<Longrightarrow> root_color (cl(a := k)) t = root_color cl t"
  using rbt_ok_cong [of t "cl(a := k)" cl] by (metis fun_upd_other)+

lemma black_parent_upd [simp]: "a \<notin> set (before c) \<Longrightarrow> a \<notin> set (after c) \<Longrightarrow> black_parent (cl(a := k)) c = black_parent cl c"
proof (cases c)
  case (Cons e c')
  assume "a \<notin> set (before c)" "a \<notin> set (after c)"
  then show ?thesis
    using Cons by (cases e; cases "fst e") auto
qed simp

lemma ctx_ok_upd [simp]: "a \<notin> set (before c) \<Longrightarrow> a \<notin> set (after c) \<Longrightarrow> ctx_ok (cl(a := k)) c n = ctx_ok cl c n"
proof (induction c arbitrary: n)
  case (Cons e c)
  obtain d q u where e: "e = (d, q, u)"
    by (cases e)
  have "a \<noteq> q" "a \<notin> set_tree u" "a \<notin> set (before c)" "a \<notin> set (after c)"
    using Cons.prems e by (cases d; auto)+
  then show ?case
    using Cons.IH e by (simp del: fun_upd_apply add: fun_upd_other split: rb_color.splits)
qed simp

lemma plug_ok:
  "ctx_ok cl c n \<Longrightarrow> rbt_ok cl t n \<Longrightarrow> root_color cl t \<noteq> Red \<or> black_parent cl c \<Longrightarrow> rb_tree cl (plug c t)"
proof (induction c arbitrary: t n)
  case Nil
  then show ?case
    using rbt_ok_color by (auto simp: rb_tree_def)
next
  case (Cons e c)
  obtain d a u where e: "e = (d, a, u)"
    by (cases e)
  show ?case
  proof (cases "cl a")
    case Red
    then have "rbt_ok cl (node d a t u) n" "black_parent cl c" "ctx_ok cl c n"
      using Cons.prems e by (cases d; auto)+
    then show ?thesis
      using Cons.IH e by (simp add: plug_node)
  next
    case Black
    then have "rbt_ok cl (node d a t u) (Suc n)" "root_color cl (node d a t u) \<noteq> Red" "ctx_ok cl c (Suc n)"
      using Cons.prems e by (cases d; auto)+
    then show ?thesis
      using Cons.IH e by (simp add: plug_node)
  qed (use Cons.prems e in auto)
qed

lemma ok_plug: "rb_tree cl (plug c t) \<Longrightarrow> \<exists>n. ctx_ok cl c n \<and> rbt_ok cl t n \<and> (root_color cl t = Red \<longrightarrow> black_parent cl c)"
proof (induction c arbitrary: t)
  case (Cons e c)
  obtain d a u where e: "e = (d, a, u)"
    by (cases e)
  then obtain n where n: "ctx_ok cl c n" "rbt_ok cl (node d a t u) n" "root_color cl (node d a t u) = Red \<longrightarrow> black_parent cl c"
    using Cons by (auto simp: plug_node)
  show ?case
  proof (cases "cl a")
    case Red
    then show ?thesis
      using n e by (cases d) auto
  next
    case Black
    then show ?thesis
      using n e by (intro exI [of _ "n - 1"]) (cases d; auto)
  qed (use n e in \<open>cases d; auto\<close>)
qed (auto simp: rb_tree_def)

section \<open>The repair loop\<close>

text \<open>Leaving the loop: the root is coloured black.\<close>

lemma exit_holds:
  assumes "holds b t cl" "root_of t = Some a"
  shows "\<exists>b'. setColor (root b) Black b = Inr b' \<and> holds b' t (cl(a := Black)) \<and> same_entries (nodes b) (nodes b')"
proof -
  have "root b = Some a" "a \<in> set_tree t"
    using assms holds_root [OF assms(1)] by (cases t; simp)+
  then show ?thesis
    using setColor_holds [OF assms(1)] by simp
qed

lemma root_mem: "root_of t = Some a \<Longrightarrow> a \<in> set_tree t"
  by (cases t) auto

lemma set_plug: "set_tree (plug c t) = ctx_addrs c \<union> set_tree t"
  using addrs_plug [of c t] by (metis Un_assoc Un_commute set_append set_inorder)

text \<open>The test for the root at the end of the loop body does not change what the loop does.\<close>

lemma loop_end:
  assumes "holds b (plug c \<langle>l, x, r\<rangle>) cl"
  shows "(if Some x = root b then Some (setColor (root b) Black b) else repairPostInsert (Some x) b) = repairPostInsert (Some x) b"
proof (cases "Some x = root b")
  case True
  have "c = []"
  proof (rule ccontr)
    assume ne: "c \<noteq> []"
    have "root_of (plug c u) = root_of (plug c v)" if "c \<noteq> []" for c u v
      using that
    proof (induction c arbitrary: u v)
      case (Cons e c)
      then show ?case
        by (cases e; cases "fst e"; cases "c = []") auto
    qed simp
    from this [OF ne] have "root_of (plug c \<langle>\<rangle>) = Some x"
      using holds_root [OF assms] True by metis
    then have "x \<in> set_tree (plug c \<langle>\<rangle>)"
      by (rule root_mem)
    then show False
      using assms by (auto simp: holds_def addrs_plug set_plug)
  qed
  then have "parent_of (Some x) b = Inr None"
    using holds_get(1) [OF assms] by simp
  then show ?thesis
    using True by (subst (2) repairPostInsert.simps) simp
qed simp

lemma rb_root_black: "rb_tree cl t \<Longrightarrow> root_of t = Some a \<Longrightarrow> cl(a := Black) = cl"
  by (cases t) (auto simp: rb_tree_def)

text \<open>Under a black parent there is nothing left to do.\<close>

lemma repair_black:
  assumes h: "holds b (plug c \<langle>l, x, r\<rangle>) cl" and "black_parent cl c" "rb_tree cl (plug c \<langle>l, x, r\<rangle>)"
  shows "\<exists>b'. repairPostInsert (Some x) b = Some (Inr b') \<and> holds b' (plug c \<langle>l, x, r\<rangle>) cl \<and> same_entries (nodes b) (nodes b')"
proof -
  obtain d p u c' where c: "c = (d, p, u) # c'" "cl p = Black"
    using assms(2) by (cases c) auto
  have "holds b (plug c' (node d p \<langle>l, x, r\<rangle> u)) cl" "root_of (node d p \<langle>l, x, r\<rangle> u) = Some p"
      "root_color cl (node d p \<langle>l, x, r\<rangle> u) = Black"
    using h c by (cases d; simp add: plug_node)+
  then have col: "parent_of (Some x) b = Inr (Some p)" "Color (Some p) b = Inr Black"
    using holds_get(1) [OF h] c holds_Color by fastforce+
  have "plug c \<langle>l, x, r\<rangle> \<noteq> \<langle>\<rangle>"
    using addrs_plug [of c "\<langle>l, x, r\<rangle>"] by auto
  then obtain a where a: "root_of (plug c \<langle>l, x, r\<rangle>) = Some a"
    by (metis option.exhaust root_of_None)
  show ?thesis
    using exit_holds [OF h a] col rb_root_black [OF assms(3) a] by (subst repairPostInsert.simps) auto
qed

text \<open>What the loop needs: the only violation there may be is the red leaf \<open>x\<close> under a red parent.\<close>

definition repairable :: "'v bst \<Rightarrow> ctx \<Rightarrow> addr tree \<Rightarrow> addr \<Rightarrow> addr tree \<Rightarrow> (addr \<Rightarrow> rb_color) \<Rightarrow> bool" where
  "repairable b c l x r cl \<longleftrightarrow> holds b (plug c \<langle>l, x, r\<rangle>) cl \<and> cl x = Red \<and> root_color cl l \<noteq> Red \<and> root_color cl r \<noteq> Red
     \<and> (\<exists>n. rbt_ok cl l n \<and> rbt_ok cl r n \<and> ctx_ok cl c n)"

definition repaired :: "'v bst \<Rightarrow> addr option \<Rightarrow> addr tree \<Rightarrow> bool" where
  "repaired b x t \<longleftrightarrow> (\<exists>b' t' cl'. repairPostInsert x b = Some (Inr b') \<and> holds b' t' cl' \<and> rb_tree cl' t'
     \<and> addrs t' = addrs t \<and> same_entries (nodes b) (nodes b'))"

lemma repaired_step:
  assumes "repair_step (Some x) b = Inr (Some z, b1)" "holds b (plug ((d, p, u1) # c) \<langle>l, x, r\<rangle>) cl" "cl p = Red"
    "same_entries (nodes b) (nodes b1)" "holds b1 (plug c1 \<langle>zl, z, zr\<rangle>) cl1"
    "addrs (plug c1 \<langle>zl, z, zr\<rangle>) = addrs (plug ((d, p, u1) # c) \<langle>l, x, r\<rangle>)" "repaired b1 (Some z) (plug c1 \<langle>zl, z, zr\<rangle>)"
  shows "repaired b (Some x) (plug ((d, p, u1) # c) \<langle>l, x, r\<rangle>)"
proof -
  have "holds b (plug c (node d p \<langle>l, x, r\<rangle> u1)) cl" "root_of (node d p \<langle>l, x, r\<rangle> u1) = Some p"
      "root_color cl (node d p \<langle>l, x, r\<rangle> u1) = Red"
    using assms(2,3) by (cases d; simp add: plug_node)+
  then have "parent_of (Some x) b = Inr (Some p)" "Color (Some p) b = Inr Red"
    using holds_get(1) [OF assms(2)] holds_Color by fastforce+
  then have "repairPostInsert (Some x) b = repairPostInsert (Some z) b1"
    using assms(1) loop_end [OF assms(5)] by (subst repairPostInsert.simps) simp
  then show ?thesis
    using assms(4,6,7) same_entries_trans unfolding repaired_def by metis
qed

lemma repaired_root:
  assumes "repairable b [] l x r cl"
  shows "repaired b (Some x) \<langle>l, x, r\<rangle>"
proof -
  obtain n where n: "rbt_ok cl l n" "rbt_ok cl r n" and h: "holds b (plug [] \<langle>l, x, r\<rangle>) cl"
    using assms by (auto simp: repairable_def)
  have "x \<notin> set_tree l" "x \<notin> set_tree r"
    using h by (auto simp: holds_def)
  then have "rb_tree (cl(x := Black)) \<langle>l, x, r\<rangle>"
    using n by (auto simp: rb_tree_def intro!: exI [of _ "Suc n"])
  moreover obtain b' where "setColor (root b) Black b = Inr b'" "holds b' \<langle>l, x, r\<rangle> (cl(x := Black))" "same_entries (nodes b) (nodes b')"
    using exit_holds [of b "\<langle>l, x, r\<rangle>" cl x] h by (auto simp del: fun_upd_apply)
  moreover from this(1) have "repairPostInsert (Some x) b = Some (Inr b')"
    using holds_get(1) [OF h] by (subst repairPostInsert.simps) simp
  ultimately show ?thesis
    unfolding repaired_def by blast
qed

text \<open>After the recolouring the grandparent is the leaf to look at.\<close>

lemma recolored_repairable:
  assumes "repairable b ((d, p, u1) # (e, g, u) # c) l x r cl" "cl p = Red" "u = \<langle>ul, t, ur\<rangle>" "cl t = Red"
    "holds b' (plug ((d, p, u1) # (e, g, u) # c) \<langle>l, x, r\<rangle>) (cl(t := Black, p := Black, g := Red))"
    "node e g (node d p \<langle>l, x, r\<rangle> u1) u = \<langle>gl, g, gr\<rangle>"
  shows "repairable b' c gl g gr (cl(t := Black, p := Black, g := Red))"
proof -
  let ?cl = "cl(t := Black, p := Black, g := Red)"
  obtain n where n: "rbt_ok cl l n" "rbt_ok cl r n" "rbt_ok cl u1 n" "rbt_ok cl u n" "cl g = Black" "ctx_ok cl c (Suc n)"
      "cl x = Red" "root_color cl l \<noteq> Red" "root_color cl r \<noteq> Red" "root_color cl u1 \<noteq> Red"
    using assms(1,2) by (cases "cl g") (auto simp: repairable_def)
  have dis: "distinct [x, p, g, t]" "\<forall>a \<in> {x, p, g, t}. a \<notin> set_tree l \<union> set_tree r \<union> set_tree u1 \<union> set_tree ul \<union> set_tree ur \<union> ctx_addrs c"
    using assms(1,3) unfolding repairable_def holds_def addrs_plug by (cases d; cases e; auto)+
  have "rbt_ok ?cl \<langle>l, x, r\<rangle> n" "rbt_ok ?cl u1 n" "rbt_ok ?cl u (Suc n)" "ctx_ok ?cl c (Suc n)" "root_color ?cl u = Black" "?cl p = Black"
    using n dis assms(3,4) by simp_all
  moreover from this(1,2,6) have "rbt_ok ?cl (node d p \<langle>l, x, r\<rangle> u1) (Suc n)" "root_color ?cl (node d p \<langle>l, x, r\<rangle> u1) = Black"
    by (cases d; simp del: fun_upd_apply)+
  ultimately have "rbt_ok ?cl gl (Suc n) \<and> rbt_ok ?cl gr (Suc n) \<and> root_color ?cl gl = Black \<and> root_color ?cl gr = Black \<and> ctx_ok ?cl c (Suc n)"
    using assms(6) by (cases e) (auto simp del: fun_upd_apply)
  moreover have "plug ((d, p, u1) # (e, g, u) # c) \<langle>l, x, r\<rangle> = plug c \<langle>gl, g, gr\<rangle>"
    using assms(6) by (simp add: plug_node)
  ultimately show ?thesis
    using assms(5) unfolding repairable_def by (auto simp del: fun_upd_apply simp: fun_upd_same)
qed

text \<open>After the rotations there is no violation any more.\<close>

lemma rotated_ok:
  assumes "repairable b ((d, p, u1) # (e, g, u) # c) l x r cl" "cl p = Red" "root_color cl u \<noteq> Red"
    "holds b' (plug ((e, q, \<langle>A, g, B\<rangle>) # c) \<langle>zl, z, zr\<rangle>) (cl(q := Black, g := Red))"
    "{z, q} = {x, p}" "{zl, zr, A, B} \<subseteq> {l, r, u1, u}"
  shows "rb_tree (cl(q := Black, g := Red)) (plug ((e, q, \<langle>A, g, B\<rangle>) # c) \<langle>zl, z, zr\<rangle>)"
    "black_parent (cl(q := Black, g := Red)) ((e, q, \<langle>A, g, B\<rangle>) # c)"
proof -
  let ?cl = "cl(q := Black, g := Red)"
  obtain n where n: "rbt_ok cl l n" "rbt_ok cl r n" "rbt_ok cl u1 n" "rbt_ok cl u n" "ctx_ok cl c (Suc n)"
      "cl x = Red" "root_color cl l \<noteq> Red" "root_color cl r \<noteq> Red" "root_color cl u1 \<noteq> Red"
    using assms(1,2) by (cases "cl g") (auto simp: repairable_def)
  then have four: "rbt_ok cl t n \<and> root_color cl t \<noteq> Red" if "t \<in> {zl, zr, A, B}" for t
    using assms(3,6) that by blast
  have z: "cl z = Red"
    using assms(2,5) n(6) by (metis insertCI insertE singletonD)
  have dis: "distinct [z, q, g]" "\<forall>a \<in> {q, g}. a \<notin> set_tree zl \<union> set_tree zr \<union> set_tree A \<union> set_tree B \<union> ctx_addrs c"
    using assms(4) unfolding holds_def addrs_plug by (cases e; auto)+
  then show black: "black_parent ?cl ((e, q, \<langle>A, g, B\<rangle>) # c)"
    by simp
  have ok: "rbt_ok ?cl t n" "root_color ?cl t \<noteq> Red" if "t \<in> {zl, zr, A, B}" for t
    using four [OF that] that dis(2) by auto
  have "rbt_ok ?cl \<langle>zl, z, zr\<rangle> n" "rbt_ok ?cl \<langle>A, g, B\<rangle> n"
    using ok [of zl] ok [of zr] ok [of A] ok [of B] z dis(1) by simp_all
  then have "ctx_ok ?cl ((e, q, \<langle>A, g, B\<rangle>) # c) n" "rbt_ok ?cl \<langle>zl, z, zr\<rangle> n"
    using n(5) dis by simp_all
  then show "rb_tree ?cl (plug ((e, q, \<langle>A, g, B\<rangle>) # c) \<langle>zl, z, zr\<rangle>)"
    using plug_ok black by blast
qed

lemma repair_loop: "repairable b c l x r cl \<Longrightarrow> repaired b (Some x) (plug c \<langle>l, x, r\<rangle>)"
proof (induction "length c" arbitrary: b c l x r cl rule: less_induct)
  case less
  have h: "holds b (plug c \<langle>l, x, r\<rangle>) cl"
    using less.prems by (simp add: repairable_def)
  consider (root) "c = []" | (black) "black_parent cl c" | (red) d p u1 e g u c' where "c = (d, p, u1) # (e, g, u) # c'" "cl p = Red"
  proof (cases "c = [] \<or> black_parent cl c")
    case False
    then obtain d p u1 c1 where c: "c = (d, p, u1) # c1" "cl p \<noteq> Black"
      by (cases c) auto
    then have "cl p = Red" "black_parent cl c1"
      using less.prems by (cases "cl p"; auto simp: repairable_def)+
    then show thesis
      using that(3) c by (cases c1) auto
  qed (use that in blast)
  then show ?case
  proof cases
    case root
    then show ?thesis
      using repaired_root less.prems by simp
  next
    case black
    obtain n where n: "ctx_ok cl c n" "rbt_ok cl \<langle>l, x, r\<rangle> n"
      using less.prems by (auto simp: repairable_def)
    then have "rb_tree cl (plug c \<langle>l, x, r\<rangle>)"
      using plug_ok black by blast
    then show ?thesis
      using repair_black [OF h black] unfolding repaired_def by blast
  next
    case red
    show ?thesis
    proof (cases "root_color cl u = Red")
      case True
      then obtain ul t ur where u: "u = \<langle>ul, t, ur\<rangle>" "cl t = Red"
        by (cases u) auto
      obtain b1 where b1: "repair_step (Some x) b = Inr (Some g, b1)" "same_entries (nodes b) (nodes b1)"
          "holds b1 (plug c \<langle>l, x, r\<rangle>) (cl(t := Black, p := Black, g := Red))"
        using step_recolor [of b d p u1 e g ul t ur c' l x r cl] h u red(1) by blast
      obtain gl gr where G: "node e g (node d p \<langle>l, x, r\<rangle> u1) u = \<langle>gl, g, gr\<rangle>"
        by (cases e) auto
      have same: "plug c \<langle>l, x, r\<rangle> = plug c' \<langle>gl, g, gr\<rangle>"
        using G red(1) by (simp add: plug_node)
      have "repairable b1 c' gl g gr (cl(t := Black, p := Black, g := Red))"
        using recolored_repairable [OF less.prems [unfolded red(1)] red(2) u b1(3) [unfolded red(1)] G] .
      then have "repaired b1 (Some g) (plug c' \<langle>gl, g, gr\<rangle>)"
        using less.hyps red(1) by simp
      then show ?thesis
        using repaired_step [OF b1(1) h [unfolded red(1)] red(2) b1(2) b1(3) [unfolded same]] same red(1) by simp
    next
      case False
      obtain b1 q z zl zr A B where b1: "repair_step (Some x) b = Inr (Some z, b1)" "same_entries (nodes b) (nodes b1)"
          "holds b1 (plug ((e, q, \<langle>A, g, B\<rangle>) # c') \<langle>zl, z, zr\<rangle>) (cl(q := Black, g := Red))"
          "addrs (plug ((e, q, \<langle>A, g, B\<rangle>) # c') \<langle>zl, z, zr\<rangle>) = addrs (plug c \<langle>l, x, r\<rangle>)"
          "{z, q} = {x, p}" "{zl, zr, A, B} \<subseteq> {l, r, u1, u}"
        using step_rotate [of b d p u1 e g u c' l x r cl] h False red(1) by metis
      note ok = rotated_ok [OF less.prems [unfolded red(1)] red(2) False b1(3,5,6)]
      have "repaired b1 (Some z) (plug ((e, q, \<langle>A, g, B\<rangle>) # c') \<langle>zl, z, zr\<rangle>)"
        using repair_black [OF b1(3) ok(2) ok(1)] ok(1) unfolding repaired_def by blast
      then show ?thesis
        using repaired_step [OF b1(1) h [unfolded red(1)] red(2) b1(2,3)] b1(4) red(1) by simp
    qed
  qed
qed

section \<open>Insertion\<close>

interpretation rbt_class: tree_insert rbt_insert_at rbt_finish
  by unfold_locales (rule rbt_insert_at.simps)

text \<open>After linking, the leaf is coloured and the tree repaired.\<close>

lemma rbt_finish_ok:
  assumes h: "holds b (plug c \<langle>\<langle>\<rangle>, leaf, \<langle>\<rangle>\<rangle>) cl" and rb: "rb_tree cl (plug c \<langle>\<rangle>)"
  shows "\<exists>b' t' cl'. rbt_finish leaf b = Some (Inr (True, b')) \<and> holds b' t' cl' \<and> rb_tree cl' t'
    \<and> addrs t' = addrs (plug c \<langle>\<langle>\<rangle>, leaf, \<langle>\<rangle>\<rangle>) \<and> same_entries (nodes b) (nodes b')"
proof -
  let ?t = "plug c \<langle>\<langle>\<rangle>, leaf, \<langle>\<rangle>\<rangle>"
  have leaf: "leaf \<in> set_tree ?t" "leaf \<notin> ctx_addrs c"
    using h by (auto simp: set_plug holds_def addrs_plug)
  obtain b1 where b1: "setColor (Some leaf) Red b = Inr b1" "holds b1 ?t (cl(leaf := Red))" "same_entries (nodes b) (nodes b1)"
    using setColor_holds [OF h leaf(1)] by blast
  have "ctx_ok cl c 0"
    using ok_plug [OF rb] by auto
  then have ctx: "ctx_ok (cl(leaf := Red)) c 0"
    using leaf(2) by simp
  have par: "parent_of (Some leaf) b1 = Inr (par_of c)"
    using holds_get(1) [OF b1(2)] .
  consider "c = []" | d p u where "c = [(d, p, u)]" | d p u1 e g u c' where "c = (d, p, u1) # (e, g, u) # c'"
    by (cases c rule: remdups_adj.cases) auto
  then show ?thesis
  proof cases
    case 1
    obtain b2 where b2: "setColor (Some leaf) Black b1 = Inr b2" "holds b2 ?t (cl(leaf := Red, leaf := Black))" "same_entries (nodes b1) (nodes b2)"
      using setColor_holds [OF b1(2) leaf(1)] by blast
    have "rb_tree (cl(leaf := Red, leaf := Black)) ?t"
      using 1 by (auto simp: rb_tree_def)
    moreover have "rbt_finish leaf b = Some (Inr (True, b2))"
      using b1(1) b2(1) par 1 by (simp add: rbt_finish_def)
    ultimately show ?thesis
      using b2(2) same_entries_trans [OF b1(3) b2(3)] by blast
  next
    case 2
    then have "black_parent (cl(leaf := Red)) c"
      using ctx by (cases "(cl(leaf := Red)) p") auto
    then have "rb_tree (cl(leaf := Red)) ?t"
      using plug_ok [OF ctx, of "\<langle>\<langle>\<rangle>, leaf, \<langle>\<rangle>\<rangle>"] by simp
    moreover have "grandparent_of (Some leaf) b1 = Inr None"
      using par 2 holds_get(1) [of b1 "[]" _ p] b1(2) by (cases d) (auto simp: grandparent_of_def)
    then have "rbt_finish leaf b = Some (Inr (True, b1))"
      using b1(1) par 2 by (simp add: rbt_finish_def)
    ultimately show ?thesis
      using b1(2,3) by blast
  next
    case 3
    have "repairable b1 c \<langle>\<rangle> leaf \<langle>\<rangle> (cl(leaf := Red))"
      using b1(2) ctx by (auto simp: repairable_def)
    then obtain b' t' cl' where rep: "repairPostInsert (Some leaf) b1 = Some (Inr b')" "holds b' t' cl'" "rb_tree cl' t'"
        "addrs t' = addrs ?t" "same_entries (nodes b1) (nodes b')"
      using repair_loop unfolding repaired_def by blast
    have "rbt_finish leaf b = Some (Inr (True, b'))"
      using b1(1) par rep(1) 3 holds_up(3) [OF b1(2) [unfolded 3]] by (simp add: rbt_finish_def)
    then show ?thesis
      using rep(2-4) same_entries_trans [OF b1(3) rep(5)] by blast
  qed
qed

definition rbt_rep :: "'v bst \<Rightarrow> addr tree \<Rightarrow> bool" where
  "rbt_rep b t \<longleftrightarrow> bst_rep b t \<and> rb_tree (color_of (nodes b)) t"

lemma rb_tree_cong: "(\<And>a. a \<in> set_tree t \<Longrightarrow> cl' a = cl a) \<Longrightarrow> rb_tree cl' t = rb_tree cl t"
  using rbt_ok_cong [of t cl' cl] by (simp add: rb_tree_def)

lemma rbt_insert_rep:
  assumes "rbt_rep b t" "nodes b leaf = None" "unlinked n" "lf_key n \<notin> fst ` set (contents (nodes b) t)"
  shows "\<exists>b' t'. rbt_insert leaf (alloc_leaf leaf n b) = Some (Inr b') \<and> rbt_rep b' t'
    \<and> set (contents (nodes b') t') = insert (lf_key n, lf_val n) (set (contents (nodes b) t))"
proof -
  let ?b = "alloc_leaf leaf n b"
  let ?c = "descend (nodes ?b) (lf_key n) [] t"
  let ?t = "plug ?c \<langle>\<langle>\<rangle>, leaf, \<langle>\<rangle>\<rangle>"
  have rep: "bst_rep b t" "shape (nodes b) None (root b) t" "dom (nodes b) = set (addrs t)" "distinct (addrs t)"
    using assms(1) by (auto simp: rbt_rep_def bst_rep_def)
  have leaf: "leaf \<notin> set (addrs t)" "nodes ?b leaf = Some n"
    using rep(3) assms(2) by (auto simp: alloc_leaf_def)
  have ne: "\<forall>x \<in> set (addrs t). key_of (nodes b) x \<noteq> lf_key n"
    using assms(4) unfolding keys_contents by (metis image_eqI)
  then have ne': "\<forall>x \<in> set (addrs t). key_of (nodes ?b) x \<noteq> lf_key n"
    using leaf(1) by (auto simp: alloc_leaf_def key_of_def)
  obtain b1 where b1: "shape (nodes b1) None (root b1) ?t" "same_data (nodes ?b) (nodes b1)"
      "rbt_insert_at (lf_key n) leaf RootSlot None ?b =
        (if t = \<langle>\<rangle> then rbt_finish leaf b1 else lower (rbt_finish leaf b1))"
    using rbt_class.insert_places [of ?b "[]" t leaf n "lf_key n"] shape_alloc [OF rep(2,3) assms(2)] rep(4) leaf ne' assms(3)
    by (auto simp: unlinked_def)
  have old: "plug ?c \<langle>\<rangle> = t"
    by (simp add: plug_descend)
  have "color_of (nodes b1) a = color_of (nodes b) a" if "a \<in> set_tree t" for a
    using same_data_of(3) [OF b1(2), of a] that leaf(1) rep(3) by (auto simp: alloc_leaf_def color_of_def)
  then have "rb_tree (color_of (nodes b1)) (plug ?c \<langle>\<rangle>)"
    using assms(1) rb_tree_cong [of t] unfolding old rbt_rep_def by blast
  moreover have "distinct (addrs ?t)"
    using rep(4) leaf(1) addrs_plug [of ?c "\<langle>\<rangle>"] old by (auto simp: addrs_plug simp flip: set_inorder)
  then have "holds b1 ?t (color_of (nodes b1))"
    using b1(1) by (simp add: holds_def)
  ultimately obtain b' t' cl' where b': "rbt_finish leaf b1 = Some (Inr (True, b'))" "holds b' t' cl'" "rb_tree cl' t'"
      "addrs t' = addrs ?t" "same_entries (nodes b1) (nodes b')"
    using rbt_finish_ok by blast
  have "same_entries (nodes ?b) (nodes b')"
    using same_entries_trans same_data_entries b1(2) b'(5) by blast
  then have "bst_rep b' t' \<and> set (contents (nodes b') t') = insert (lf_key n, lf_val n) (set (contents (nodes b) t))"
    using link_rep [OF rep(1) assms(2) ne refl, of b' t'] b'(2,4) by (simp add: holds_def same_entries_def)
  moreover have "rb_tree (color_of (nodes b')) t'"
    using b'(2,3) rb_tree_cong [of t' "color_of (nodes b')" cl'] by (simp add: holds_def)
  moreover have "rbt_insert leaf ?b = Some (Inr b')"
    using b1(3) b'(1) leaf(2) by (simp add: rbt_insert_def split: if_splits)
  ultimately show ?thesis
    unfolding rbt_rep_def by blast
qed

section \<open>Height\<close>

lemma rbt_ok_size: "rbt_ok cl t n \<Longrightarrow> 2 ^ n \<le> size t + 1"
proof (induction cl t n rule: rbt_ok.induct)
  case (2 cl l a r n)
  show ?case
  proof (cases "cl a")
    case Black
    then have "2 ^ (n - 1) \<le> size l + 1" "2 ^ (n - 1) \<le> size r + 1" "n > 0"
      using 2 by auto
    then show ?thesis
      by (cases n) auto
  qed (use 2 in auto)
qed simp

lemma rbt_ok_height: "rbt_ok cl t n \<Longrightarrow> height t \<le> 2 * n + (if root_color cl t = Red then 1 else 0)"
proof (induction cl t n rule: rbt_ok.induct)
  case (2 cl l a r n)
  show ?case
  proof (cases "cl a")
    case Black
    then have "height l \<le> 2 * (n - 1) + 1" "height r \<le> 2 * (n - 1) + 1" "n > 0"
      using 2 by (auto split: if_splits)
    then show ?thesis
      using Black by auto
  qed (use 2 in auto)
qed simp

lemma rb_tree_height: "rb_tree cl t \<Longrightarrow> 2 ^ height t \<le> (size t + 1)\<^sup>2"
proof -
  assume "rb_tree cl t"
  then obtain n where n: "rbt_ok cl t n" "root_color cl t = Black"
    by (auto simp: rb_tree_def)
  then have "(2::nat) ^ height t \<le> 2 ^ (2 * n)"
    using rbt_ok_height [OF n(1)] by (intro power_increasing) auto
  also have "\<dots> = (2 ^ n)\<^sup>2"
    by (simp add: power_even_eq)
  also have "\<dots> \<le> (size t + 1)\<^sup>2"
    using rbt_ok_size [OF n(1)] by (intro power_mono) auto
  finally show ?thesis .
qed

section \<open>Properties\<close>

text \<open>A black root with the key 10 and its red child with the key 20.\<close>

definition rbt_10_20 :: "string bst" where
  "rbt_10_20 = \<lparr>nodes = [7 \<mapsto> \<lparr>lf_key = 10, lf_val = ''a'', lf_color = Black, lf_parent = None, lf_left = None, lf_right = Some 8\<rparr>,
      8 \<mapsto> \<lparr>lf_key = 20, lf_val = ''b'', lf_color = Red, lf_parent = Some 7, lf_left = None, lf_right = None\<rparr>], root = Some 7\<rparr>"

lemma rbt_10_20_rep: "rbt_rep rbt_10_20 \<langle>\<langle>\<rangle>, 7, \<langle>\<langle>\<rangle>, 8, \<langle>\<rangle>\<rangle>\<rangle>"
  by (auto simp: rbt_rep_def bst_rep_def rbt_10_20_def key_sorted_def key_of_def rb_tree_def color_of_def intro!: exI [of _ "1"])

text \<open>
  C35: Inserting an allocated, unlinked leaf with a new key into a red-black tree terminates, without a
  null pointer dereference, in a red-black tree: a search tree with one more entry whose root is
  black, in which no red node has a red child and all ways down pass the same number of black
  nodes.
\<close>

theorem red_black_tree_insert:
  assumes "rbt_rep b t" "nodes b leaf = None" "unlinked n" "lf_key n \<notin> fst ` set (contents (nodes b) t)"
  shows "\<exists>b' t'. rbt_insert leaf (alloc_leaf leaf n b) = Some (Inr b') \<and> rbt_rep b' t'
    \<and> set (contents (nodes b') t') = insert (lf_key n, lf_val n) (set (contents (nodes b) t))"
  using rbt_insert_rep [OF assms] .

theorem red_black_tree_insert_witness:
  "\<exists>b' t'. rbt_insert 9 (alloc_leaf 9 \<lparr>lf_key = 30, lf_val = ''c'', lf_color = RBNone, lf_parent = None, lf_left = None, lf_right = None\<rparr> rbt_10_20)
      = Some (Inr b') \<and> rbt_rep b' t' \<and> set (contents (nodes b') t') = {(10, ''a''), (20, ''b''), (30, ''c'')}"
proof -
  let ?n = "\<lparr>lf_key = 30, lf_val = ''c'', lf_color = RBNone, lf_parent = None, lf_left = None, lf_right = None\<rparr>"
  have c: "contents (nodes rbt_10_20) \<langle>\<langle>\<rangle>, 7, \<langle>\<langle>\<rangle>, 8, \<langle>\<rangle>\<rangle>\<rangle> = [(10, ''a''), (20, ''b'')]"
    by (simp add: contents_def entry_of_def rbt_10_20_def)
  have "nodes rbt_10_20 9 = None"
    by (simp add: rbt_10_20_def)
  from red_black_tree_insert [OF rbt_10_20_rep this, of ?n] show ?thesis
    by (simp add: c unlinked_def insert_commute)
qed



end
