(* ===== verification/Map_Tree.thy ===== *)
theory Map_Tree
  imports Rt_BST_Ops
begin

text \<open>
  The tree of the mappings of an address space, \<^verbatim>\<open>kernel/src/vm/MapTree.h\<close>: a binary search tree
  over the base addresses whose leaves carry the size, the flags and the mapped object. Searching
  for an address is shown to find the mapping that contains it, and the test for a free region to
  be the disjointness of the region from all mappings, where no range wraps around the address
  space.
\<close>

section \<open>Leaves\<close>

text \<open>The object is a shared pointer, here the identity of the object or null.\<close>

record map_payload =
  mt_size :: u64
  mt_flags :: u32
  mt_entry :: "nat option"

type_synonym map_leaf = "map_payload leaf"

definition mf_None :: u32 where "mf_None = 0"

definition new_map_leaf :: "u64 \<Rightarrow> u64 \<Rightarrow> u32 \<Rightarrow> nat option \<Rightarrow> map_leaf" where
  "new_map_leaf address sz flags entry =
     \<lparr>lf_key = address, lf_val = \<lparr>mt_size = sz, mt_flags = flags, mt_entry = entry\<rparr>, lf_color = RBNone,
      lf_parent = None, lf_left = None, lf_right = None\<rparr>"

definition leaf_equal :: "map_leaf \<Rightarrow> map_leaf \<Rightarrow> bool" where
  "leaf_equal a b = (lf_key a = lf_key b)"

definition contains :: "map_leaf \<Rightarrow> u64 \<Rightarrow> bool" where
  "contains n address = (address \<ge> lf_key n \<and> address - lf_key n < mt_size (lf_val n))"

definition contains_range :: "map_leaf \<Rightarrow> u64 \<Rightarrow> u64 \<Rightarrow> bool" where
  "contains_range n address lng =
     (let x1 = lf_key n; x2 = lf_key n + mt_size (lf_val n) - 1; y1 = address; y2 = address + lng - 1 in
      (x1 \<ge> y1 \<and> x1 \<le> y2) \<or> (x2 \<ge> y1 \<and> x2 \<le> y2) \<or> (y1 \<ge> x1 \<and> y1 \<le> x2) \<or> (y2 \<ge> x1 \<and> y2 \<le> x2))"

section \<open>The tree\<close>

type_synonym map_tree = "map_payload bst"

text \<open>What a method returns of a leaf, or the default where there is none.\<close>

definition leaf_get :: "map_tree \<Rightarrow> addr option \<Rightarrow> 'x \<Rightarrow> (map_leaf \<Rightarrow> 'x) \<Rightarrow> 'x outcome" where
  "leaf_get b leaf none f = (if leaf = None then Inr none else obind (deref (nodes b) leaf) (\<lambda>n. Inr (f n)))"

definition findBase :: "u64 \<Rightarrow> map_tree \<Rightarrow> nat option outcome option" where
  "findBase address b = dbind (findKey_at (nodes b) address (root b)) (\<lambda>leaf.
     Some (leaf_get b leaf None (\<lambda>n. mt_entry (lf_val n))))"

partial_function (option) leafFor ::
  "map_payload leaf_heap \<Rightarrow> nat option \<Rightarrow> addr option \<Rightarrow> addr option outcome option" where
  "leafFor h entry leaf =
     (case leaf of None \<Rightarrow> Some (Inr None) | Some a \<Rightarrow>
      dbind (Some (deref h leaf)) (\<lambda>n.
      if mt_entry (lf_val n) = entry then Some (Inr leaf)
      else dbind (leafFor h entry (lf_left n)) (\<lambda>left.
        if left \<noteq> None then Some (Inr left) else leafFor h entry (lf_right n))))"

text \<open>The base address, the length of the window and its flags.\<close>

definition baseAddressFor :: "nat option \<Rightarrow> map_tree \<Rightarrow> (u64 \<times> u64 \<times> u32) outcome option" where
  "baseAddressFor entry b = dbind (leafFor (nodes b) entry (root b)) (\<lambda>leaf.
     Some (leaf_get b leaf (0, 0, mf_None) (\<lambda>n. (lf_key n, mt_size (lf_val n), mt_flags (lf_val n)))))"

partial_function (option) find_at ::
  "map_payload leaf_heap \<Rightarrow> u64 \<Rightarrow> addr option \<Rightarrow> addr option outcome option" where
  "find_at h address node =
     (case node of None \<Rightarrow> Some (Inr None) | Some a \<Rightarrow>
      dbind (Some (deref h node)) (\<lambda>n.
      if lf_key n = address then Some (Inr node)
      else if address < lf_key n then find_at h address (lf_left n)
      else if contains n address then Some (Inr node)
      else find_at h address (lf_right n)))"

text \<open>The object with the offset into it and its base; the last two are only set when it is found.\<close>

definition map_find :: "u64 \<Rightarrow> map_tree \<Rightarrow> (nat option \<times> (u64 \<times> u64) option) outcome option" where
  "map_find address b = dbind (find_at (nodes b) address (root b)) (\<lambda>leaf.
     Some (leaf_get b leaf (None, None) (\<lambda>n. (mt_entry (lf_val n), Some (address - lf_key n, lf_key n)))))"

partial_function (option) findOverlapping ::
  "map_payload leaf_heap \<Rightarrow> u64 \<Rightarrow> u64 \<Rightarrow> addr option \<Rightarrow> addr option outcome option" where
  "findOverlapping h base lng node =
     (case node of None \<Rightarrow> Some (Inr None) | Some a \<Rightarrow>
      dbind (Some (deref h node)) (\<lambda>n.
      if contains_range n base lng then Some (Inr node)
      else dbind (findOverlapping h base lng (lf_left n)) (\<lambda>left.
        if left \<noteq> None then Some (Inr left) else findOverlapping h base lng (lf_right n))))"

definition isRegionFree :: "u64 \<Rightarrow> u64 \<Rightarrow> map_tree \<Rightarrow> (bool \<times> u64) outcome option" where
  "isRegionFree base lng b = dbind (findOverlapping (nodes b) base lng (root b)) (\<lambda>leaf.
     Some (obind (leaf_get b leaf 0 (\<lambda>n. lf_key n + mt_size (lf_val n))) (\<lambda>outNext. Inr (leaf = None, outNext))))"

text \<open>The address of the new leaf is what the kernel heap returns.\<close>

definition map_insert :: "addr \<Rightarrow> u64 \<Rightarrow> u64 \<Rightarrow> nat option \<Rightarrow> u32 \<Rightarrow> map_tree \<Rightarrow> map_tree outcome option" where
  "map_insert node address sz entry flags b =
     dbind (bst_insert_at address node RootSlot None (alloc_leaf node (new_map_leaf address sz flags entry) b)) (\<lambda>(_, b). Some (Inr b))"

definition map_remove :: "u64 \<Rightarrow> map_tree \<Rightarrow> (bool \<times> map_tree) outcome option" where
  "map_remove address b = bst_remove_at address (root b) None b"

definition map_iterate :: "(map_leaf \<Rightarrow> 's \<Rightarrow> 's) \<Rightarrow> map_tree \<Rightarrow> 's \<Rightarrow> 's outcome option" where
  "map_iterate callback b s = iterateInOrder callback (nodes b) (root b) s"

section \<open>Ranges\<close>

text \<open>The addresses of a range and of a leaf, and ranges that do not wrap around.\<close>

definition addr_range :: "u64 \<Rightarrow> u64 \<Rightarrow> nat set" where
  "addr_range base sz = {unat base..<unat base + unat sz}"

definition fits :: "u64 \<Rightarrow> u64 \<Rightarrow> bool" where
  "fits base sz \<longleftrightarrow> 0 < sz \<and> unat base + unat sz \<le> 2 ^ 64"

abbreviation leaf_range :: "map_leaf \<Rightarrow> nat set" where
  "leaf_range n \<equiv> addr_range (lf_key n) (mt_size (lf_val n))"

abbreviation leaf_fits :: "map_leaf \<Rightarrow> bool" where
  "leaf_fits n \<equiv> fits (lf_key n) (mt_size (lf_val n))"

lemma contains_iff: "contains n address \<longleftrightarrow> unat address \<in> leaf_range n"
proof -
  have "unat (address - lf_key n) = unat address - unat (lf_key n)" if "address \<ge> lf_key n"
    using that by (rule unat_sub)
  then show ?thesis
    by (auto simp: contains_def addr_range_def word_less_nat_alt word_le_nat_alt)
qed

lemma unat_last: "fits base sz \<Longrightarrow> unat (base + sz - 1) = unat base + unat sz - 1"
proof -
  assume "fits base sz"
  then have f: "0 < unat sz" "unat base + unat sz \<le> 2 ^ 64"
    by (auto simp: fits_def word_less_nat_alt)
  have "unat (sz - 1) = unat sz - 1"
    using f(1) by (simp add: unat_sub word_le_nat_alt)
  moreover have "unat (base + (sz - 1)) = unat base + unat (sz - 1)"
    using f calculation by (simp add: unat_word_ariths(1))
  ultimately show ?thesis
    using f(1) by (simp add: algebra_simps)
qed

lemma contains_range_iff:
  assumes "leaf_fits n" "fits address lng"
  shows "contains_range n address lng \<longleftrightarrow> leaf_range n \<inter> addr_range address lng \<noteq> {}"
proof -
  have l: "unat (lf_key n + mt_size (lf_val n) - 1) = unat (lf_key n) + unat (mt_size (lf_val n)) - 1"
    "unat (address + lng - 1) = unat address + unat lng - 1"
    using assms unat_last by blast+
  have pos: "0 < unat (mt_size (lf_val n))" "0 < unat lng"
    using assms by (auto simp: fits_def word_less_nat_alt)
  have "{a..<a + b} \<inter> {c..<c + d} \<noteq> {} \<longleftrightarrow> a < c + d \<and> c < a + b" if "0 < b" "0 < d" for a b c d :: nat
    using that by (auto simp: set_eq_iff intro!: exI [of _ "max a c"])
  then show ?thesis
    using pos unfolding contains_range_def addr_range_def Let_def word_le_nat_alt l by auto
qed

section \<open>Searching\<close>

text \<open>
  A tree of mappings: no mapping is empty or wraps around, and each ends before the next one
  begins.
\<close>

definition leaf_of :: "map_tree \<Rightarrow> addr \<Rightarrow> map_leaf" where
  "leaf_of b a = the (nodes b a)"

definition map_ok :: "map_tree \<Rightarrow> addr tree \<Rightarrow> bool" where
  "map_ok b t \<longleftrightarrow> bst_rep b t \<and> (\<forall>a \<in> set (addrs t). leaf_fits (leaf_of b a))
     \<and> sorted_wrt (\<lambda>x y. unat (lf_key (leaf_of b x)) + unat (mt_size (lf_val (leaf_of b x))) \<le> unat (lf_key (leaf_of b y))) (addrs t)"

lemma find_append: "List.find P (xs @ ys) = (case List.find P xs of None \<Rightarrow> List.find P ys | Some z \<Rightarrow> Some z)"
  by (induction xs) auto

lemma find_at_shape:
  assumes "shape h par p t" "\<forall>a \<in> set (addrs t). leaf_fits (the (h a))"
    "sorted_wrt (\<lambda>x y. unat (lf_key (the (h x))) + unat (mt_size (lf_val (the (h x)))) \<le> unat (lf_key (the (h y)))) (addrs t)"
  shows "find_at h address p = Some (Inr (List.find (\<lambda>a. contains (the (h a)) address) (addrs t)))"
  using assms
proof (induction t arbitrary: par p)
  case Leaf
  then show ?case
    by (simp add: find_at.simps)
next
  case (Node l a r)
  then obtain n where n: "p = Some a" "h a = Some n" "shape h (Some a) (lf_left n) l" "shape h (Some a) (lf_right n) r"
    by auto
  have srt: "unat (lf_key (the (h x))) + unat (mt_size (lf_val (the (h x)))) \<le> unat (lf_key n)" if "x \<in> set (addrs l)" for x
    using Node.prems(3) n(2) that by (simp add: sorted_wrt_append)
  have srt2: "unat (lf_key n) + unat (mt_size (lf_val n)) \<le> unat (lf_key (the (h x)))" if "x \<in> set (addrs r)" for x
    using Node.prems(3) n(2) that by (simp add: sorted_wrt_append)
  have left: "List.find (\<lambda>x. contains (the (h x)) address) (addrs l) = None" if "\<not> address < lf_key n"
    using srt that by (fastforce simp: find_None_iff contains_iff addr_range_def word_less_nat_alt)
  have right: "List.find (\<lambda>x. contains (the (h x)) address) (addrs r) = None" if "address < lf_key n"
    using srt2 that by (fastforce simp: find_None_iff contains_iff addr_range_def word_less_nat_alt)
  have own: "\<not> contains n address" if "address < lf_key n"
    using that by (auto simp: contains_def)
  have eq: "contains n address" if "address = lf_key n"
    using that Node.prems(2) n(2) by (auto simp: contains_def fits_def)
  have ih: "find_at h address (lf_left n) = Some (Inr (List.find (\<lambda>a. contains (the (h a)) address) (addrs l)))"
    "find_at h address (lf_right n) = Some (Inr (List.find (\<lambda>a. contains (the (h a)) address) (addrs r)))"
    using Node.IH(1) [OF n(3)] Node.IH(2) [OF n(4)] Node.prems(2,3) by (simp_all add: sorted_wrt_append)
  show ?case
    using n(1,2) ih left right own eq by (subst find_at.simps) (auto simp: find_append split: option.splits)
qed

text \<open>The other searches visit the nodes in preorder.\<close>

lemma findOverlapping_shape:
  "shape h par p t \<Longrightarrow>
   findOverlapping h base lng p = Some (Inr (List.find (\<lambda>a. contains_range (the (h a)) base lng) (preorder t)))"
proof (induction t arbitrary: par p)
  case (Node l a r)
  then obtain n where n: "p = Some a" "h a = Some n" "shape h (Some a) (lf_left n) l" "shape h (Some a) (lf_right n) r"
    by auto
  show ?case
    using n(1,2) Node.IH(1) [OF n(3)] Node.IH(2) [OF n(4)]
    by (subst findOverlapping.simps) (auto simp: find_append split: option.splits)
qed (simp add: findOverlapping.simps)

lemma leafFor_shape:
  "shape h par p t \<Longrightarrow>
   leafFor h entry p = Some (Inr (List.find (\<lambda>a. mt_entry (lf_val (the (h a))) = entry) (preorder t)))"
proof (induction t arbitrary: par p)
  case (Node l a r)
  then obtain n where n: "p = Some a" "h a = Some n" "shape h (Some a) (lf_left n) l" "shape h (Some a) (lf_right n) r"
    by auto
  show ?case
    using n(1,2) Node.IH(1) [OF n(3)] Node.IH(2) [OF n(4)]
    by (subst leafFor.simps) (auto simp: find_append split: option.splits)
qed (simp add: leafFor.simps)

lemma find_Some_mem: "List.find P xs = Some x \<Longrightarrow> x \<in> set xs \<and> P x"
  by (auto simp: find_Some_iff)

lemma leaf_get_Some: "nodes b a = Some n \<Longrightarrow> leaf_get b (Some a) d f = Inr (f n)"
  by (simp add: leaf_get_def)

lemma leaf_get_None [simp]: "leaf_get b None d f = Inr d"
  by (simp add: leaf_get_def)

lemma map_ok_leaf:
  assumes "map_ok b t" "a \<in> set_tree t"
  shows "nodes b a = Some (leaf_of b a)" "leaf_fits (leaf_of b a)"
  using assms shape_addrs [of "nodes b" None "root b" t a] by (auto simp: map_ok_def bst_rep_def leaf_of_def)

lemma map_find_ok:
  assumes "map_ok b t"
  shows "map_find address b = Some (Inr (case List.find (\<lambda>a. contains (leaf_of b a) address) (addrs t) of
      None \<Rightarrow> (None, None)
    | Some a \<Rightarrow> (mt_entry (lf_val (leaf_of b a)), Some (address - lf_key (leaf_of b a), lf_key (leaf_of b a)))))"
proof -
  have "find_at (nodes b) address (root b) = Some (Inr (List.find (\<lambda>a. contains (leaf_of b a) address) (addrs t)))"
    using find_at_shape [of "nodes b" None "root b" t address] assms by (simp add: map_ok_def bst_rep_def leaf_of_def)
  then show ?thesis
    using map_ok_leaf(1) [OF assms] by (auto simp: map_find_def leaf_get_Some dest!: find_Some_mem split: option.splits)
qed

text \<open>Whether a region is free; where it is not, the end of an overlapping mapping.\<close>

lemma isRegionFree_ok:
  assumes "map_ok b t" "fits base lng"
  shows "\<exists>next. isRegionFree base lng b = Some (Inr (\<forall>a \<in> set_tree t. leaf_range (leaf_of b a) \<inter> addr_range base lng = {}, next))
    \<and> ((\<exists>a \<in> set_tree t. leaf_range (leaf_of b a) \<inter> addr_range base lng \<noteq> {}) \<longrightarrow>
       (\<exists>a \<in> set_tree t. leaf_range (leaf_of b a) \<inter> addr_range base lng \<noteq> {}
          \<and> next = lf_key (leaf_of b a) + mt_size (lf_val (leaf_of b a))))"
proof -
  have find: "findOverlapping (nodes b) base lng (root b) = Some (Inr (List.find (\<lambda>a. contains_range (leaf_of b a) base lng) (preorder t)))"
    using findOverlapping_shape assms(1) by (auto simp: map_ok_def bst_rep_def leaf_of_def)
  have iff: "contains_range (leaf_of b a) base lng \<longleftrightarrow> leaf_range (leaf_of b a) \<inter> addr_range base lng \<noteq> {}" if "a \<in> set_tree t" for a
    using contains_range_iff map_ok_leaf(2) [OF assms(1) that] assms(2) by blast
  show ?thesis
  proof (cases "List.find (\<lambda>a. contains_range (leaf_of b a) base lng) (preorder t)")
    case None
    then have "\<forall>a \<in> set_tree t. leaf_range (leaf_of b a) \<inter> addr_range base lng = {}"
      using iff by (auto simp: find_None_iff)
    then show ?thesis
      using find None by (simp add: isRegionFree_def)
  next
    case (Some a)
    then have a: "a \<in> set_tree t" "leaf_range (leaf_of b a) \<inter> addr_range base lng \<noteq> {}"
      using iff find_Some_mem [OF Some] by auto
    then have "isRegionFree base lng b = Some (Inr (False, lf_key (leaf_of b a) + mt_size (lf_val (leaf_of b a))))"
      using find Some map_ok_leaf(1) [OF assms(1)] by (simp add: isRegionFree_def leaf_get_Some)
    then show ?thesis
      using a by auto
  qed
qed

section \<open>The set of mappings\<close>

definition entry_range :: "u64 \<times> map_payload \<Rightarrow> nat set" where
  "entry_range e = addr_range (fst e) (mt_size (snd e))"

definition ok_entries :: "(u64 \<times> map_payload) set \<Rightarrow> bool" where
  "ok_entries E \<longleftrightarrow> (\<forall>e \<in> E. fits (fst e) (mt_size (snd e))) \<and> (\<forall>e \<in> E. \<forall>e' \<in> E. e \<noteq> e' \<longrightarrow> entry_range e \<inter> entry_range e' = {})"

lemma ok_entries_insert:
  "ok_entries E \<Longrightarrow> fits (fst e) (mt_size (snd e)) \<Longrightarrow> (\<forall>e' \<in> E. entry_range e' \<inter> entry_range e = {}) \<Longrightarrow> ok_entries (insert e E)"
  unfolding ok_entries_def by (auto simp: Int_commute)

lemma ok_entries_subset: "ok_entries E \<Longrightarrow> F \<subseteq> E \<Longrightarrow> ok_entries F"
  unfolding ok_entries_def by blast

lemma ordered_ranges:
  assumes "fits k s" "fits k' s'" "k < k'" "addr_range k s \<inter> addr_range k' s' = {}"
  shows "unat k + unat s \<le> unat k'"
proof (rule ccontr)
  assume "\<not> unat k + unat s \<le> unat k'"
  then have "unat k' \<in> addr_range k s \<inter> addr_range k' s'"
    using assms(1-3) by (auto simp: addr_range_def fits_def word_less_nat_alt)
  then show False
    using assms(4) by blast
qed

lemma sorted_wrt_two: "sorted_wrt P xs \<Longrightarrow> x \<in> set xs \<Longrightarrow> y \<in> set xs \<Longrightarrow> x \<noteq> y \<Longrightarrow> P x y \<or> P y x"
  by (induction xs) auto

lemma map_ok_entries: "map_ok b t \<longleftrightarrow> bst_rep b t \<and> ok_entries (set (contents (nodes b) t))"
proof
  let ?e = "entry_of (nodes b)"
  have key: "lf_key (leaf_of b a) = fst (?e a)" "lf_val (leaf_of b a) = snd (?e a)" for a
    by (simp_all add: leaf_of_def entry_of_def)
  {
    assume ok: "map_ok b t"
    have "entry_range (?e x) \<inter> entry_range (?e y) = {}" if "x \<in> set (addrs t)" "y \<in> set (addrs t)" "?e x \<noteq> ?e y" for x y
    proof -
      have "x \<noteq> y"
        using that(3) by blast
      then have "unat (fst (?e x)) + unat (mt_size (snd (?e x))) \<le> unat (fst (?e y)) \<or>
          unat (fst (?e y)) + unat (mt_size (snd (?e y))) \<le> unat (fst (?e x))"
        using ok sorted_wrt_two [OF _ that(1,2)] unfolding map_ok_def key by blast
      then show ?thesis
        by (auto simp: entry_range_def addr_range_def)
    qed
    then show "bst_rep b t \<and> ok_entries (set (contents (nodes b) t))"
      using ok unfolding map_ok_def ok_entries_def contents_def key by (auto simp del: set_inorder)
  }
  assume ok: "bst_rep b t \<and> ok_entries (set (contents (nodes b) t))"
  have fits: "fits (fst (?e a)) (mt_size (snd (?e a)))" if "a \<in> set (addrs t)" for a
    using ok that by (auto simp: ok_entries_def contents_def)
  have "sorted_wrt (\<lambda>x y. fst (?e x) < fst (?e y)) (addrs t)"
    using ok by (simp add: bst_rep_def key_sorted_def sorted_wrt_map key_of_def entry_of_def)
  then have "sorted_wrt (\<lambda>x y. unat (fst (?e x)) + unat (mt_size (snd (?e x))) \<le> unat (fst (?e y))) (addrs t)"
  proof (rule sorted_wrt_mono_rel [rotated])
    fix x y
    assume xy: "x \<in> set (addrs t)" "y \<in> set (addrs t)" "fst (?e x) < fst (?e y)"
    then have "?e x \<noteq> ?e y"
      by auto
    then have "entry_range (?e x) \<inter> entry_range (?e y) = {}"
      using ok xy(1,2) by (simp add: ok_entries_def contents_def)
    then show "unat (fst (?e x)) + unat (mt_size (snd (?e x))) \<le> unat (fst (?e y))"
      using ordered_ranges [OF fits [OF xy(1)] fits [OF xy(2)] xy(3)] by (simp add: entry_range_def)
  qed
  then show "map_ok b t"
    using ok fits unfolding map_ok_def key by blast
qed

lemma leaf_range_entry: "leaf_range (leaf_of b a) = entry_range (entry_of (nodes b) a)"
  by (simp add: leaf_of_def entry_range_def entry_of_def)

section \<open>Properties\<close>

text \<open>Two mappings with a gap between them.\<close>

definition two_maps :: map_tree where
  "two_maps = \<lparr>nodes = [7 \<mapsto> (new_map_leaf 0x1000 0x2000 0 (Some 1))\<lparr>lf_right := Some 8\<rparr>,
      8 \<mapsto> (new_map_leaf 0x5000 0x1000 0 (Some 2))\<lparr>lf_parent := Some 7\<rparr>], root = Some 7\<rparr>"

lemma two_maps_contents: "contents (nodes two_maps) \<langle>\<langle>\<rangle>, 7, \<langle>\<langle>\<rangle>, 8, \<langle>\<rangle>\<rangle>\<rangle> =
    [(0x1000, \<lparr>mt_size = 0x2000, mt_flags = 0, mt_entry = Some 1\<rparr>), (0x5000, \<lparr>mt_size = 0x1000, mt_flags = 0, mt_entry = Some 2\<rparr>)]"
  by (simp add: contents_def entry_of_def two_maps_def new_map_leaf_def)

lemma two_maps_ok: "map_ok two_maps \<langle>\<langle>\<rangle>, 7, \<langle>\<langle>\<rangle>, 8, \<langle>\<rangle>\<rangle>\<rangle>"
  unfolding map_ok_entries two_maps_contents
  by (auto simp: bst_rep_def two_maps_def key_sorted_def key_of_def new_map_leaf_def ok_entries_def fits_def entry_range_def addr_range_def)

lemma map_find_entries:
  assumes "map_ok b t"
  shows "\<exists>obj pos. map_find address b = Some (Inr (obj, pos))
    \<and> (\<forall>e \<in> set (contents (nodes b) t). unat address \<in> entry_range e \<longrightarrow>
         obj = mt_entry (snd e) \<and> pos = Some (address - fst e, fst e))
    \<and> ((\<forall>e \<in> set (contents (nodes b) t). unat address \<notin> entry_range e) \<longrightarrow> obj = None \<and> pos = None)"
proof -
  have con: "contains (leaf_of b a) address \<longleftrightarrow> unat address \<in> entry_range (entry_of (nodes b) a)" for a
    by (simp add: contains_iff leaf_range_entry)
  show ?thesis
  proof (cases "List.find (\<lambda>a. contains (leaf_of b a) address) (addrs t)")
    case None
    then show ?thesis
      using map_find_ok [OF assms, of address] find_None_iff [THEN iffD1, OF None] by (auto simp: contents_def con)
  next
    case (Some a)
    then have a: "a \<in> set (addrs t)" "unat address \<in> entry_range (entry_of (nodes b) a)"
      using find_Some_mem [OF Some] con by auto
    have uniq: "e = entry_of (nodes b) a" if "e \<in> set (contents (nodes b) t)" "unat address \<in> entry_range e" for e
      using assms that a unfolding map_ok_entries ok_entries_def contents_def by fastforce
    have mem: "entry_of (nodes b) a \<in> set (contents (nodes b) t)"
      using a(1) by (simp add: contents_def)
    have found: "map_find address b = Some (Inr (mt_entry (snd (entry_of (nodes b) a)),
        Some (address - fst (entry_of (nodes b) a), fst (entry_of (nodes b) a))))"
      using map_find_ok [OF assms, of address] Some by (simp add: entry_of_def leaf_of_def)
    show ?thesis
      using found uniq mem a(2) by blast
  qed
qed

text \<open>
  C37: Where the mappings are disjoint, searching for an address returns the object mapped there with
  the offset of the address into the mapping and its base, and nothing for an address in no
  mapping.
\<close>

theorem map_tree_find:
  assumes "map_ok b t"
  shows "\<exists>obj pos. map_find address b = Some (Inr (obj, pos))
    \<and> (\<forall>e \<in> set (contents (nodes b) t). unat address \<in> entry_range e \<longrightarrow>
         obj = mt_entry (snd e) \<and> pos = Some (address - fst e, fst e))
    \<and> ((\<forall>e \<in> set (contents (nodes b) t). unat address \<notin> entry_range e) \<longrightarrow> obj = None \<and> pos = None)"
  using map_find_entries [OF assms] .

theorem map_tree_find_witness:
  "map_find 0x5010 two_maps = Some (Inr (Some 2, Some (0x10, 0x5000))) \<and> map_find 0x4000 two_maps = Some (Inr (None, None))"
  using map_tree_find [OF two_maps_ok, of "0x5010"] map_tree_find [OF two_maps_ok, of "0x4000"]
  unfolding two_maps_contents by (auto simp: entry_range_def addr_range_def)

text \<open>
  C38: The test for a free region, which compares the ends of the ranges in four ways, agrees with the
  disjointness of the address ranges: for a region that does not wrap around it returns whether no
  mapping intersects it, and otherwise the end of a mapping that does.
\<close>

theorem map_tree_region_free:
  assumes "map_ok b t" "fits base lng"
  shows "\<exists>next. isRegionFree base lng b = Some (Inr (\<forall>e \<in> set (contents (nodes b) t). entry_range e \<inter> addr_range base lng = {}, next))
    \<and> ((\<exists>e \<in> set (contents (nodes b) t). entry_range e \<inter> addr_range base lng \<noteq> {}) \<longrightarrow>
       (\<exists>e \<in> set (contents (nodes b) t). entry_range e \<inter> addr_range base lng \<noteq> {} \<and> next = fst e + mt_size (snd e)))"
  using isRegionFree_ok [OF assms] by (simp add: contents_def leaf_range_entry) (simp add: leaf_of_def entry_of_def)

theorem map_tree_region_free_witness:
  "(\<exists>next. isRegionFree 0x3000 0x2000 two_maps = Some (Inr (True, next))) \<and> isRegionFree 0x3000 0x3000 two_maps = Some (Inr (False, 0x6000))"
proof -
  have "fits 0x3000 0x2000" "fits 0x3000 0x3000"
    by (auto simp: fits_def)
  then show ?thesis
    using map_tree_region_free [OF two_maps_ok, of "0x3000" "0x2000"] map_tree_region_free [OF two_maps_ok, of "0x3000" "0x3000"]
    unfolding two_maps_contents by (auto simp: entry_range_def addr_range_def)
qed

end
