(* ===== verification/Vm_Map.thy ===== *)
theory Vm_Map
  imports Page_Table Rt_RBT Map_Tree
begin

text \<open>
  Virtual memory: the address spaces of \<^verbatim>\<open>kernel/src/vm/Map.cpp\<close>, the memory objects of
  \<^verbatim>\<open>kernel/src/vm/MapEntry.cpp\<close> and the kernel map of \<^verbatim>\<open>kernel/src/vm/Mapper.cpp\<close>. An address space is
  a tree of mappings and a page table; an object is a range of physical memory or a red-black tree
  of pages that are allocated as they are touched. This theory composes the models of the two
  trees, of the page tables and of the physical allocator.

  The locks are taken and released around the operations on one thread, as in a sequential
  execution. Nodes are allocated on the kernel heap, whose choice of an unused address is the
  parameter \<open>new\<close>. Translation caches are not part of the state.
\<close>

section \<open>Flags\<close>

definition mm_None :: u32 where "mm_None = 0"
definition mm_READ :: u32 where "mm_READ = 0x1"
definition mm_WRITE :: u32 where "mm_WRITE = 0x2"
definition mm_EXECUTE :: u32 where "mm_EXECUTE = 0x4"
definition mm_ACCESS_USER :: u32 where "mm_ACCESS_USER = 0x100"
definition mm_GLOBAL :: u32 where "mm_GLOBAL = 0x1000"
definition mm_CACHE_DISABLE :: u32 where "mm_CACHE_DISABLE = 0x2000"
definition mm_kKernelExec :: u32 where "mm_kKernelExec = (mm_READ OR mm_EXECUTE) OR mm_GLOBAL"
definition mm_kKernelRW :: u32 where "mm_kKernelRW = mm_READ OR mm_WRITE"

definition mf_Read :: u32 where "mf_Read = 0x1"
definition mf_Write :: u32 where "mf_Write = 0x2"
definition mf_Execute :: u32 where "mf_Execute = 0x4"
definition mf_MMIO :: u32 where "mf_MMIO = 0x100"
definition mf_WriteCombine :: u32 where "mf_WriteCombine = 0x200"
definition mf_CopyOnWrite :: u32 where "mf_CopyOnWrite = 0x10000"
definition mf_PermissionsMask :: u32 where "mf_PermissionsMask = (mf_Read OR mf_Write) OR mf_Execute"
definition mf_CacheabilityMask :: u32 where "mf_CacheabilityMask = mf_MMIO OR mf_WriteCombine"

definition has :: "u32 \<Rightarrow> u32 \<Rightarrow> bool" where
  "has flags f = (flags AND f \<noteq> 0)"

definition ConvertVmMode :: "u32 \<Rightarrow> bool \<Rightarrow> u32" where
  "ConvertVmMode flags isUser =
     (let mode = (if isUser then mm_ACCESS_USER else mm_None);
          mode = (if has flags mf_Read then mode OR mm_READ else mode);
          mode = (if has flags mf_Write then mode OR mm_WRITE else mode);
          mode = (if has flags mf_Execute then mode OR mm_EXECUTE else mode)
      in if has flags mf_MMIO then mode OR mm_CACHE_DISABLE else mode)"

section \<open>Page table ranges\<close>

definition round_up :: "u64 \<Rightarrow> u64" where
  "round_up lng = (if lng mod arch_page_size \<noteq> 0 then lng + (arch_page_size - lng mod arch_page_size) else lng)"

text \<open>
  The loop over the pages of a range, by their indices. A handler has at most one ancestor, the
  kernel's, so a depth of two is enough for \<^verbatim>\<open>mapPage\<close>.
\<close>

fun map_range :: "bool \<Rightarrow> nat \<Rightarrow> u64 \<Rightarrow> u64 \<Rightarrow> u32 \<Rightarrow> nat list \<Rightarrow> pt_state \<Rightarrow> (int \<times> pt_state) outcome option" where
  "map_range nx h physAddr vmAddr mode [] s = Some (Inr (0, s))"
| "map_range nx h physAddr vmAddr mode (i # is) s =
     dbind (mapPage 2 nx h (physAddr + of_nat i * arch_page_size) (vmAddr + of_nat i * arch_page_size)
       (has mode mm_WRITE) (has mode mm_EXECUTE) (has mode mm_GLOBAL) (has mode mm_ACCESS_USER) (has mode mm_CACHE_DISABLE) s) (\<lambda>(err, s).
     if err \<noteq> 0 then Some (Inr (err, s)) else map_range nx h physAddr vmAddr mode is s)"

definition vm_add_phys :: "bool \<Rightarrow> nat \<Rightarrow> u64 \<Rightarrow> u64 \<Rightarrow> u64 \<Rightarrow> u32 \<Rightarrow> pt_state \<Rightarrow> (int \<times> pt_state) outcome option" where
  "vm_add_phys nx h physAddr lng vmAddr mode s =
     map_range nx h physAddr vmAddr mode [0..<unat (round_up lng div arch_page_size)] s"

text \<open>Errors of single pages are ignored.\<close>

fun unmap_range :: "nat \<Rightarrow> u64 \<Rightarrow> nat list \<Rightarrow> pt_state \<Rightarrow> (int \<times> pt_state) outcome" where
  "unmap_range h vmAddr [] s = Inr (0, s)"
| "unmap_range h vmAddr (i # is) s =
     obind (unmapPage h (vmAddr + of_nat i * arch_page_size) s) (\<lambda>(err, s). unmap_range h vmAddr is s)"

definition vm_remove_range :: "nat \<Rightarrow> u64 \<Rightarrow> u64 \<Rightarrow> pt_state \<Rightarrow> (int \<times> pt_state) outcome" where
  "vm_remove_range h vmAddr lng s = unmap_range h vmAddr [0..<unat (round_up lng div arch_page_size)] s"

text \<open>The status with the physical address and the mode, which are set on success.\<close>

definition vm_get :: "bool \<Rightarrow> nat \<Rightarrow> u64 \<Rightarrow> pt_state \<Rightarrow> (int \<times> (u64 option \<times> u32) option) outcome" where
  "vm_get nx h virtAddr s =
     obind (getMapping nx h virtAddr s) (\<lambda>(err, m).
     let temp = mm_READ;
         temp = (if pm_write m then temp OR mm_WRITE else temp);
         temp = (if pm_execute m then temp OR mm_EXECUTE else temp);
         temp = (if pm_global m then temp OR mm_GLOBAL else temp);
         temp = (if pm_user m then temp OR mm_ACCESS_USER else temp)
     in Inr (err, if err = 0 then Some (pm_phys m, temp) else None))"

section \<open>Objects and address spaces\<close>

datatype seq_state = Idle | Detect1 | Detect2

record view_info =
  vi_task :: nat
  vi_base :: u64
  vi_flags :: u32

record map_entry =
  me_length :: u64
  me_flags :: u32
  me_kernel :: bool
  me_anon :: bool
  me_physBase :: u64
  me_seq :: seq_state
  me_lastOffset :: u64
  me_lastStride :: u64
  me_numSeq :: u64
  me_pages :: "u64 bst"
  me_mappedIn :: "view_info list"
  me_owner :: "nat option"

record vm_map =
  vm_entries :: map_tree
  vm_table :: nat

record vm_task =
  vt_map :: nat
  vt_pages :: u64

record vm_state =
  vs_pt :: pt_state
  vs_maps :: "nat \<rightharpoonup> vm_map"
  vs_ents :: "nat \<rightharpoonup> map_entry"
  vs_tasks :: "nat \<rightharpoonup> vm_task"
  vs_cur :: "nat option"

text \<open>Following a pointer to an object of each kind.\<close>

definition with_map :: "nat \<Rightarrow> vm_state \<Rightarrow> (vm_map \<Rightarrow> 'a outcome option) \<Rightarrow> 'a outcome option" where
  "with_map m s k = (case vs_maps s m of None \<Rightarrow> Some (Inl BadAccess) | Some mp \<Rightarrow> k mp)"

definition with_ent :: "nat \<Rightarrow> vm_state \<Rightarrow> (map_entry \<Rightarrow> 'a outcome option) \<Rightarrow> 'a outcome option" where
  "with_ent e s k = (case vs_ents s e of None \<Rightarrow> Some (Inl BadAccess) | Some en \<Rightarrow> k en)"

definition put_ent :: "nat \<Rightarrow> map_entry \<Rightarrow> vm_state \<Rightarrow> vm_state" where
  "put_ent e en s = s\<lparr>vs_ents := (vs_ents s)(e \<mapsto> en)\<rparr>"

definition put_map :: "nat \<Rightarrow> vm_map \<Rightarrow> vm_state \<Rightarrow> vm_state" where
  "put_map m mp s = s\<lparr>vs_maps := (vs_maps s)(m \<mapsto> mp)\<rparr>"

definition no_nodes :: "'v bst" where
  "no_nodes = \<lparr>nodes = Map.empty, root = None\<rparr>"

definition new_entry :: "nat option \<Rightarrow> u64 \<Rightarrow> u32 \<Rightarrow> map_entry" where
  "new_entry current lng flags =
     \<lparr>me_length = lng, me_flags = flags, me_kernel = False, me_anon = False, me_physBase = 0, me_seq = Idle,
      me_lastOffset = 0, me_lastStride = 0, me_numSeq = 0, me_pages = no_nodes, me_mappedIn = [], me_owner = current\<rparr>"

text \<open>The objects made at the address \<open>e\<close>.\<close>

definition makePhys :: "nat \<Rightarrow> u64 \<Rightarrow> u64 \<Rightarrow> u32 \<Rightarrow> bool \<Rightarrow> vm_state \<Rightarrow> vm_state" where
  "makePhys e physAddr lng flags isKern s =
     put_ent e ((new_entry (vs_cur s) lng flags)\<lparr>me_kernel := isKern, me_physBase := physAddr\<rparr>) s"

definition makeAnon :: "nat \<Rightarrow> u64 \<Rightarrow> u32 \<Rightarrow> bool \<Rightarrow> vm_state \<Rightarrow> vm_state" where
  "makeAnon e lng flags isKern s =
     put_ent e ((new_entry (vs_cur s) lng flags)\<lparr>me_kernel := isKern, me_anon := True\<rparr>) s"

definition setOwner :: "nat option \<Rightarrow> map_entry \<Rightarrow> map_entry" where
  "setOwner newOwner en = en\<lparr>me_owner := newOwner\<rparr>"

definition isCoW :: "map_entry \<Rightarrow> bool" where
  "isCoW en = has (me_flags en) mf_CopyOnWrite"

definition resize :: "u64 \<Rightarrow> map_entry \<Rightarrow> int \<times> map_entry" where
  "resize newSize en =
     (if newSize mod arch_page_size \<noteq> 0 then (-1, en)
      else if newSize = 0 then (-1, en)
      else (0, en\<lparr>me_length := newSize\<rparr>))"

section \<open>Mapping an object\<close>

text \<open>The flags of a mapping with a mask.\<close>

definition masked_flags :: "u32 \<Rightarrow> u32 \<Rightarrow> u32" where
  "masked_flags flags msk =
     (if msk \<noteq> mf_None then let flg = flags AND NOT mf_PermissionsMask in flg OR (flg AND msk) else flags)"

text \<open>The loop over the pages of an object, with the iterator of the tree.\<close>

partial_function (option) map_pages_from ::
  "bool \<Rightarrow> nat \<Rightarrow> u64 \<Rightarrow> u32 \<Rightarrow> u64 leaf_heap \<Rightarrow> addr option \<Rightarrow> pt_state \<Rightarrow> pt_state outcome option" where
  "map_pages_from nx h vbase mode pages info pt =
     (if info = None then Some (Inr pt)
      else dbind (Some (deref pages info)) (\<lambda>n.
        dbind (vm_add_phys nx h (lf_val n) arch_page_size (vbase + lf_key n * arch_page_size) mode pt) (\<lambda>(err, pt).
        if err \<noteq> 0 then Some (Inl (Panic ''failed to map vm object''))
        else dbind (iter_increment pages info) (\<lambda>info. map_pages_from nx h vbase mode pages info pt))))"

definition mapAnonPages :: "bool \<Rightarrow> nat \<Rightarrow> u64 \<Rightarrow> u32 \<Rightarrow> map_entry \<Rightarrow> pt_state \<Rightarrow> pt_state outcome option" where
  "mapAnonPages nx h vbase msk en pt =
     dbind (iter_begin (me_pages en)) (\<lambda>info.
     map_pages_from nx h vbase (ConvertVmMode (masked_flags (me_flags en) msk) (\<not> me_kernel en)) (nodes (me_pages en)) info pt)"

definition mapPhysMem :: "bool \<Rightarrow> nat \<Rightarrow> u64 \<Rightarrow> u32 \<Rightarrow> map_entry \<Rightarrow> pt_state \<Rightarrow> pt_state outcome option" where
  "mapPhysMem nx h vbase msk en pt =
     dbind (vm_add_phys nx h (me_physBase en) (me_length en) vbase
       (ConvertVmMode (masked_flags (me_flags en) msk) (\<not> me_kernel en)) pt) (\<lambda>(err, pt).
     Some (require (err = 0) ''failed to map vm object'' (Inr pt)))"

definition map_object :: "bool \<Rightarrow> nat \<Rightarrow> u64 \<Rightarrow> u32 \<Rightarrow> map_entry \<Rightarrow> pt_state \<Rightarrow> pt_state outcome option" where
  "map_object nx h vbase msk en pt =
     (if me_anon en then mapAnonPages nx h vbase msk en pt else mapPhysMem nx h vbase msk en pt)"

definition addedToMap :: "bool \<Rightarrow> nat \<Rightarrow> nat \<Rightarrow> u64 \<Rightarrow> u32 \<Rightarrow> nat \<Rightarrow> vm_state \<Rightarrow> vm_state outcome option" where
  "addedToMap nx m task baseAddr flagsMask e s =
     (if baseAddr = 0 then Some (Inl (Panic ''failed to get base address for map entry''))
      else with_ent e s (\<lambda>en.
        let en = en\<lparr>me_mappedIn := me_mappedIn en @ [\<lparr>vi_task = task, vi_base = baseAddr, vi_flags = flagsMask\<rparr>]\<rparr> in
        with_map m s (\<lambda>mp.
        dbind (map_object nx (vm_table mp) baseAddr flagsMask en (vs_pt s)) (\<lambda>pt.
        Some (Inr ((put_ent e en s)\<lparr>vs_pt := pt\<rparr>))))))"

definition removedFromMap :: "nat \<Rightarrow> nat \<Rightarrow> u64 \<Rightarrow> u64 \<Rightarrow> nat \<Rightarrow> vm_state \<Rightarrow> vm_state outcome option" where
  "removedFromMap m task baseAddr lng e s =
     with_map m s (\<lambda>mp.
     dbind (Some (vm_remove_range (vm_table mp) baseAddr lng (vs_pt s))) (\<lambda>(err, pt).
     if err \<noteq> 0 then Some (Inl (Panic ''failed to unmap vm object''))
     else with_ent e s (\<lambda>en.
       Some (Inr ((put_ent e (en\<lparr>me_mappedIn := filter (\<lambda>v. vi_task v \<noteq> task) (me_mappedIn en)\<rparr>) s)\<lparr>vs_pt := pt\<rparr>)))))"

text \<open>The address space of the task of each view gets the new flags.\<close>

fun update_views :: "bool \<Rightarrow> map_entry \<Rightarrow> vm_state \<Rightarrow> view_info list \<Rightarrow> pt_state \<Rightarrow> pt_state outcome option" where
  "update_views nx en s [] pt = Some (Inr pt)"
| "update_views nx en s (v # vs) pt =
     (case vs_tasks s (vi_task v) of None \<Rightarrow> Some (Inl BadAccess) | Some t \<Rightarrow>
      with_map (vt_map t) s (\<lambda>mp.
      dbind (map_object nx (vm_table mp) (vi_base v) (vi_flags v) en pt) (update_views nx en s vs)))"

definition updateFlags :: "bool \<Rightarrow> u32 \<Rightarrow> nat \<Rightarrow> vm_state \<Rightarrow> (int \<times> vm_state) outcome option" where
  "updateFlags nx newFlags e s =
     with_ent e s (\<lambda>en.
     let flags = ((me_flags en AND NOT mf_PermissionsMask) AND NOT mf_CacheabilityMask) OR newFlags;
         en' = en\<lparr>me_flags := flags\<rparr>
     in dbind (if me_flags en \<noteq> flags then update_views nx en' s (me_mappedIn en) (vs_pt s) else Some (Inr (vs_pt s))) (\<lambda>pt.
        Some (Inr (0, (put_ent e en' s)\<lparr>vs_pt := pt\<rparr>))))"

section \<open>Page faults\<close>

definition vm_alloc :: "vm_state \<Rightarrow> (u64 \<times> vm_state) outcome" where
  "vm_alloc s =
     obind (allocPage (pt_phys (vs_pt s)) (pt_mem (vs_pt s))) (\<lambda>(page, p, m).
     Inr (page, s\<lparr>vs_pt := (vs_pt s)\<lparr>pt_phys := p, pt_mem := m\<rparr>\<rparr>))"

definition count_pages :: "(u64 \<Rightarrow> u64) \<Rightarrow> vm_state \<Rightarrow> vm_state outcome" where
  "count_pages f s =
     (case vs_cur s of None \<Rightarrow> Inr s
      | Some t \<Rightarrow> (case vs_tasks s t of None \<Rightarrow> Inl BadAccess
          | Some tk \<Rightarrow> Inr (s\<lparr>vs_tasks := (vs_tasks s)(t \<mapsto> tk\<lparr>vt_pages := f (vt_pages tk)\<rparr>)\<rparr>)))"

definition new_page_leaf :: "u64 \<Rightarrow> u64 \<Rightarrow> u64 leaf" where
  "new_page_leaf offset phys =
     \<lparr>lf_key = offset, lf_val = phys, lf_color = RBNone, lf_parent = None, lf_left = None, lf_right = None\<rparr>"

definition insert_page :: "(addr set \<Rightarrow> addr) \<Rightarrow> u64 \<Rightarrow> u64 \<Rightarrow> u64 bst \<Rightarrow> u64 bst outcome option" where
  "insert_page new pageOff page pages =
     (let a = new (dom (nodes pages)) in rbt_insert a (alloc_leaf a (new_page_leaf pageOff page) pages))"

text \<open>Mapping one page of an object, which must not fail.\<close>

definition map_page_at :: "bool \<Rightarrow> nat \<Rightarrow> u64 \<Rightarrow> u64 \<Rightarrow> u32 \<Rightarrow> vm_state \<Rightarrow> vm_state outcome option" where
  "map_page_at nx h page destAddr mode s =
     dbind (vm_add_phys nx h page arch_page_size destAddr mode (vs_pt s)) (\<lambda>(err, pt).
     Some (require (err = 0) ''failed to map page'' (Inr (s\<lparr>vs_pt := pt\<rparr>))))"

text \<open>
  Faulting in a page, with the call of the sequence detector as an argument: it is either the
  detector or, when the page is faulted in ahead by the detector itself, nothing.
\<close>

definition faultInPage_with :: "(vm_state \<Rightarrow> vm_state outcome option) \<Rightarrow> (addr set \<Rightarrow> addr) \<Rightarrow> bool \<Rightarrow> nat
    \<Rightarrow> u64 \<Rightarrow> u64 \<Rightarrow> nat \<Rightarrow> vm_state \<Rightarrow> vm_state outcome option" where
  "faultInPage_with detect new nx m vbase offset e s =
     with_map m s (\<lambda>mp. with_ent e s (\<lambda>en.
     let pageOff = offset div arch_page_size;
         destAddr = vbase + pageOff * arch_page_size;
         mode = ConvertVmMode (me_flags en) (\<not> me_kernel en)
     in
     dbind (findKey pageOff (me_pages en)) (\<lambda>page.
     if page \<noteq> None then
       dbind (Some (deref (nodes (me_pages en)) page)) (\<lambda>n. map_page_at nx (vm_table mp) (lf_val n) destAddr mode s)
     else
       dbind (Some (vm_alloc s)) (\<lambda>(page, s).
       if page = 0 then Some (Inl (Panic ''failed to allocage physical page''))
       else
         dbind (Some (count_pages (\<lambda>n. n + 1) s)) (\<lambda>s.
         dbind (detect s) (\<lambda>s.
         with_ent e s (\<lambda>en.
         dbind (insert_page new pageOff page (me_pages en)) (\<lambda>pages.
         map_page_at nx (vm_table mp) page destAddr mode (put_ent e (en\<lparr>me_pages := pages\<rparr>) s)))))))))"

text \<open>
  The loop that faults pages in ahead: it returns the index at which it stopped, \<open>numFault\<close> when
  all pages were inside the object.
\<close>

fun prefault :: "(addr set \<Rightarrow> addr) \<Rightarrow> bool \<Rightarrow> nat \<Rightarrow> u64 \<Rightarrow> u64 \<Rightarrow> nat \<Rightarrow> nat \<Rightarrow> nat list \<Rightarrow> vm_state \<Rightarrow> (nat \<times> vm_state) outcome option" where
  "prefault new nx m vbase offset e numFault [] s = Some (Inr (numFault, s))"
| "prefault new nx m vbase offset e numFault (i # is) s =
     with_ent e s (\<lambda>en.
     let byteOff = (of_nat i + 1) * arch_page_size in
     if offset + byteOff \<ge> me_length en then Some (Inr (i, s))
     else dbind (faultInPage_with (\<lambda>s. Some (Inr s)) new nx m vbase (offset + byteOff) e s)
            (prefault new nx m vbase offset e numFault is))"

definition kMaxSequentialPrefault :: u64 where "kMaxSequentialPrefault = 64"

definition detectFaultSequence :: "(addr set \<Rightarrow> addr) \<Rightarrow> bool \<Rightarrow> nat \<Rightarrow> u64 \<Rightarrow> u64 \<Rightarrow> u64 \<Rightarrow> nat \<Rightarrow> vm_state \<Rightarrow> vm_state outcome option" where
  "detectFaultSequence new nx m vbase offset pageOff e s =
     with_ent e s (\<lambda>en.
     case me_seq en of
       Idle \<Rightarrow> Some (Inr (put_ent e (en\<lparr>me_lastOffset := pageOff, me_lastStride := 0, me_seq := Detect1\<rparr>) s))
     | Detect1 \<Rightarrow>
         if pageOff \<le> me_lastOffset en then Some (Inr (put_ent e (en\<lparr>me_seq := Idle\<rparr>) s))
         else Some (Inr (put_ent e (en\<lparr>me_lastStride := pageOff - me_lastOffset en, me_lastOffset := pageOff, me_seq := Detect2\<rparr>) s))
     | Detect2 \<Rightarrow>
         if pageOff \<le> me_lastOffset en then Some (Inr (put_ent e (en\<lparr>me_seq := Idle\<rparr>) s))
         else if pageOff - me_lastOffset en \<noteq> me_lastStride en
         then Some (Inr (put_ent e (en\<lparr>me_numSeq := 0, me_seq := Idle\<rparr>) s))
         else
           let en = en\<lparr>me_lastOffset := pageOff, me_numSeq := me_numSeq en + 1\<rparr>;
               numFault = (if me_numSeq en < kMaxSequentialPrefault then me_numSeq en else kMaxSequentialPrefault)
           in dbind (prefault new nx m vbase offset e (unat numFault) [0..<unat numFault] (put_ent e en s)) (\<lambda>(i, s).
              with_ent e s (\<lambda>en.
              if i = unat numFault then Some (Inr (put_ent e (en\<lparr>me_lastOffset := me_lastOffset en + numFault\<rparr>) s))
              else Some (Inr (put_ent e (en\<lparr>me_numSeq := 0, me_seq := Idle\<rparr>) s)))))"

definition faultInPage :: "(addr set \<Rightarrow> addr) \<Rightarrow> bool \<Rightarrow> nat \<Rightarrow> u64 \<Rightarrow> u64 \<Rightarrow> bool \<Rightarrow> nat \<Rightarrow> vm_state \<Rightarrow> vm_state outcome option" where
  "faultInPage new nx m vbase offset runDetector e s =
     faultInPage_with
       (if runDetector then detectFaultSequence new nx m vbase offset (offset div arch_page_size) e else (\<lambda>s. Some (Inr s)))
       new nx m vbase offset e s"

definition entry_handlePagefault :: "(addr set \<Rightarrow> addr) \<Rightarrow> bool \<Rightarrow> nat \<Rightarrow> u64 \<Rightarrow> u64 \<Rightarrow> bool \<Rightarrow> nat \<Rightarrow> vm_state \<Rightarrow> (bool \<times> vm_state) outcome option" where
  "entry_handlePagefault new nx m vbase offset pres e s =
     with_ent e s (\<lambda>en.
     if \<not> me_anon en then Some (Inr (False, s))
     else if pres then Some (Inr (False, s))
     else if offset \<ge> me_length en then Some (Inr (False, s))
     else dbind (faultInPage new nx m vbase offset True e s) (\<lambda>s. Some (Inr (True, s))))"

text \<open>Allocating all pages of an object; they are inserted but not mapped.\<close>

fun fault_all :: "(addr set \<Rightarrow> addr) \<Rightarrow> nat \<Rightarrow> nat list \<Rightarrow> vm_state \<Rightarrow> (int \<times> vm_state) outcome option" where
  "fault_all new e [] s = Some (Inr (0, s))"
| "fault_all new e (i # is) s =
     dbind (Some (vm_alloc s)) (\<lambda>(page, s).
     if page = 0 then Some (Inr (-1, s))
     else with_ent e s (\<lambda>en.
       dbind (insert_page new (of_nat i) page (me_pages en)) (\<lambda>pages.
       fault_all new e is (put_ent e (en\<lparr>me_pages := pages\<rparr>) s))))"

definition faultInAllPages :: "(addr set \<Rightarrow> addr) \<Rightarrow> nat \<Rightarrow> vm_state \<Rightarrow> (int \<times> vm_state) outcome option" where
  "faultInAllPages new e s =
     with_ent e s (\<lambda>en.
     if \<not> me_anon en then Some (Inl (Panic ''cannot fault in pages for non-anonymous memory''))
     else if \<not> bst_empty (me_pages en) then Some (Inl (Panic ''can't fault in all pages, as there are already some allocated''))
     else fault_all new e [0..<unat (me_length en div arch_page_size)] s)"

text \<open>The destructor gives the pages back, in the order of the iterator.\<close>

definition vm_freePage :: "u64 \<Rightarrow> vm_state \<Rightarrow> vm_state outcome" where
  "vm_freePage phys s =
     obind (freePage phys (pt_phys (vs_pt s))) (\<lambda>p.
     count_pages (\<lambda>n. n - 1) (s\<lparr>vs_pt := (vs_pt s)\<lparr>pt_phys := p\<rparr>\<rparr>))"

partial_function (option) free_pages_from :: "u64 leaf_heap \<Rightarrow> addr option \<Rightarrow> vm_state \<Rightarrow> vm_state outcome option" where
  "free_pages_from pages info s =
     (if info = None then Some (Inr s)
      else dbind (Some (deref pages info)) (\<lambda>n.
        dbind (Some (vm_freePage (lf_val n) s)) (\<lambda>s.
        dbind (iter_increment pages info) (\<lambda>info. free_pages_from pages info s))))"

definition entry_destroy :: "nat \<Rightarrow> vm_state \<Rightarrow> vm_state outcome option" where
  "entry_destroy e s =
     with_ent e s (\<lambda>en.
     dbind (iter_begin (me_pages en)) (\<lambda>info.
     dbind (free_pages_from (nodes (me_pages en)) info s) (\<lambda>s.
     dbind (bst_destroy (me_pages en)) (\<lambda>_. Some (Inr (s\<lparr>vs_ents := (vs_ents s)(e := None)\<rparr>))))))"

section \<open>Address spaces\<close>

text \<open>A new address space at \<open>m\<close> with the page table handler \<open>h\<close>, below that of the kernel map if it is to be copied.\<close>

definition vm_create :: "bool \<Rightarrow> nat \<Rightarrow> nat \<Rightarrow> nat option \<Rightarrow> vm_state \<Rightarrow> vm_state outcome" where
  "vm_create nx m h kern s =
     obind (case kern of None \<Rightarrow> Inr None
            | Some k \<Rightarrow> (case vs_maps s k of None \<Rightarrow> Inl BadAccess | Some kmp \<Rightarrow> Inr (Some (vm_table kmp)))) (\<lambda>parent.
     obind (pte_create nx h parent (vs_pt s)) (\<lambda>pt.
     Inr ((put_map m \<lparr>vm_entries = no_nodes, vm_table = h\<rparr> s)\<lparr>vs_pt := pt\<rparr>)))"

definition kVmSearchBase :: u64 where "kVmSearchBase = 0x400000000000"
definition kVmMaxAddr :: u64 where "kVmMaxAddr = 0x7E0000000000"

text \<open>The search for a large enough free space; it may go on forever.\<close>

partial_function (option) search_base :: "map_tree \<Rightarrow> u64 \<Rightarrow> u64 \<Rightarrow> u64 \<Rightarrow> u64 option outcome option" where
  "search_base entries sz searchEnd vbase =
     (if vbase < searchEnd - sz then
        dbind (isRegionFree vbase sz entries) (\<lambda>(isFree, nextFree).
        if isFree then Some (Inr (Some vbase)) else search_base entries sz searchEnd nextFree)
      else Some (Inr None))"

text \<open>The part of adding an object that holds the lock: choose the base and insert the mapping.\<close>

definition vm_place :: "(addr set \<Rightarrow> addr) \<Rightarrow> nat option \<Rightarrow> u64 \<Rightarrow> u64 \<Rightarrow> u64 \<Rightarrow> u64 \<Rightarrow> map_tree
    \<Rightarrow> (u64 option \<times> map_tree) outcome option" where
  "vm_place new entry requestedBase sz searchStart searchEnd entries =
     dbind (if requestedBase \<noteq> 0 then
              dbind (isRegionFree requestedBase sz entries) (\<lambda>(isFree, nextFree).
              Some (Inr (if isFree then Some requestedBase else None)))
            else search_base entries sz searchEnd searchStart) (\<lambda>found.
     case found of None \<Rightarrow> Some (Inr (None, entries))
     | Some vbase \<Rightarrow> dbind (map_insert (new (dom (nodes entries))) vbase sz entry mf_None entries) (\<lambda>entries.
         Some (Inr (Some vbase, entries))))"

definition vm_add :: "(addr set \<Rightarrow> addr) \<Rightarrow> bool \<Rightarrow> nat option \<Rightarrow> nat option \<Rightarrow> u64 \<Rightarrow> u32 \<Rightarrow> u64 \<Rightarrow> u64 \<Rightarrow> u64 \<Rightarrow> nat
    \<Rightarrow> vm_state \<Rightarrow> (int \<times> vm_state) outcome option" where
  "vm_add new nx entry task requestedBase flagsMask viewSize searchStart searchEnd m s =
     (case entry of None \<Rightarrow> Some (Inl (Panic ''invalid vm object''))
      | Some e \<Rightarrow> (case task of None \<Rightarrow> Some (Inl (Panic ''invalid task''))
      | Some t \<Rightarrow>
        with_ent e s (\<lambda>en. with_map m s (\<lambda>mp.
        dbind (vm_place new entry requestedBase (if viewSize \<noteq> 0 then viewSize else me_length en) searchStart searchEnd (vm_entries mp)) (\<lambda>(found, entries).
        case found of None \<Rightarrow> Some (Inr (-1, s))
        | Some vbase \<Rightarrow>
            dbind (addedToMap nx m t vbase flagsMask e (put_map m (mp\<lparr>vm_entries := entries\<rparr>) s)) (\<lambda>s. Some (Inr (0, s))))))))"

definition vm_findRegion :: "u64 \<Rightarrow> nat \<Rightarrow> vm_state \<Rightarrow> (nat \<times> u64) option outcome option" where
  "vm_findRegion virtAddr m s =
     with_map m s (\<lambda>mp.
     dbind (map_find virtAddr (vm_entries mp)) (\<lambda>(obj, pos).
     Some (Inr (case obj of None \<Rightarrow> None | Some e \<Rightarrow> Some (e, fst (the pos))))))"

definition vm_getRegionBase :: "nat \<Rightarrow> nat \<Rightarrow> vm_state \<Rightarrow> u64 outcome option" where
  "vm_getRegionBase e m s =
     with_map m s (\<lambda>mp. dbind (baseAddressFor (Some e) (vm_entries mp)) (\<lambda>(vbase, lng, flags). Some (Inr vbase)))"

definition vm_getRegionInfo :: "nat \<Rightarrow> nat \<Rightarrow> vm_state \<Rightarrow> (int \<times> (u64 \<times> u64 \<times> u32) option) outcome option" where
  "vm_getRegionInfo e m s =
     with_map m s (\<lambda>mp.
     dbind (baseAddressFor (Some e) (vm_entries mp)) (\<lambda>(vbase, lng, flags).
     if vbase = 0 then Some (Inr (-1, None))
     else if flags \<noteq> mf_None then Some (Inr (0, Some (vbase, lng, flags)))
     else with_ent e s (\<lambda>en. Some (Inr (0, Some (vbase, lng, me_flags en))))))"

definition vm_remove :: "nat \<Rightarrow> nat option \<Rightarrow> nat \<Rightarrow> vm_state \<Rightarrow> (int \<times> vm_state) outcome option" where
  "vm_remove e task m s =
     (case task of None \<Rightarrow> Some (Inl (Panic ''invalid task''))
      | Some t \<Rightarrow>
        with_map m s (\<lambda>mp.
        dbind (baseAddressFor (Some e) (vm_entries mp)) (\<lambda>(vbase, lng, flags).
        if vbase = 0 then Some (Inr (-1, s))
        else dbind (map_remove vbase (vm_entries mp)) (\<lambda>(_, entries).
          dbind (removedFromMap m t vbase lng e (put_map m (mp\<lparr>vm_entries := entries\<rparr>) s)) (\<lambda>s. Some (Inr (0, s)))))))"

definition vm_contains :: "nat \<Rightarrow> nat \<Rightarrow> vm_state \<Rightarrow> bool outcome option" where
  "vm_contains e m s =
     with_map m s (\<lambda>mp. dbind (baseAddressFor (Some e) (vm_entries mp)) (\<lambda>(vbase, lng, flags). Some (Inr (vbase \<noteq> 0))))"

definition numMappings :: "nat \<Rightarrow> vm_state \<Rightarrow> u64 outcome option" where
  "numMappings m s = with_map m s (\<lambda>mp. bst_size (vm_entries mp))"

definition handlePagefault :: "(addr set \<Rightarrow> addr) \<Rightarrow> bool \<Rightarrow> u64 \<Rightarrow> bool \<Rightarrow> nat \<Rightarrow> vm_state \<Rightarrow> (bool \<times> vm_state) outcome option" where
  "handlePagefault new nx virtAddr pres m s =
     with_map m s (\<lambda>mp.
     dbind (map_find virtAddr (vm_entries mp)) (\<lambda>(region, pos).
     case region of None \<Rightarrow> Some (Inr (False, s))
     | Some e \<Rightarrow> entry_handlePagefault new nx m (snd (the pos)) (fst (the pos)) pres e s))"

section \<open>The kernel map\<close>

text \<open>
  Mapping the sections of the kernel image, whose places the platform reports; the status of each
  mapping is not looked at.
\<close>

fun map_sections :: "bool \<Rightarrow> nat \<Rightarrow> ((u64 \<times> u64 \<times> u64) option \<times> u32) list \<Rightarrow> pt_state \<Rightarrow> pt_state outcome option" where
  "map_sections nx h [] pt = Some (Inr pt)"
| "map_sections nx h ((None, mode) # secs) pt = Some (Inl (Panic ''failed to get section''))"
| "map_sections nx h ((Some (physAddr, virtAddr, lng), mode) # secs) pt =
     dbind (vm_add_phys nx h physAddr lng virtAddr mode pt) (\<lambda>(err, pt). map_sections nx h secs pt)"

definition mapper_create :: "bool \<Rightarrow> nat \<Rightarrow> nat \<Rightarrow> (u64 \<times> u64 \<times> u64) option \<Rightarrow> (u64 \<times> u64 \<times> u64) option \<Rightarrow> (u64 \<times> u64 \<times> u64) option
    \<Rightarrow> vm_state \<Rightarrow> vm_state outcome option" where
  "mapper_create nx m h stext sdata sbss s =
     dbind (Some (vm_create nx m h None s)) (\<lambda>s.
     dbind (map_sections nx h [(stext, mm_kKernelExec OR mm_GLOBAL), (sdata, mm_kKernelRW OR mm_GLOBAL), (sbss, mm_kKernelRW OR mm_GLOBAL)] (vs_pt s)) (\<lambda>pt.
     Some (Inr (s\<lparr>vs_pt := pt\<rparr>))))"

end
