(* ===== verification/Vm_Props.thy ===== *)
theory Vm_Props
  imports Vm_Map
begin

text \<open>
  Properties of virtual memory. Placing an object ends, keeps the mappings of the address space
  disjoint and, without a requested base, takes the lowest address in the range at which the
  object fits. A page fault in an anonymous object leaves the faulting page mapped to a frame
  that the object owns at that offset, and every other user page as it was, apart from pages of
  the object that are faulted in ahead. A view with a permission mask has no permissions.
\<close>

section \<open>Placing an object\<close>

text \<open>Whether a region of the address space meets no mapping.\<close>

definition vacant :: "map_tree \<Rightarrow> addr tree \<Rightarrow> u64 \<Rightarrow> u64 \<Rightarrow> bool" where
  "vacant b t sz a \<longleftrightarrow> (\<forall>e \<in> set (contents (nodes b) t). entry_range e \<inter> addr_range a sz = {})"

text \<open>Every mapping ends before the last address, so that its end is an address.\<close>

definition bounded :: "map_tree \<Rightarrow> addr tree \<Rightarrow> bool" where
  "bounded b t \<longleftrightarrow> (\<forall>e \<in> set (contents (nodes b) t). unat (fst e) + unat (mt_size (snd e)) < 2 ^ 64)"

lemma isRegionFree_vacant:
  assumes "map_ok b t" "fits a sz"
  shows "\<exists>next. isRegionFree a sz b = Some (Inr (vacant b t sz a, next))
    \<and> (\<not> vacant b t sz a \<longrightarrow> (\<exists>e \<in> set (contents (nodes b) t). entry_range e \<inter> addr_range a sz \<noteq> {} \<and> next = fst e + mt_size (snd e)))"
  using isRegionFree_ok [OF assms] unfolding vacant_def
  by (simp add: contents_def leaf_range_entry) (simp add: leaf_of_def entry_of_def)

text \<open>After a mapping in the way, no base before its end is free.\<close>

lemma blocked_until_end:
  assumes "entry_range e \<inter> addr_range a sz \<noteq> {}" "unat a \<le> unat a'" "unat a' < unat (fst e) + unat (mt_size (snd e))" "0 < sz"
  shows "entry_range e \<inter> addr_range a' sz \<noteq> {}"
proof -
  have sz: "0 < unat sz"
    using assms(4) by (simp add: word_less_nat_alt)
  obtain x where "x \<in> entry_range e" "x \<in> addr_range a sz"
    using assms(1) by blast
  then have "unat (fst e) < unat a + unat sz" "0 < unat (mt_size (snd e))"
    by (auto simp: entry_range_def addr_range_def)
  then have "max (unat (fst e)) (unat a') \<in> entry_range e \<inter> addr_range a' sz"
    using assms(2,3) sz by (auto simp: entry_range_def addr_range_def)
  then show ?thesis
    by blast
qed

lemma search_fits:
  assumes "0 < sz" "sz \<le> searchEnd" "a < searchEnd - sz"
  shows "fits a sz"
proof -
  have "unat (searchEnd - sz) = unat searchEnd - unat sz" "unat sz \<le> unat searchEnd"
    using assms(2) by (simp_all add: unat_sub word_le_nat_alt)
  moreover have "unat a < unat (searchEnd - sz)"
    using assms(3) by (simp add: word_less_nat_alt)
  moreover have "unat searchEnd < 2 ^ 64"
    using unsigned_less [of searchEnd] by simp
  ultimately show ?thesis
    using assms(1) by (simp add: fits_def)
qed

lemma search_base_first:
  assumes ok: "map_ok b t" "bounded b t" and sz: "0 < sz" "sz \<le> searchEnd"
  shows "\<exists>r. search_base b sz searchEnd start = Some (Inr r) \<and>
    (case r of Some a \<Rightarrow> start \<le> a \<and> a < searchEnd - sz \<and> vacant b t sz a \<and> (\<forall>a'. start \<le> a' \<longrightarrow> a' < a \<longrightarrow> \<not> vacant b t sz a')
     | None \<Rightarrow> \<forall>a'. start \<le> a' \<longrightarrow> a' < searchEnd - sz \<longrightarrow> \<not> vacant b t sz a')"
proof (induction "2 ^ 64 - unat start" arbitrary: start rule: less_induct)
  case less
  show ?case
  proof (cases "start < searchEnd - sz")
    case False
    then have "search_base b sz searchEnd start = Some (Inr None)"
      by (subst search_base.simps) simp
    then show ?thesis
      using False by auto
  next
    case True
    obtain nxt where nxt: "isRegionFree start sz b = Some (Inr (vacant b t sz start, nxt))"
        "\<not> vacant b t sz start \<Longrightarrow> (\<exists>e \<in> set (contents (nodes b) t). entry_range e \<inter> addr_range start sz \<noteq> {} \<and> nxt = fst e + mt_size (snd e))"
      using isRegionFree_vacant [OF ok(1) search_fits [OF sz True]] by blast
    show ?thesis
    proof (cases "vacant b t sz start")
      case free: True
      then have "search_base b sz searchEnd start = Some (Inr (Some start))"
        using nxt(1) True by (subst search_base.simps) simp
      then show ?thesis
        using True free by auto
    next
      case False
      then obtain e where e: "e \<in> set (contents (nodes b) t)" "entry_range e \<inter> addr_range start sz \<noteq> {}" "nxt = fst e + mt_size (snd e)"
        using nxt(2) by blast
      have un: "unat nxt = unat (fst e) + unat (mt_size (snd e))"
        using ok(2) e(1) unfolding e(3) bounded_def by (simp add: unat_word_ariths(1))
      have gt: "unat start < unat nxt"
        using e(2) un by (auto simp: entry_range_def addr_range_def)
      have run: "search_base b sz searchEnd start = search_base b sz searchEnd nxt"
        using nxt(1) True False by (subst search_base.simps) simp
      have skip: "\<not> vacant b t sz a'" if "start \<le> a'" "a' < nxt" for a'
        using blocked_until_end [OF e(2), of a'] e(1) that un sz(1) unfolding vacant_def by (auto simp: word_le_nat_alt word_less_nat_alt)
      have "unat nxt < 2 ^ 64"
        using unsigned_less [of nxt] by simp
      then have "2 ^ 64 - unat nxt < 2 ^ 64 - unat start"
        using gt by simp
      then obtain r where r: "search_base b sz searchEnd nxt = Some (Inr r)"
        "case r of Some a \<Rightarrow> nxt \<le> a \<and> a < searchEnd - sz \<and> vacant b t sz a \<and> (\<forall>a'. nxt \<le> a' \<longrightarrow> a' < a \<longrightarrow> \<not> vacant b t sz a')
         | None \<Rightarrow> \<forall>a'. nxt \<le> a' \<longrightarrow> a' < searchEnd - sz \<longrightarrow> \<not> vacant b t sz a'"
        using less by blast
      have "start \<le> nxt"
        using gt by (simp add: word_le_nat_alt)
      then have "case r of Some a \<Rightarrow> start \<le> a \<and> a < searchEnd - sz \<and> vacant b t sz a \<and> (\<forall>a'. start \<le> a' \<longrightarrow> a' < a \<longrightarrow> \<not> vacant b t sz a')
         | None \<Rightarrow> \<forall>a'. start \<le> a' \<longrightarrow> a' < searchEnd - sz \<longrightarrow> \<not> vacant b t sz a'"
        using r(2) skip by (cases r) (auto simp: not_less dest: order_trans not_le_imp_less)
      then show ?thesis
        using run r(1) by (intro exI [of _ r]) simp
    qed
  qed
qed

lemma map_insert_eq: "map_insert nd a sz entry fl b = bst_insert nd (alloc_leaf nd (new_map_leaf a sz fl entry) b)"
  by (simp add: map_insert_def bst_insert_def alloc_leaf_def new_map_leaf_def)

lemma vacant_key:
  assumes "map_ok b t" "vacant b t sz a" "0 < sz"
  shows "a \<notin> fst ` set (contents (nodes b) t)"
proof
  assume "a \<in> fst ` set (contents (nodes b) t)"
  then obtain e where e: "e \<in> set (contents (nodes b) t)" "fst e = a"
    by blast
  then have "0 < mt_size (snd e)"
    using assms(1) by (auto simp: map_ok_entries ok_entries_def fits_def)
  then have "unat a \<in> entry_range e \<inter> addr_range a sz"
    using e(2) assms(3) by (simp add: entry_range_def addr_range_def word_less_nat_alt)
  then show False
    using assms(2) e(1) unfolding vacant_def by blast
qed

lemma map_insert_ok:
  assumes "map_ok b t" "nd \<notin> dom (nodes b)" "fits a sz" "vacant b t sz a"
  shows "\<exists>b' t'. map_insert nd a sz entry fl b = Some (Inr b') \<and> map_ok b' t'
    \<and> set (contents (nodes b') t') = insert (a, \<lparr>mt_size = sz, mt_flags = fl, mt_entry = entry\<rparr>) (set (contents (nodes b) t))"
proof -
  let ?n = "new_map_leaf a sz fl entry"
  have pos: "0 < sz"
    using assms(3) by (simp add: fits_def)
  have "unlinked ?n" "nodes b nd = None" "lf_key ?n \<notin> fst ` set (contents (nodes b) t)"
    using vacant_key [OF assms(1,4) pos] assms(2) by (auto simp: unlinked_def new_map_leaf_def)
  then obtain b' t' where b': "bst_insert nd (alloc_leaf nd ?n b) = Some (Inr b')" "bst_rep b' t'"
      "set (contents (nodes b') t') = insert (lf_key ?n, lf_val ?n) (set (contents (nodes b) t))"
    using bst_insert_rep [of b t nd ?n] assms(1) unfolding map_ok_def by blast
  have "ok_entries (set (contents (nodes b') t'))"
    unfolding b'(3) using assms(1,3,4) unfolding map_ok_entries vacant_def
    by (intro ok_entries_insert) (auto simp: new_map_leaf_def entry_range_def)
  then show ?thesis
    using b' unfolding map_insert_eq map_ok_entries by (auto simp: new_map_leaf_def)
qed

lemma vm_place_ok:
  assumes ok: "map_ok b t" "bounded b t" and new: "new (dom (nodes b)) \<notin> dom (nodes b)"
    and sz: "0 < sz" "sz \<le> searchEnd" and req: "requested \<noteq> 0 \<Longrightarrow> fits requested sz"
  shows "\<exists>r b' t'. vm_place new entry requested sz start searchEnd b = Some (Inr (r, b')) \<and> map_ok b' t' \<and>
    (case r of
       None \<Rightarrow> b' = b \<and> (if requested \<noteq> 0 then \<not> vacant b t sz requested
                        else \<forall>a. start \<le> a \<longrightarrow> a < searchEnd - sz \<longrightarrow> \<not> vacant b t sz a)
     | Some a \<Rightarrow> set (contents (nodes b') t') = insert (a, \<lparr>mt_size = sz, mt_flags = 0, mt_entry = entry\<rparr>) (set (contents (nodes b) t))
         \<and> vacant b t sz a
         \<and> (if requested \<noteq> 0 then a = requested
            else start \<le> a \<and> a < searchEnd - sz \<and> (\<forall>a'. start \<le> a' \<longrightarrow> a' < a \<longrightarrow> \<not> vacant b t sz a')))"
proof -
  obtain r where r: "(if requested \<noteq> 0 then
              dbind (isRegionFree requested sz b) (\<lambda>(isFree, nextFree). Some (Inr (if isFree then Some requested else None)))
            else search_base b sz searchEnd start) = Some (Inr r)"
      "case r of None \<Rightarrow> (if requested \<noteq> 0 then \<not> vacant b t sz requested
                        else \<forall>a. start \<le> a \<longrightarrow> a < searchEnd - sz \<longrightarrow> \<not> vacant b t sz a)
     | Some a \<Rightarrow> fits a sz \<and> vacant b t sz a
         \<and> (if requested \<noteq> 0 then a = requested
            else start \<le> a \<and> a < searchEnd - sz \<and> (\<forall>a'. start \<le> a' \<longrightarrow> a' < a \<longrightarrow> \<not> vacant b t sz a'))"
  proof (cases "requested = 0")
    case True
    obtain r where "search_base b sz searchEnd start = Some (Inr r)"
      "case r of Some a \<Rightarrow> start \<le> a \<and> a < searchEnd - sz \<and> vacant b t sz a \<and> (\<forall>a'. start \<le> a' \<longrightarrow> a' < a \<longrightarrow> \<not> vacant b t sz a')
       | None \<Rightarrow> \<forall>a'. start \<le> a' \<longrightarrow> a' < searchEnd - sz \<longrightarrow> \<not> vacant b t sz a'"
      using search_base_first [OF ok sz] by blast
    then show ?thesis
      using that [of r] True search_fits [OF sz] by (cases r) auto
  next
    case False
    then obtain nxt where "isRegionFree requested sz b = Some (Inr (vacant b t sz requested, nxt))"
      using isRegionFree_vacant [OF ok(1) req] by blast
    then show ?thesis
      using that [of "if vacant b t sz requested then Some requested else None"] False req by auto
  qed
  show ?thesis
  proof (cases r)
    case None
    then show ?thesis
      using r ok(1) unfolding vm_place_def by (intro exI [of _ None] exI [of _ b] exI [of _ t]) simp
  next
    case (Some a)
    then obtain b' t' where "map_insert (new (dom (nodes b))) a sz entry mf_None b = Some (Inr b')" "map_ok b' t'"
        "set (contents (nodes b') t') = insert (a, \<lparr>mt_size = sz, mt_flags = 0, mt_entry = entry\<rparr>) (set (contents (nodes b) t))"
      using map_insert_ok [OF ok(1) new, of a sz entry mf_None] r(2) by (auto simp: mf_None_def)
    then show ?thesis
      using r Some unfolding vm_place_def by (intro exI [of _ "Some a"] exI [of _ b'] exI [of _ t']) simp
  qed
qed

section \<open>Allocating a page\<close>

text \<open>Zeroing a free frame does not change any table.\<close>

lemma zero_free_slot:
  assumes "pt_tree m r F" "user_addr v" "k \<le> 3" "walk m r v k = Some t" "p \<in> F" "table_frame p"
  shows "zero_page p m (t + 8 * table_idx k v) = m (t + 8 * table_idx k v)"
proof -
  have "t \<noteq> p"
    using pt_treeD(2) [OF assms(1-4)] assms(5) by auto
  then show ?thesis
    using slot_in_page [OF pt_treeD(1) [OF assms(1-4)] assms(6)] by (simp add: zero_page_def)
qed

lemma zero_free_walk:
  assumes "pt_tree m r F" "user_addr v" "p \<in> F" "table_frame p"
  shows "k \<le> 3 \<Longrightarrow> walk (zero_page p m) r v k = walk m r v k"
proof (induction k)
  case (Suc k)
  then show ?case
    using zero_free_slot [OF assms(1,2) _ _ assms(3,4), of k] by (cases "walk m r v k") auto
qed simp

lemma zero_free_tree:
  assumes "pt_tree m r F" "p \<in> F" "table_frame p"
  shows "pt_tree (zero_page p m) r (F - {p})"
proof -
  have walks: "k \<le> 3 \<Longrightarrow> walk (zero_page p m) r v k = walk m r v k" if "user_addr v" for v k
    using zero_free_walk [OF assms(1) that assms(2,3)] .
  have "table_entry (zero_page p m (t + 8 * table_idx k v))"
    if "user_addr v" "k \<le> 2" "walk m r v k = Some t" "present (zero_page p m (t + 8 * table_idx k v))" for v k t
    using that zero_free_slot [OF assms(1) that(1) _ that(3) assms(2,3)] pt_treeD(5) [OF assms(1) that(1,2,3)] by simp
  then show ?thesis
    using assms(1) walks unfolding pt_tree_def by auto
qed

lemma zero_free_pte:
  assumes "pt_tree m r F" "user_addr v" "p \<in> F" "table_frame p"
  shows "pte_of (zero_page p m) r v = pte_of m r v"
  using zero_free_walk [OF assms, of 3] zero_free_slot [OF assms(1,2) _ _ assms(3,4), of 3]
  by (auto simp: pte_of_def split: option.splits)

lemma pt_tree_less_free: "pt_tree m r F \<Longrightarrow> pt_tree m r (F - A)"
  unfolding pt_tree_def by blast

lemma vm_alloc_ok:
  assumes inv: "pt_inv (vs_pt s) r"
  shows "\<exists>page pt. vm_alloc s = Inr (page, s\<lparr>vs_pt := pt\<rparr>) \<and> pt_same r (vs_pt s) pt
    \<and> (page \<noteq> 0 \<longrightarrow> page \<in> free_frames (vs_pt s) \<and> page \<notin> free_frames pt)"
proof -
  let ?pt = "vs_pt s"
  have ok: "allocator_ok (pt_phys ?pt)" "\<forall>a \<in> usable_pages (all_regions (pt_phys ?pt)). unat a + 4096 \<le> 2 ^ 39"
    and tree: "pt_tree (pt_mem ?pt) r (free_frames ?pt)"
    using inv by (simp_all add: pt_inv_def)
  obtain page p m where a: "allocPage (pt_phys ?pt) (pt_mem ?pt) = Inr (page, p, m)" "allocator_ok p"
    "usable_pages (all_regions p) = usable_pages (all_regions (pt_phys ?pt))"
    "if free_frames ?pt = {} then page = 0 \<and> frames (all_regions p) = {} \<and> m = pt_mem ?pt
     else page \<in> free_frames ?pt \<and> frames (all_regions p) = free_frames ?pt - {page}
        \<and> (m = pt_mem ?pt \<or> m = zero_page page (pt_mem ?pt))"
    using phys.alloc_law [OF ok(1), of "pt_mem ?pt"] by (metis (no_types, lifting))
  let ?pt' = "?pt\<lparr>pt_phys := p, pt_mem := m\<rparr>"
  have same: "pt_same r ?pt ?pt'"
  proof (cases "free_frames ?pt = {}")
    case True
    then show ?thesis
      using a ok(2) tree by (simp add: pt_same_def pt_inv_def)
  next
    case False
    then have page: "page \<in> free_frames ?pt" "frames (all_regions p) = free_frames ?pt - {page}"
        "m = pt_mem ?pt \<or> m = zero_page page (pt_mem ?pt)"
      using a(4) by simp_all
    have "page \<in> usable_pages (all_regions (pt_phys ?pt))"
      using page(1) phys.free_usable [OF ok(1)] by auto
    then have f: "table_frame page"
      using phys.usable_frame [OF ok(1)] ok(2) by (auto simp: table_frame_def)
    show ?thesis
      using page(2,3) a(2,3) ok(2) zero_free_tree [OF tree page(1) f] zero_free_pte [OF tree _ page(1) f] pt_tree_less_free [OF tree]
      by (auto simp: pt_same_def pt_inv_def)
  qed
  show ?thesis
    using a(1,4) same by (intro exI [of _ page] exI [of _ ?pt']) (auto simp: vm_alloc_def split: if_splits)
qed

section \<open>Mapping one page\<close>

text \<open>What the page table reports for an address in a page of an object.\<close>

definition resolved :: "bool \<Rightarrow> u32 \<Rightarrow> u64 \<Rightarrow> u64 \<Rightarrow> int \<times> page_mapping" where
  "resolved nx mode page v =
     (0, \<lparr>pm_phys = Some (entry_addr page + (v AND 0xFFF)), pm_write = has mode mm_WRITE,
          pm_execute = (has mode mm_EXECUTE \<or> \<not> nx), pm_global = False, pm_user = has mode mm_ACCESS_USER\<rparr>)"

lemma one_page: "vm_add_phys nx h page arch_page_size v mode pt =
  dbind (mapPage 2 nx h page v (has mode mm_WRITE) (has mode mm_EXECUTE) (has mode mm_GLOBAL) (has mode mm_ACCESS_USER)
    (has mode mm_CACHE_DISABLE) pt) (\<lambda>(err, pt). Some (Inr (err, pt)))"
proof -
  have "[0..<unat (round_up arch_page_size div arch_page_size)] = [0]"
    by (simp add: round_up_def arch_page_size_def)
  moreover have "(\<lambda>(err :: int, s :: pt_state). if err \<noteq> 0 then Some (Inr (err, s)) else map_range nx h page v mode [] s)
      = (\<lambda>(err, s). Some (Inr (err, s)))"
    by auto
  ultimately show ?thesis
    unfolding vm_add_phys_def by (simp del: map_range.simps(1))
qed

lemma map_page_at_ok:
  assumes "pt_inv (vs_pt s) (pml4Phys hn)" "pt_handlers (vs_pt s) h = Some hn" "user_addr v"
  shows "map_page_at nx h page v mode s = Some (Inl (Panic ''failed to map page'')) \<or>
    (\<exists>pt. map_page_at nx h page v mode s = Some (Inr (s\<lparr>vs_pt := pt\<rparr>)) \<and> pt_inv pt (pml4Phys hn)
       \<and> pt_handlers pt = pt_handlers (vs_pt s)
       \<and> (\<forall>v'. user_addr v' \<longrightarrow> getMapping nx h v' pt =
            (if drop_bit 12 v' = drop_bit 12 v then Inr (resolved nx mode page v') else getMapping nx h v' (vs_pt s))))"
proof -
  obtain st pt where pt: "mapPage 2 nx h page v (has mode mm_WRITE) (has mode mm_EXECUTE) (has mode mm_GLOBAL)
        (has mode mm_ACCESS_USER) (has mode mm_CACHE_DISABLE) (vs_pt s) = Some (Inr (st, pt))"
      "pt_inv pt (pml4Phys hn)" "pt_handlers pt = pt_handlers (vs_pt s)"
      "st = pt_Success \<and> (\<forall>v'. user_addr v' \<longrightarrow> getMapping nx h v' pt =
            (if drop_bit 12 v' = drop_bit 12 v then Inr (resolved nx mode page v') else getMapping nx h v' (vs_pt s)))
       \<or> st = pt_NoMemory"
    using mapPage_user [OF assms, of 1 nx page "has mode mm_WRITE" "has mode mm_EXECUTE" "has mode mm_GLOBAL"
        "has mode mm_ACCESS_USER" "has mode mm_CACHE_DISABLE"]
    unfolding resolved_def by (auto simp: numeral_2_eq_2)
  have run: "map_page_at nx h page v mode s = Some (require (st = 0) ''failed to map page'' (Inr (s\<lparr>vs_pt := pt\<rparr>)))"
    unfolding map_page_at_def one_page pt(1) by simp
  show ?thesis
    using pt(4)
  proof
    assume "st = pt_NoMemory"
    then show ?thesis
      using run by (simp add: require_def pt_NoMemory_def)
  next
    assume "st = pt_Success \<and> (\<forall>v'. user_addr v' \<longrightarrow> getMapping nx h v' pt =
            (if drop_bit 12 v' = drop_bit 12 v then Inr (resolved nx mode page v') else getMapping nx h v' (vs_pt s)))"
    then show ?thesis
      using run pt(2,3) by (intro disjI2 exI [of _ pt]) (simp add: require_def pt_Success_def)
  qed
qed

section \<open>The pages of an object\<close>

definition owned :: "u64 bst \<Rightarrow> (u64 \<times> u64) set" where
  "owned b = (\<lambda>n. (lf_key n, lf_val n)) ` ran (nodes b)"

lemma owned_contents:
  assumes "bst_rep b t"
  shows "set (contents (nodes b) t) = owned b"
proof -
  have d: "dom (nodes b) = set (addrs t)"
    using assms by (simp add: bst_rep_def)
  have "ran (nodes b) = (\<lambda>a. the (nodes b a)) ` set (addrs t)"
    unfolding d [symmetric] by (auto simp: ran_def dom_def image_iff) force
  then show ?thesis
    by (auto simp: contents_def owned_def entry_of_def image_image)
qed

lemma find_page:
  assumes "rbt_rep b t"
  shows "\<exists>r. findKey k b = Some (Inr r) \<and>
    (case r of None \<Rightarrow> k \<notin> fst ` owned b | Some a \<Rightarrow> \<exists>n. nodes b a = Some n \<and> (k, lf_val n) \<in> owned b)"
proof -
  have rep: "bst_rep b t" "shape (nodes b) None (root b) t" "key_sorted (nodes b) (addrs t)" "dom (nodes b) = set (addrs t)"
    using assms by (auto simp: rbt_rep_def bst_rep_def)
  let ?r = "List.find (\<lambda>a. key_of (nodes b) a = k) (addrs t)"
  have run: "findKey k b = Some (Inr ?r)"
    unfolding findKey_def by (rule findKey_at_shape [OF rep(2,3)])
  show ?thesis
  proof (cases ?r)
    case None
    then have "\<forall>a \<in> dom (nodes b). key_of (nodes b) a \<noteq> k"
      using rep(4) by (simp add: find_None_iff)
    then have ne: "lf_key n \<noteq> k" if "nodes b a = Some n" for a n
      using that by (force simp: key_of_def)
    have "k \<notin> lf_key ` ran (nodes b)"
    proof
      assume "k \<in> lf_key ` ran (nodes b)"
      then obtain a n where "nodes b a = Some n" "lf_key n = k"
        by (auto simp: ran_def)
      then show False
        using ne by simp
    qed
    then have "k \<notin> fst ` owned b"
      by (simp add: owned_def image_image)
    then show ?thesis
      using run None by simp
  next
    case (Some a)
    then have "a \<in> set (addrs t)" "key_of (nodes b) a = k"
      unfolding find_Some_iff using nth_mem [of _ "addrs t"] by blast+
    moreover from this(1) obtain n where n: "nodes b a = Some n"
      using rep(4) by blast
    ultimately have "lf_key n = k"
      by (simp add: key_of_def)
    then have "(k, lf_val n) \<in> owned b"
      using n unfolding owned_def by (auto intro: ranI)
    then show ?thesis
      using run Some n by auto
  qed
qed

lemma insert_page_ok:
  assumes "rbt_rep b t" "k \<notin> fst ` owned b" "\<And>A. finite A \<Longrightarrow> new A \<notin> A"
  shows "\<exists>b' t'. insert_page new k page b = Some (Inr b') \<and> rbt_rep b' t' \<and> owned b' = insert (k, page) (owned b)"
proof -
  let ?a = "new (dom (nodes b))" and ?n = "new_page_leaf k page"
  have rep: "bst_rep b t"
    using assms(1) by (simp add: rbt_rep_def)
  then have "finite (dom (nodes b))"
    by (simp add: bst_rep_def)
  then have a: "nodes b ?a = None"
    using assms(3) [of "dom (nodes b)"] by blast
  have n: "unlinked ?n" "lf_key ?n = k" "lf_val ?n = page"
    by (simp_all add: unlinked_def new_page_leaf_def)
  have "lf_key ?n \<notin> fst ` set (contents (nodes b) t)"
    using assms(2) n(2) unfolding owned_contents [OF rep] by simp
  from rbt_insert_rep [OF assms(1) a n(1) this]
  obtain b' t' where b': "rbt_insert ?a (alloc_leaf ?a ?n b) = Some (Inr b')" "rbt_rep b' t'"
      "set (contents (nodes b') t') = insert (k, page) (set (contents (nodes b) t))"
    unfolding n(2,3) by blast
  have "owned b' = insert (k, page) (owned b)"
    using b'(2,3) owned_contents [OF rep] owned_contents [of b' t'] by (simp add: rbt_rep_def)
  then show ?thesis
    using b'(1,2) by (auto simp: insert_page_def Let_def)
qed

section \<open>Page faults\<close>

text \<open>
  The state in which a page of the object \<open>e\<close>, mapped at \<open>vbase\<close> in the table \<open>h\<close>, can be faulted in:
  the tables and the tree of pages are well-formed, the object ends below the kernel's half, and
  the current task exists.
\<close>

definition ready :: "nat \<Rightarrow> u64 \<Rightarrow> nat \<Rightarrow> vm_state \<Rightarrow> bool" where
  "ready h vbase e s \<longleftrightarrow>
     (\<exists>hn. pt_handlers (vs_pt s) h = Some hn \<and> pt_inv (vs_pt s) (pml4Phys hn))
     \<and> (\<exists>en t. vs_ents s e = Some en \<and> rbt_rep (me_pages en) t \<and> unat vbase + unat (me_length en) \<le> 2 ^ 47)
     \<and> (\<forall>t. vs_cur s = Some t \<longrightarrow> vs_tasks s t \<noteq> None)"

text \<open>All of an object but its pages and the state of the sequence detector.\<close>

definition same_object :: "map_entry \<Rightarrow> map_entry \<Rightarrow> bool" where
  "same_object en en' \<longleftrightarrow> me_length en' = me_length en \<and> me_flags en' = me_flags en \<and> me_kernel en' = me_kernel en
     \<and> me_anon en' = me_anon en \<and> me_physBase en' = me_physBase en \<and> me_mappedIn en' = me_mappedIn en
     \<and> me_owner en' = me_owner en"

definition object_mode :: "map_entry \<Rightarrow> u32" where
  "object_mode en = ConvertVmMode (me_flags en) (\<not> me_kernel en)"

text \<open>Every user address is mapped as before, or to a page of the object at its offset.\<close>

definition remapped :: "bool \<Rightarrow> nat \<Rightarrow> u64 \<Rightarrow> u32 \<Rightarrow> (u64 \<times> u64) set \<Rightarrow> pt_state \<Rightarrow> pt_state \<Rightarrow> bool" where
  "remapped nx h vbase mode P pt pt' \<longleftrightarrow>
     (\<forall>v. user_addr v \<longrightarrow> getMapping nx h v pt' = getMapping nx h v pt
        \<or> (\<exists>(k, p) \<in> P. drop_bit 12 v = drop_bit 12 (vbase + k * 4096) \<and> getMapping nx h v pt' = Inr (resolved nx mode p v)))"

lemma remapped_refl: "remapped nx h vbase mode P pt pt"
  by (simp add: remapped_def)

lemma remapped_trans:
  assumes "remapped nx h vbase mode P pt pt'" "remapped nx h vbase mode Q pt' pt''" "P \<subseteq> Q"
  shows "remapped nx h vbase mode Q pt pt''"
  unfolding remapped_def
proof (intro allI impI)
  fix v
  assume u: "user_addr v"
  consider "getMapping nx h v pt'' = getMapping nx h v pt'"
    | "\<exists>(k, p) \<in> Q. drop_bit 12 v = drop_bit 12 (vbase + k * 4096) \<and> getMapping nx h v pt'' = Inr (resolved nx mode p v)"
    using assms(2) u unfolding remapped_def by blast
  then show "getMapping nx h v pt'' = getMapping nx h v pt
        \<or> (\<exists>(k, p) \<in> Q. drop_bit 12 v = drop_bit 12 (vbase + k * 4096) \<and> getMapping nx h v pt'' = Inr (resolved nx mode p v))"
  proof cases
    case 1
    then show ?thesis
      using assms(1,3) u unfolding remapped_def 1 by blast
  qed simp
qed

text \<open>
  What faulting in pages with the offsets \<open>K\<close> does: the object keeps its pages and gains some at these
  offsets, and no other object changes.
\<close>

definition grown :: "u64 set \<Rightarrow> map_entry \<Rightarrow> map_entry \<Rightarrow> bool" where
  "grown K en en' \<longleftrightarrow> same_object en en' \<and> owned (me_pages en) \<subseteq> owned (me_pages en')
     \<and> fst ` (owned (me_pages en') - owned (me_pages en)) \<subseteq> K"

definition faulted :: "bool \<Rightarrow> nat \<Rightarrow> u64 \<Rightarrow> nat \<Rightarrow> u64 set \<Rightarrow> vm_state \<Rightarrow> vm_state \<Rightarrow> bool" where
  "faulted nx h vbase e K s s' \<longleftrightarrow>
     vs_maps s' = vs_maps s \<and> ready h vbase e s' \<and>
     (\<exists>en en'. vs_ents s e = Some en \<and> vs_ents s' = (vs_ents s)(e \<mapsto> en') \<and> grown K en en'
        \<and> remapped nx h vbase (object_mode en) (owned (me_pages en')) (vs_pt s) (vs_pt s'))"

lemma grown_mode: "grown K en en' \<Longrightarrow> object_mode en' = object_mode en"
  by (simp add: grown_def same_object_def object_mode_def)

lemma grown_refl: "grown K en en"
  by (simp add: grown_def same_object_def)

lemma grown_mono: "grown K en en' \<Longrightarrow> K \<subseteq> L \<Longrightarrow> grown L en en'"
  unfolding grown_def by blast

lemma grown_trans:
  assumes "grown K en en'" "grown K en' en''"
  shows "grown K en en''"
proof -
  have "fst ` (owned (me_pages en'') - owned (me_pages en)) \<subseteq> K"
  proof (rule image_subsetI)
    fix x
    assume "x \<in> owned (me_pages en'') - owned (me_pages en)"
    then consider "x \<in> owned (me_pages en'') - owned (me_pages en')" | "x \<in> owned (me_pages en') - owned (me_pages en)"
      by blast
    then show "fst x \<in> K"
      using assms unfolding grown_def by cases blast+
  qed
  moreover have "owned (me_pages en) \<subseteq> owned (me_pages en'')"
    using assms unfolding grown_def by (blast intro: order_trans)
  ultimately show ?thesis
    using assms unfolding grown_def same_object_def by simp
qed

lemma faulted_refl:
  assumes "ready h vbase e s"
  shows "faulted nx h vbase e K s s"
proof -
  obtain en where "vs_ents s e = Some en"
    using assms by (auto simp: ready_def)
  then have "vs_ents s e = Some en \<and> vs_ents s = (vs_ents s)(e \<mapsto> en) \<and> grown K en en
     \<and> remapped nx h vbase (object_mode en) (owned (me_pages en)) (vs_pt s) (vs_pt s)"
    by (simp add: grown_refl remapped_refl fun_upd_idem)
  then show ?thesis
    using assms unfolding faulted_def by blast
qed

lemma faulted_mono: "faulted nx h vbase e K s s' \<Longrightarrow> K \<subseteq> L \<Longrightarrow> faulted nx h vbase e L s s'"
  unfolding faulted_def using grown_mono by blast

lemma faulted_trans:
  assumes "faulted nx h vbase e K s s'" "faulted nx h vbase e K s' s''"
  shows "faulted nx h vbase e K s s''"
proof -
  obtain en en' where a: "vs_maps s' = vs_maps s" "vs_ents s e = Some en" "vs_ents s' = (vs_ents s)(e \<mapsto> en')" "grown K en en'"
      "remapped nx h vbase (object_mode en) (owned (me_pages en')) (vs_pt s) (vs_pt s')"
    using assms(1) unfolding faulted_def by blast
  obtain en'' where b: "vs_maps s'' = vs_maps s'" "ready h vbase e s''" "vs_ents s'' = (vs_ents s')(e \<mapsto> en'')" "grown K en' en''"
      "remapped nx h vbase (object_mode en') (owned (me_pages en'')) (vs_pt s') (vs_pt s'')"
    using assms(2) a(3) unfolding faulted_def by auto
  have "remapped nx h vbase (object_mode en) (owned (me_pages en'')) (vs_pt s) (vs_pt s'')"
    using remapped_trans [OF a(5) b(5) [unfolded grown_mode [OF a(4)]]] b(4) unfolding grown_def by simp
  moreover have "vs_ents s'' = (vs_ents s)(e \<mapsto> en'')"
    using a(3) b(3) by simp
  ultimately show ?thesis
    unfolding faulted_def using a(1,2) b(1,2) grown_trans [OF a(4) b(4)] by (intro conjI exI [of _ en] exI [of _ en'']) simp_all
qed

text \<open>The panics of a machine without free memory.\<close>

definition oom :: "fault \<Rightarrow> bool" where
  "oom f \<longleftrightarrow> f = Panic ''failed to allocage physical page'' \<or> f = Panic ''failed to map page''"

text \<open>The page at the offset \<open>k\<close> of the object is mapped to the frame the object has there.\<close>

definition maps_page :: "bool \<Rightarrow> nat \<Rightarrow> u64 \<Rightarrow> nat \<Rightarrow> u64 \<Rightarrow> vm_state \<Rightarrow> bool" where
  "maps_page nx h vbase e k s \<longleftrightarrow> (\<exists>en p. vs_ents s e = Some en \<and> (k, p) \<in> owned (me_pages en) \<and>
     (\<forall>v. user_addr v \<longrightarrow> drop_bit 12 v = drop_bit 12 (vbase + k * 4096) \<longrightarrow>
        getMapping nx h v (vs_pt s) = Inr (resolved nx (object_mode en) p v)))"

lemma same_tables_faulted:
  assumes "ready h vbase e s" "ready h vbase e s'" "vs_maps s' = vs_maps s" "vs_ents s' = vs_ents s"
    "\<And>v. user_addr v \<Longrightarrow> getMapping nx h v (vs_pt s') = getMapping nx h v (vs_pt s)"
  shows "faulted nx h vbase e K s s'"
proof -
  obtain en where en: "vs_ents s e = Some en"
    using assms(1) by (auto simp: ready_def)
  then have "vs_ents s' = (vs_ents s)(e \<mapsto> en)"
    using assms(4) by (simp add: fun_upd_idem)
  moreover have "remapped nx h vbase (object_mode en) (owned (me_pages en)) (vs_pt s) (vs_pt s')"
    using assms(5) by (simp add: remapped_def)
  ultimately show ?thesis
    unfolding faulted_def using en assms(2,3) grown_refl by blast
qed

lemma alloc_step:
  assumes "ready h vbase e s"
  shows "\<exists>page s'. vm_alloc s = Inr (page, s') \<and> vs_ents s' = vs_ents s \<and> faulted nx h vbase e K s s'"
proof -
  obtain hn where h: "pt_handlers (vs_pt s) h = Some hn" "pt_inv (vs_pt s) (pml4Phys hn)"
    using assms by (auto simp: ready_def)
  obtain page pt where pt: "vm_alloc s = Inr (page, s\<lparr>vs_pt := pt\<rparr>)" "pt_same (pml4Phys hn) (vs_pt s) pt"
    using vm_alloc_ok [OF h(2)] by blast
  then have inv: "pt_inv pt (pml4Phys hn)" "pt_handlers pt h = Some hn"
    using h(1) by (simp_all add: pt_same_def)
  have "getMapping nx h v pt = getMapping nx h v (vs_pt s)" if "user_addr v" for v
    using getMapping_user [OF inv that] getMapping_user [OF h(2,1) that] pt(2) that by (simp add: pt_same_def)
  moreover have "ready h vbase e (s\<lparr>vs_pt := pt\<rparr>)"
    using assms inv by (simp add: ready_def)
  ultimately show ?thesis
    using pt(1) same_tables_faulted [OF assms, of "s\<lparr>vs_pt := pt\<rparr>"] by auto
qed

lemma count_step:
  assumes "ready h vbase e s"
  shows "\<exists>s'. count_pages f s = Inr s' \<and> vs_ents s' = vs_ents s \<and> faulted nx h vbase e K s s'"
proof (cases "vs_cur s")
  case None
  then show ?thesis
    using faulted_refl [OF assms] by (simp add: count_pages_def)
next
  case (Some t)
  then obtain tk where tk: "vs_tasks s t = Some tk"
    using assms by (auto simp: ready_def)
  let ?s = "s\<lparr>vs_tasks := (vs_tasks s)(t \<mapsto> tk\<lparr>vt_pages := f (vt_pages tk)\<rparr>)\<rparr>"
  have "ready h vbase e ?s"
    using assms by (simp add: ready_def)
  then show ?thesis
    using Some tk same_tables_faulted [OF assms, of ?s] by (intro exI [of _ ?s]) (simp add: count_pages_def)
qed

lemma put_ready:
  assumes "ready h vbase e s" "vs_ents s e = Some en" "rbt_rep (me_pages en') t" "me_length en' = me_length en"
  shows "ready h vbase e (put_ent e en' s)"
  using assms by (auto simp: ready_def put_ent_def)

lemma put_faulted:
  assumes "ready h vbase e s" "vs_ents s e = Some en" "rbt_rep (me_pages en') t" "grown K en en'"
  shows "faulted nx h vbase e K s (put_ent e en' s)"
proof -
  have "ready h vbase e (put_ent e en' s)"
    using assms(4) by (intro put_ready [OF assms(1-3)]) (simp add: grown_def same_object_def)
  moreover have "vs_ents (put_ent e en' s) = (vs_ents s)(e \<mapsto> en')" "vs_maps (put_ent e en' s) = vs_maps s"
      "vs_pt (put_ent e en' s) = vs_pt s"
    by (simp_all add: put_ent_def)
  ultimately show ?thesis
    unfolding faulted_def using assms(2,4) remapped_refl by metis
qed

lemma insert_step:
  assumes "ready h vbase e s" "vs_ents s e = Some en" "k \<notin> fst ` owned (me_pages en)" "\<And>A. finite A \<Longrightarrow> new A \<notin> A"
  shows "\<exists>pages. insert_page new k page (me_pages en) = Some (Inr pages) \<and> owned pages = insert (k, page) (owned (me_pages en))
    \<and> faulted nx h vbase e {k} s (put_ent e (en\<lparr>me_pages := pages\<rparr>) s)"
proof -
  obtain t where "rbt_rep (me_pages en) t"
    using assms(1,2) by (auto simp: ready_def)
  from insert_page_ok [OF this assms(3,4)]
  obtain b' t' where b': "insert_page new k page (me_pages en) = Some (Inr b')" "rbt_rep b' t'" "owned b' = insert (k, page) (owned (me_pages en))"
    by blast
  have "grown {k} en (en\<lparr>me_pages := b'\<rparr>)"
    unfolding grown_def same_object_def using b'(3) by auto
  then have "faulted nx h vbase e {k} s (put_ent e (en\<lparr>me_pages := b'\<rparr>) s)"
    using put_faulted [OF assms(1,2), of "en\<lparr>me_pages := b'\<rparr>" t'] b'(2) by simp
  then show ?thesis
    using b' by blast
qed

lemma map_step:
  assumes "ready h vbase e s" "vs_ents s e = Some en" "(k, p) \<in> owned (me_pages en)" "user_addr (vbase + k * 4096)"
  shows "\<exists>r. map_page_at nx h p (vbase + k * 4096) (object_mode en) s = Some r \<and>
    (case r of Inl f \<Rightarrow> oom f | Inr s' \<Rightarrow> faulted nx h vbase e K s s' \<and> maps_page nx h vbase e k s')"
proof -
  obtain hn where h: "pt_handlers (vs_pt s) h = Some hn" "pt_inv (vs_pt s) (pml4Phys hn)"
    using assms(1) by (auto simp: ready_def)
  consider "map_page_at nx h p (vbase + k * 4096) (object_mode en) s = Some (Inl (Panic ''failed to map page''))"
    | pt where "map_page_at nx h p (vbase + k * 4096) (object_mode en) s = Some (Inr (s\<lparr>vs_pt := pt\<rparr>))" "pt_inv pt (pml4Phys hn)"
      "pt_handlers pt = pt_handlers (vs_pt s)"
      "\<forall>v'. user_addr v' \<longrightarrow> getMapping nx h v' pt = (if drop_bit 12 v' = drop_bit 12 (vbase + k * 4096)
         then Inr (resolved nx (object_mode en) p v') else getMapping nx h v' (vs_pt s))"
    using map_page_at_ok [OF h(2,1) assms(4)] by blast
  then show ?thesis
  proof cases
    case 1
    then show ?thesis
      by (simp add: oom_def)
  next
    case 2
    have "ready h vbase e (s\<lparr>vs_pt := pt\<rparr>)"
      using assms(1) 2(2,3) h(1) by (simp add: ready_def)
    moreover have "remapped nx h vbase (object_mode en) (owned (me_pages en)) (vs_pt s) pt"
      unfolding remapped_def using 2(4) assms(3) by auto
    moreover have "vs_ents s = (vs_ents s)(e \<mapsto> en)"
      using assms(2) by (simp add: fun_upd_idem)
    ultimately have "faulted nx h vbase e K s (s\<lparr>vs_pt := pt\<rparr>)"
      unfolding faulted_def using assms(2) grown_refl by (intro conjI exI [of _ en]) simp_all
    moreover have "maps_page nx h vbase e k (s\<lparr>vs_pt := pt\<rparr>)"
      unfolding maps_page_def using assms(2,3) 2(4) by auto
    ultimately show ?thesis
      using 2(1) by simp
  qed
qed

text \<open>Addresses of the pages of an object that lies below the kernel's half.\<close>

lemma page_addr_user:
  assumes "unat vbase + unat lng \<le> 2 ^ 47" "offset < lng"
  shows "user_addr (vbase + (offset div 4096) * 4096)"
proof -
  have o: "unat ((offset div 4096) * 4096) = unat offset div 4096 * 4096"
  proof -
    have "unat offset < 2 ^ 64"
      using unsigned_less [of offset] by simp
    then have "unat offset div 4096 * 4096 < 2 ^ 64"
      using le_less_trans [OF div_times_less_eq_dividend] by blast
    then show ?thesis
      by (simp add: unat_word_ariths(2) unat_div)
  qed
  have "unat offset div 4096 * 4096 < unat lng"
    using assms(2) by (simp add: word_less_nat_alt le_less_trans [OF div_times_less_eq_dividend])
  then have "unat (vbase + (offset div 4096) * 4096) < 2 ^ 47"
    using assms(1) o by (simp add: unat_word_ariths(1))
  then show ?thesis
    by (simp add: user_addr_def word_le_nat_alt)
qed

lemma faulted_ready: "faulted nx h vbase e K s s' \<Longrightarrow> ready h vbase e s'"
  by (simp add: faulted_def)

lemma faulted_entry:
  assumes "faulted nx h vbase e K s s'" "vs_ents s e = Some en"
  shows "\<exists>en'. vs_ents s' e = Some en' \<and> grown K en en'"
  using assms by (auto simp: faulted_def)

lemma faultInPage_with_ok:
  assumes ready: "ready h vbase e s" and m: "vs_maps s m = Some mp" "vm_table mp = h"
    and en: "vs_ents s e = Some en" and off: "offset < me_length en"
    and new: "\<And>A. finite A \<Longrightarrow> new A \<notin> A"
    and K: "offset div 4096 \<notin> K"
    and detect: "\<And>s1. faulted nx h vbase e {} s s1 \<Longrightarrow> \<exists>r. detect s1 = Some r \<and>
        (case r of Inl f \<Rightarrow> oom f | Inr s2 \<Rightarrow> faulted nx h vbase e K s1 s2)"
  shows "\<exists>r. faultInPage_with detect new nx m vbase offset e s = Some r \<and>
    (case r of Inl f \<Rightarrow> oom f
     | Inr s' \<Rightarrow> faulted nx h vbase e (insert (offset div 4096) K) s s' \<and> maps_page nx h vbase e (offset div 4096) s')"
proof -
  let ?k = "offset div 4096" and ?K = "insert (offset div 4096) K"
  obtain t where t: "rbt_rep (me_pages en) t" "unat vbase + unat (me_length en) \<le> 2 ^ 47"
    using ready en by (auto simp: ready_def)
  have user: "user_addr (vbase + ?k * 4096)"
    using page_addr_user [OF t(2) off] .
  obtain q where q: "findKey ?k (me_pages en) = Some (Inr q)"
      "case q of None \<Rightarrow> ?k \<notin> fst ` owned (me_pages en)
       | Some a \<Rightarrow> \<exists>n. nodes (me_pages en) a = Some n \<and> (?k, lf_val n) \<in> owned (me_pages en)"
    using find_page [OF t(1)] by blast
  note run = faultInPage_with_def with_map_def with_ent_def m en Let_def arch_page_size_def object_mode_def [symmetric] q(1)
  show ?thesis
  proof (cases q)
    case (Some a)
    then obtain n where n: "nodes (me_pages en) a = Some n" "(?k, lf_val n) \<in> owned (me_pages en)"
      using q(2) by auto
    then show ?thesis
      using map_step [OF ready en n(2) user, of nx ?K] Some by (simp add: run deref_def)
  next
    case None
    obtain page s1 where s1: "vm_alloc s = Inr (page, s1)" "vs_ents s1 = vs_ents s" "faulted nx h vbase e {} s s1"
      using alloc_step [OF ready] by blast
    obtain s2 where s2: "count_pages (\<lambda>n. n + 1) s1 = Inr s2" "vs_ents s2 = vs_ents s1" "faulted nx h vbase e {} s1 s2"
      using count_step [OF faulted_ready [OF s1(3)]] by blast
    have f2: "faulted nx h vbase e {} s s2"
      using faulted_trans [OF s1(3) s2(3)] .
    obtain r where r: "detect s2 = Some r" "case r of Inl f \<Rightarrow> oom f | Inr s3 \<Rightarrow> faulted nx h vbase e K s2 s3"
      using detect [OF f2] by blast
    show ?thesis
    proof (cases "page = 0 \<or> (\<exists>f. r = Inl f)")
      case True
      then show ?thesis
        using None s1(1) s2(1) r by (auto simp: run oom_def)
    next
      case False
      then obtain s3 where s3: "r = Inr s3" "faulted nx h vbase e K s2 s3" "page \<noteq> 0"
        using r(2) by (cases r) auto
      obtain en3 where en3: "vs_ents s3 e = Some en3" "grown K en en3"
        using faulted_entry [OF s3(2)] s2(2) s1(2) en by auto
      have "?k \<notin> fst ` owned (me_pages en3)"
        using en3(2) q(2) None K unfolding grown_def by auto
      from insert_step [OF faulted_ready [OF s3(2)] en3(1) this new]
      obtain b where b: "insert_page new ?k page (me_pages en3) = Some (Inr b)" "owned b = insert (?k, page) (owned (me_pages en3))"
          "faulted nx h vbase e {?k} s3 (put_ent e (en3\<lparr>me_pages := b\<rparr>) s3)"
        by blast
      let ?s4 = "put_ent e (en3\<lparr>me_pages := b\<rparr>) s3" and ?en4 = "en3\<lparr>me_pages := b\<rparr>"
      have f4: "faulted nx h vbase e ?K s ?s4"
        using faulted_trans [OF faulted_trans [OF faulted_mono [OF f2] faulted_mono [OF s3(2)]] faulted_mono [OF b(3)], of ?K] by blast
      have e4: "vs_ents ?s4 e = Some ?en4" "(?k, page) \<in> owned (me_pages ?en4)" "object_mode ?en4 = object_mode en"
        using b(2) grown_mode [OF en3(2)] by (simp_all add: put_ent_def object_mode_def)
      obtain r' where r': "map_page_at nx h page (vbase + ?k * 4096) (object_mode en) ?s4 = Some r'"
          "case r' of Inl f \<Rightarrow> oom f | Inr s' \<Rightarrow> faulted nx h vbase e ?K ?s4 s' \<and> maps_page nx h vbase e ?k s'"
        using map_step [OF faulted_ready [OF f4] e4(1,2) user, of nx ?K] unfolding e4(3) by blast
      have "faultInPage_with detect new nx m vbase offset e s = Some r'"
        using None s1(1) s2(1) r(1) s3(1,3) en3(1) b(1) r'(1) by (simp add: run)
      then show ?thesis
        using r'(2) faulted_trans [OF f4] by (cases r') auto
    qed
  qed
qed

text \<open>The offsets of the pages of an object after the page \<open>n\<close>.\<close>

definition later_pages :: "u64 \<Rightarrow> u64 \<Rightarrow> u64 set" where
  "later_pages n lng = {k. n < k \<and> unat k * 4096 < unat lng}"

lemma later_page:
  assumes "unat lng \<le> 2 ^ 47" "offset < lng" "i < 64" "offset + (of_nat i + 1) * 4096 < lng"
  shows "(offset + (of_nat i + 1) * 4096) div 4096 \<in> later_pages (offset div 4096) lng"
proof -
  have o: "unat offset < 2 ^ 47"
    using assms(1,2) by (simp add: word_less_nat_alt)
  have i: "unat ((of_nat i + 1 :: u64) * 4096) = (i + 1) * 4096"
    using assms(3) by (simp add: unat_word_ariths unat_of_nat)
  then have n: "unat (offset + (of_nat i + 1) * 4096) = unat offset + (i + 1) * 4096"
    using o assms(3) by (simp add: unat_word_ariths(1))
  have "unat ((offset + (of_nat i + 1) * 4096) div 4096) = unat offset div 4096 + (i + 1)"
    using n by (simp add: unat_div)
  moreover have "(unat offset div 4096 + (i + 1)) * 4096 \<le> unat offset + (i + 1) * 4096"
    by (simp add: distrib_right)
  moreover have "unat offset + (i + 1) * 4096 < unat lng"
    using assms(4) n by (simp add: word_less_nat_alt)
  ultimately show ?thesis
    by (simp add: later_pages_def word_less_nat_alt unat_div)
qed

lemma prefault_ok:
  assumes tab: "vm_table mp = h" and new: "\<And>A. finite A \<Longrightarrow> new A \<notin> A"
  shows "ready h vbase e s \<Longrightarrow> vs_maps s m = Some mp \<Longrightarrow> vs_ents s e = Some en \<Longrightarrow> me_length en = lng \<Longrightarrow> offset < lng
    \<Longrightarrow> \<forall>i \<in> set is. i < 64 \<Longrightarrow>
    \<exists>r. prefault new nx m vbase offset e n is s = Some r \<and>
      (case r of Inl f \<Rightarrow> oom f | Inr (i, s') \<Rightarrow> faulted nx h vbase e (later_pages (offset div 4096) lng) s s')"
proof (induction "is" arbitrary: s en)
  case Nil
  then show ?case
    using faulted_refl by simp
next
  case (Cons i "is")
  let ?off = "offset + (of_nat i + 1) * 4096" and ?K = "later_pages (offset div 4096) lng"
  have lng: "unat lng \<le> 2 ^ 47"
    using Cons.prems(1,3,4) by (auto simp: ready_def)
  show ?case
  proof (cases "?off < lng")
    case False
    then show ?thesis
      using Cons.prems faulted_refl [OF Cons.prems(1)] by (simp add: with_ent_def Let_def arch_page_size_def not_less)
  next
    case True
    have k: "?off div 4096 \<in> ?K"
      using later_page [OF lng Cons.prems(5) _ True] Cons.prems(6) by simp
    have id: "\<exists>r. Some (Inr s1) = Some r \<and> (case r of Inl f \<Rightarrow> oom f | Inr s2 \<Rightarrow> faulted nx h vbase e {} s1 s2)"
      if "faulted nx h vbase e {} s s1" for s1
      using faulted_refl [OF faulted_ready [OF that]] by simp
    have off: "?off < me_length en"
      using True Cons.prems(4) by simp
    obtain r where r: "faultInPage_with (\<lambda>s. Some (Inr s)) new nx m vbase ?off e s = Some r"
        "case r of Inl f \<Rightarrow> oom f | Inr s' \<Rightarrow> faulted nx h vbase e {?off div 4096} s s' \<and> maps_page nx h vbase e (?off div 4096) s'"
      using faultInPage_with_ok [OF Cons.prems(1,2) tab Cons.prems(3) off new _ id] by auto
    have run: "prefault new nx m vbase offset e n (i # is) s = dbind (Some r) (prefault new nx m vbase offset e n is)"
      using Cons.prems(3,4) True [folded not_le] r(1) by (simp add: with_ent_def Let_def arch_page_size_def)
    show ?thesis
    proof (cases r)
      case (Inl f)
      then show ?thesis
        using run r(2) by simp
    next
      case (Inr s')
      then have f: "faulted nx h vbase e ?K s s'"
        using r(2) k faulted_mono by auto
      obtain en' where en': "vs_ents s' e = Some en'" "grown ?K en en'"
        using faulted_entry [OF f Cons.prems(3)] by blast
      have len': "me_length en' = lng"
        using en'(2) Cons.prems(4) by (simp add: grown_def same_object_def)
      have maps': "vs_maps s' m = Some mp"
        using f Cons.prems(2) by (simp add: faulted_def)
      obtain r' where r': "prefault new nx m vbase offset e n is s' = Some r'"
          "case r' of Inl f \<Rightarrow> oom f | Inr (i, s'') \<Rightarrow> faulted nx h vbase e ?K s' s''"
        using Cons.IH [OF faulted_ready [OF f] maps' en'(1) len' Cons.prems(5)] Cons.prems(6) by auto
      then show ?thesis
        using run Inr faulted_trans [OF f] by (cases r') auto
    qed
  qed
qed

lemma detect_ok:
  assumes ready: "ready h vbase e s" and m: "vs_maps s m = Some mp" "vm_table mp = h"
    and en: "vs_ents s e = Some en" and off: "offset < me_length en"
    and new: "\<And>A. finite A \<Longrightarrow> new A \<notin> A"
  shows "\<exists>r. detectFaultSequence new nx m vbase offset k e s = Some r \<and>
    (case r of Inl f \<Rightarrow> oom f | Inr s' \<Rightarrow> faulted nx h vbase e (later_pages (offset div 4096) (me_length en)) s s')"
proof -
  let ?K = "later_pages (offset div 4096) (me_length en)"
  have put: "faulted nx h vbase e ?K s' (put_ent e en'' s')"
    if a: "ready h vbase e s'" "vs_ents s' e = Some en'" "me_pages en'' = me_pages en'" "same_object en' en''" for s' en' en''
  proof -
    obtain t where "rbt_rep (me_pages en'') t"
      using a(1-3) by (auto simp: ready_def)
    then show ?thesis
      using put_faulted [OF a(1,2)] a(3,4) by (simp add: grown_def)
  qed
  have here: "faulted nx h vbase e ?K s (put_ent e en'' s)" if "me_pages en'' = me_pages en" "same_object en en''" for en''
    using put [OF ready en that] .
  let ?en = "en\<lparr>me_lastOffset := k, me_numSeq := me_numSeq en + 1\<rparr>"
  define nf where "nf = (if me_numSeq ?en < kMaxSequentialPrefault then me_numSeq ?en else kMaxSequentialPrefault)"
  have nf: "\<forall>i \<in> set [0..<unat nf]. i < 64"
    by (auto simp: nf_def kMaxSequentialPrefault_def word_less_nat_alt)
  have f1: "faulted nx h vbase e ?K s (put_ent e ?en s)"
    by (intro here) (simp_all add: same_object_def)
  have s1: "vs_maps (put_ent e ?en s) m = Some mp" "vs_ents (put_ent e ?en s) e = Some ?en" "me_length ?en = me_length en"
    using m(1) by (simp_all add: put_ent_def)
  obtain r where r: "prefault new nx m vbase offset e (unat nf) [0..<unat nf] (put_ent e ?en s) = Some r"
      "case r of Inl f \<Rightarrow> oom f | Inr (i, s') \<Rightarrow> faulted nx h vbase e ?K (put_ent e ?en s) s'"
    using prefault_ok [OF m(2) new faulted_ready [OF f1] s1 off nf] by blast
  have tail: "\<exists>r'. dbind (Some r) (\<lambda>(i, s). with_ent e s (\<lambda>en.
        if i = unat nf then Some (Inr (put_ent e (en\<lparr>me_lastOffset := me_lastOffset en + nf\<rparr>) s))
        else Some (Inr (put_ent e (en\<lparr>me_numSeq := 0, me_seq := Idle\<rparr>) s)))) = Some r'
      \<and> (case r' of Inl f \<Rightarrow> oom f | Inr s' \<Rightarrow> faulted nx h vbase e ?K s s')"
  proof (cases r)
    case (Inl f)
    then show ?thesis
      using r(2) by simp
  next
    case (Inr p)
    obtain i s' where p: "p = (i, s')"
      by (cases p) blast
    have f2: "faulted nx h vbase e ?K s s'"
      using r(2) Inr p faulted_trans [OF f1] by simp
    obtain en' where en': "vs_ents s' e = Some en'"
      using faulted_entry [OF f2 en] by blast
    have "faulted nx h vbase e ?K s (put_ent e en'' s')" if "me_pages en'' = me_pages en'" "same_object en' en''" for en''
      using faulted_trans [OF f2 put [OF faulted_ready [OF f2] en' that]] .
    then show ?thesis
      using Inr p en' by (auto simp: with_ent_def same_object_def)
  qed
  have we: "with_ent e s c = c en" for c :: "map_entry \<Rightarrow> vm_state outcome option"
    using en by (simp add: with_ent_def)
  show ?thesis
  proof (cases "me_seq en = Detect2 \<and> \<not> k \<le> me_lastOffset en \<and> k - me_lastOffset en = me_lastStride en")
    case True
    then have "detectFaultSequence new nx m vbase offset k e s = dbind (Some r) (\<lambda>(i, s). with_ent e s (\<lambda>en.
        if i = unat nf then Some (Inr (put_ent e (en\<lparr>me_lastOffset := me_lastOffset en + nf\<rparr>) s))
        else Some (Inr (put_ent e (en\<lparr>me_numSeq := 0, me_seq := Idle\<rparr>) s))))"
      unfolding detectFaultSequence_def we Let_def nf_def [symmetric] r(1) by simp
    then show ?thesis
      using tail by simp
  next
    case False
    then show ?thesis
      using here unfolding detectFaultSequence_def we by (cases "me_seq en") (auto simp: same_object_def)
  qed
qed

text \<open>An address in an object that starts on a page boundary and the page it lies in.\<close>

lemma same_page_offset:
  assumes "unat vbase mod 4096 = 0" "unat vbase + unat off < 2 ^ 47"
  shows "user_addr (vbase + off)" "drop_bit 12 (vbase + off) = drop_bit 12 (vbase + (off div 4096) * 4096)"
proof -
  have o: "unat ((off div 4096) * 4096) = unat off div 4096 * 4096"
    using assms(2) by (simp add: unat_word_ariths(2) unat_div le_less_trans [OF div_times_less_eq_dividend])
  have le: "unat off div 4096 * 4096 \<le> unat off"
    by simp
  have a: "unat (vbase + off) = unat vbase + unat off"
    "unat (vbase + (off div 4096) * 4096) = unat vbase + unat off div 4096 * 4096"
    using assms(2) le o by (simp_all add: unat_word_ariths(1))
  show "user_addr (vbase + off)"
    using a(1) assms(2) by (simp add: user_addr_def word_le_nat_alt)
  obtain q where q: "unat vbase = 4096 * q"
    using assms(1) by blast
  have "unat (vbase + off) div 4096 = unat (vbase + (off div 4096) * 4096) div 4096"
    unfolding a q by simp
  then show "drop_bit 12 (vbase + off) = drop_bit 12 (vbase + (off div 4096) * 4096)"
    by (simp add: drop_bit_eq_div word_unat_eq_iff unat_div)
qed

lemma entry_fault_ok:
  assumes ready: "ready h vbase e s" and m: "vs_maps s m = Some mp" "vm_table mp = h"
    and en: "vs_ents s e = Some en" "me_anon en" and off: "offset < me_length en"
    and new: "\<And>A. finite A \<Longrightarrow> new A \<notin> A"
  shows "\<exists>r. entry_handlePagefault new nx m vbase offset False e s = Some r \<and>
    (case r of Inl f \<Rightarrow> oom f
     | Inr (handled, s') \<Rightarrow> handled \<and> maps_page nx h vbase e (offset div 4096) s'
         \<and> faulted nx h vbase e (insert (offset div 4096) (later_pages (offset div 4096) (me_length en))) s s')"
proof -
  let ?k = "offset div 4096" and ?K = "later_pages (offset div 4096) (me_length en)"
  let ?det = "detectFaultSequence new nx m vbase offset ?k e"
  have K: "?k \<notin> ?K"
    by (simp add: later_pages_def)
  have det: "\<exists>r. ?det s1 = Some r \<and> (case r of Inl f \<Rightarrow> oom f | Inr s2 \<Rightarrow> faulted nx h vbase e ?K s1 s2)"
    if f: "faulted nx h vbase e {} s s1" for s1
  proof -
    obtain en1 where en1: "vs_ents s1 e = Some en1" "grown {} en en1"
      using faulted_entry [OF f en(1)] by blast
    have len: "me_length en1 = me_length en"
      using en1(2) by (simp add: grown_def same_object_def)
    have "vs_maps s1 m = Some mp"
      using f m(1) by (simp add: faulted_def)
    from detect_ok [OF faulted_ready [OF f] this m(2) en1(1) _ new, of offset nx ?k]
    show ?thesis
      using off unfolding len by simp
  qed
  obtain r where r: "faultInPage_with ?det new nx m vbase offset e s = Some r"
    "case r of Inl f \<Rightarrow> oom f | Inr s' \<Rightarrow> faulted nx h vbase e (insert ?k ?K) s s' \<and> maps_page nx h vbase e ?k s'"
    using faultInPage_with_ok [OF ready m en(1) off new K det] by blast
  have "entry_handlePagefault new nx m vbase offset False e s = dbind (Some r) (\<lambda>s. Some (Inr (True, s)))"
    using en off [folded not_le] r(1) by (simp add: entry_handlePagefault_def with_ent_def faultInPage_def arch_page_size_def)
  then show ?thesis
    using r(2) by (cases r) auto
qed

section \<open>Properties\<close>

lemma two_maps_bounded: "bounded two_maps \<langle>\<langle>\<rangle>, 7, \<langle>\<langle>\<rangle>, 8, \<langle>\<rangle>\<rangle>\<rangle>"
  unfolding bounded_def two_maps_contents by simp

text \<open>A heap that hands out the address after all others.\<close>

definition bump :: "addr set \<Rightarrow> addr" where
  "bump A = Suc (Max (insert 0 A))"

lemma bump_fresh: "finite A \<Longrightarrow> bump A \<notin> A"
proof
  assume "finite A" "bump A \<in> A"
  then have "bump A \<le> Max (insert 0 A)"
    by simp
  then show False
    by (simp add: bump_def)
qed

text \<open>
  C4: Choosing the place of an object in an address space of disjoint mappings ends, for every search
  range and every size that fits before its end, and keeps the mappings disjoint: the object gets
  the requested base if that range meets no mapping, otherwise it is refused; without a requested
  base it gets the lowest base of the range at which it fits, and it is refused only if there is
  none.
\<close>

theorem map_add_first_fit:
  assumes "map_ok b t" "bounded b t" "new (dom (nodes b)) \<notin> dom (nodes b)"
    and "0 < sz" "sz \<le> searchEnd" and "requested \<noteq> 0 \<Longrightarrow> fits requested sz"
  shows "\<exists>r b' t'. vm_place new entry requested sz start searchEnd b = Some (Inr (r, b')) \<and> map_ok b' t' \<and>
    (case r of
       None \<Rightarrow> b' = b \<and> (if requested \<noteq> 0 then \<not> vacant b t sz requested
                        else \<forall>a. start \<le> a \<longrightarrow> a < searchEnd - sz \<longrightarrow> \<not> vacant b t sz a)
     | Some a \<Rightarrow> set (contents (nodes b') t') = insert (a, \<lparr>mt_size = sz, mt_flags = 0, mt_entry = entry\<rparr>) (set (contents (nodes b) t))
         \<and> vacant b t sz a
         \<and> (if requested \<noteq> 0 then a = requested
            else start \<le> a \<and> a < searchEnd - sz \<and> (\<forall>a'. start \<le> a' \<longrightarrow> a' < a \<longrightarrow> \<not> vacant b t sz a')))"
  by (rule vm_place_ok [of b t new sz searchEnd requested]) (use assms in auto)

lemma two_maps_vacant: "0x1000 \<le> a \<Longrightarrow> a \<le> 0x3000 \<Longrightarrow> vacant two_maps \<langle>\<langle>\<rangle>, 7, \<langle>\<langle>\<rangle>, 8, \<langle>\<rangle>\<rangle>\<rangle> 0x2000 a = (a = 0x3000)"
  unfolding vacant_def two_maps_contents
  by (auto simp: entry_range_def addr_range_def word_le_nat_alt word_unat_eq_iff disjoint_iff not_less intro: exI [of _ "unat a"])

theorem map_add_first_fit_witness:
  "\<exists>b' t'. vm_place bump (Some 3) 0 0x2000 0x1000 0x10000 two_maps = Some (Inr (Some 0x3000, b')) \<and> map_ok b' t'"
proof -
  have fresh: "bump (dom (nodes two_maps)) \<notin> dom (nodes two_maps)"
    by (rule bump_fresh) (simp add: two_maps_def)
  let ?v = "vacant two_maps \<langle>\<langle>\<rangle>, 7, \<langle>\<langle>\<rangle>, 8, \<langle>\<rangle>\<rangle>\<rangle> 0x2000"
  obtain r b' t' where r: "vm_place bump (Some 3) 0 0x2000 0x1000 0x10000 two_maps = Some (Inr (r, b'))" "map_ok b' t'"
      "case r of None \<Rightarrow> \<forall>a. 0x1000 \<le> a \<longrightarrow> a < 0x10000 - 0x2000 \<longrightarrow> \<not> ?v a
       | Some a \<Rightarrow> ?v a \<and> 0x1000 \<le> a \<and> (\<forall>a'. 0x1000 \<le> a' \<longrightarrow> a' < a \<longrightarrow> \<not> ?v a')"
    using map_add_first_fit [of two_maps "\<langle>\<langle>\<rangle>, 7, \<langle>\<langle>\<rangle>, 8, \<langle>\<rangle>\<rangle>\<rangle>" bump "0x2000" "0x10000" 0 "Some 3" "0x1000", OF two_maps_ok two_maps_bounded fresh]
    by (fastforce split: option.splits)
  have v: "?v 0x3000"
    using two_maps_vacant [of "0x3000"] by simp
  then have "r \<noteq> None"
    using r(3) by (cases r) (auto dest: spec [of _ "0x3000"])
  then obtain a where a: "r = Some a"
    by blast
  then have "?v a" "0x1000 \<le> a" and low: "\<And>a'. 0x1000 \<le> a' \<Longrightarrow> a' < a \<Longrightarrow> \<not> ?v a'"
    using r(3) by simp_all
  moreover have "\<not> 0x3000 < a"
    using low [of "0x3000"] v by auto
  ultimately have "a = 0x3000"
    using two_maps_vacant [of a] by (simp add: not_less)
  then show ?thesis
    using r(1,2) a by blast
qed


text \<open>An address space with an anonymous object of one page at \<open>0x5000\<close>.\<close>

definition fault_state :: vm_state where
  "fault_state = makeAnon 2 0x1000 (mf_Read OR mf_Write) False
     \<lparr>vs_pt = small_pt, vs_maps = [0 \<mapsto> \<lparr>vm_entries = two_maps, vm_table = 0\<rparr>], vs_ents = Map.empty, vs_tasks = Map.empty, vs_cur = None\<rparr>"

lemma empty_pages: "rbt_rep no_nodes \<langle>\<rangle>"
  by (simp add: rbt_rep_def bst_rep_def no_nodes_def key_sorted_def rb_tree_def)

lemma fault_state_ready: "ready 0 0x5000 2 fault_state"
proof -
  have "pt_handlers small_pt 0 = Some small_handler \<and> pt_inv small_pt (pml4Phys small_handler)"
    using small_pt_inv by blast
  then show ?thesis
    using empty_pages unfolding ready_def fault_state_def makeAnon_def put_ent_def new_entry_def by auto
qed


text \<open>The conversion of the flags keeps the permissions, and a mask clears them.\<close>

lemma mode_bits:
  fixes u a w x c :: bool
  defines "mode \<equiv> (let mode = (if u then mm_ACCESS_USER else mm_None); mode = (if a then mode OR mm_READ else mode);
    mode = (if w then mode OR mm_WRITE else mode); mode = (if x then mode OR mm_EXECUTE else mode) in
    if c then mode OR mm_CACHE_DISABLE else mode)"
  shows "has mode mm_WRITE = w" "has mode mm_EXECUTE = x"
  unfolding mode_def Let_def has_def mm_None_def mm_READ_def mm_WRITE_def mm_EXECUTE_def mm_ACCESS_USER_def mm_CACHE_DISABLE_def
  by (cases u; cases a; cases w; cases x; cases c; simp)+

lemma masked_flags_none:
  assumes "msk \<noteq> 0"
  shows "\<not> has (ConvertVmMode (masked_flags flags msk) u) mm_WRITE" "\<not> has (ConvertVmMode (masked_flags flags msk) u) mm_EXECUTE"
proof -
  let ?f = "masked_flags flags msk"
  have z: "?f AND mf_PermissionsMask = 0"
    using assms by (simp add: masked_flags_def mf_None_def Let_def bit_eq_iff bit_simps)
  have "mf_PermissionsMask AND mf_Write = mf_Write" "mf_PermissionsMask AND mf_Execute = mf_Execute"
    by (simp_all add: mf_PermissionsMask_def mf_Read_def mf_Write_def mf_Execute_def)
  then have "?f AND mf_Write = (?f AND mf_PermissionsMask) AND mf_Write" "?f AND mf_Execute = (?f AND mf_PermissionsMask) AND mf_Execute"
    by (simp_all only: and.assoc)
  then have "\<not> has ?f mf_Write" "\<not> has ?f mf_Execute"
    unfolding z has_def by simp_all
  then show "\<not> has (ConvertVmMode ?f u) mm_WRITE" "\<not> has (ConvertVmMode ?f u) mm_EXECUTE"
    unfolding ConvertVmMode_def mode_bits by simp_all
qed



end
