(* ===== verification/Vm_Types.thy ===== *)
theory Vm_Types
  imports Vm_Props
begin

text \<open>
  Well-formedness of the virtual memory state under all its operations: whatever the page tables and
  the physical allocator do, an operation that returns leaves every object with a red-black tree of
  pages and every address space with disjoint mappings in a search tree.
\<close>

lemma dbind_Inr: "dbind r k = Some (Inr y) \<longleftrightarrow> (\<exists>x. r = Some (Inr x) \<and> k x = Some (Inr y))"
  by (auto simp: dbind_def split: Option.bind_splits sum.splits)

lemma with_ent_Inr: "with_ent e s k = Some (Inr y) \<longleftrightarrow> (\<exists>en. vs_ents s e = Some en \<and> k en = Some (Inr y))"
  by (auto simp: with_ent_def split: option.splits)

lemma with_map_Inr: "with_map m s k = Some (Inr y) \<longleftrightarrow> (\<exists>mp. vs_maps s m = Some mp \<and> k mp = Some (Inr y))"
  by (auto simp: with_map_def split: option.splits)

lemmas run_Inr = dbind_Inr with_ent_Inr with_map_Inr

section \<open>Well-formed states\<close>

definition pages_wf :: "map_entry \<Rightarrow> bool" where
  "pages_wf en \<longleftrightarrow> (\<exists>t. rbt_rep (me_pages en) t)"

definition space_wf :: "vm_map \<Rightarrow> bool" where
  "space_wf mp \<longleftrightarrow> (\<exists>t. map_ok (vm_entries mp) t)"

definition vm_wf :: "vm_state \<Rightarrow> bool" where
  "vm_wf s \<longleftrightarrow> (\<forall>e en. vs_ents s e = Some en \<longrightarrow> pages_wf en) \<and> (\<forall>m mp. vs_maps s m = Some mp \<longrightarrow> space_wf mp)"

lemma vm_wf_put_ent: "vm_wf s \<Longrightarrow> pages_wf en \<Longrightarrow> vm_wf (put_ent e en s)"
  by (simp add: vm_wf_def put_ent_def)

lemma vm_wf_put_map: "vm_wf s \<Longrightarrow> space_wf mp \<Longrightarrow> vm_wf (put_map m mp s)"
  by (simp add: vm_wf_def put_map_def)

lemma vm_wf_other [simp]: "vm_wf (s\<lparr>vs_pt := pt\<rparr>) = vm_wf s" "vm_wf (s\<lparr>vs_tasks := ts\<rparr>) = vm_wf s"
  by (simp_all add: vm_wf_def)

lemma pages_wf_same: "me_pages en' = me_pages en \<Longrightarrow> pages_wf en' = pages_wf en"
  by (simp add: pages_wf_def)

lemma no_pages_wf: "me_pages en = no_nodes \<Longrightarrow> pages_wf en"
  using empty_pages by (auto simp: pages_wf_def)

lemma new_space_wf: "space_wf \<lparr>vm_entries = no_nodes, vm_table = h\<rparr>"
proof -
  have "map_ok no_nodes \<langle>\<rangle>"
    by (simp add: map_ok_def bst_rep_def no_nodes_def key_sorted_def)
  then show ?thesis
    by (auto simp: space_wf_def)
qed

section \<open>Growing an object\<close>

text \<open>Pages are only added to one object, at offsets in \<open>K\<close>.\<close>

definition grew :: "nat \<Rightarrow> u64 set \<Rightarrow> vm_state \<Rightarrow> vm_state \<Rightarrow> bool" where
  "grew e K s s' \<longleftrightarrow> vs_maps s' = vs_maps s \<and>
     (\<exists>en en'. vs_ents s e = Some en \<and> vs_ents s' = (vs_ents s)(e \<mapsto> en') \<and> grown K en en' \<and> pages_wf en')"

lemma grew_refl: "vs_ents s e = Some en \<Longrightarrow> pages_wf en \<Longrightarrow> grew e K s s"
  unfolding grew_def using grown_refl by (metis fun_upd_triv)

lemma grew_same:
  "grew e K s s' \<Longrightarrow> vs_maps s'' = vs_maps s' \<Longrightarrow> vs_ents s'' = vs_ents s' \<Longrightarrow> grew e K s s''"
  unfolding grew_def by simp

lemma grew_mono: "grew e K s s' \<Longrightarrow> K \<subseteq> L \<Longrightarrow> grew e L s s'"
  unfolding grew_def using grown_mono by blast

lemma grew_trans:
  assumes "grew e K s s'" "grew e K s' s''"
  shows "grew e K s s''"
proof -
  obtain en en' where a: "vs_maps s' = vs_maps s" "vs_ents s e = Some en" "vs_ents s' = (vs_ents s)(e \<mapsto> en')" "grown K en en'"
    using assms(1) unfolding grew_def by blast
  obtain en'' where b: "vs_maps s'' = vs_maps s'" "vs_ents s'' = (vs_ents s')(e \<mapsto> en'')" "grown K en' en''" "pages_wf en''"
    using assms(2) a(3) unfolding grew_def by auto
  then show ?thesis
    unfolding grew_def using a grown_trans [OF a(4) b(3)] by (intro conjI exI [of _ en] exI [of _ en'']) simp_all
qed

lemma grew_wf: "grew e K s s' \<Longrightarrow> vm_wf s \<Longrightarrow> vm_wf s'"
  unfolding grew_def vm_wf_def by (auto split: if_splits)

lemma grew_entry: "grew e K s s' \<Longrightarrow> vs_ents s e = Some en \<Longrightarrow> \<exists>en'. vs_ents s' e = Some en' \<and> grown K en en' \<and> pages_wf en'"
  unfolding grew_def by auto

lemma grew_put:
  "vs_ents s e = Some en \<Longrightarrow> grown K en en' \<Longrightarrow> pages_wf en' \<Longrightarrow> grew e K s (put_ent e en' s)"
  unfolding grew_def by (auto simp: put_ent_def)

lemma grew_insert:
  assumes "vs_ents s e = Some en" "pages_wf en" "k \<notin> fst ` owned (me_pages en)" "\<And>A. finite A \<Longrightarrow> new A \<notin> A"
    "insert_page new k page (me_pages en) = Some (Inr pages)"
  shows "grew e {k} s (put_ent e (en\<lparr>me_pages := pages\<rparr>) s)"
proof -
  obtain t where "rbt_rep (me_pages en) t"
    using assms(2) by (auto simp: pages_wf_def)
  from insert_page_ok [OF this assms(3,4), of page]
  obtain t' where "rbt_rep pages t'" "owned pages = insert (k, page) (owned (me_pages en))"
    using assms(5) by auto
  then show ?thesis
    using assms(1) by (intro grew_put) (auto simp: grown_def same_object_def pages_wf_def)
qed

section \<open>Page faults\<close>

lemma vm_alloc_same: "vm_alloc s = Inr (page, s') \<Longrightarrow> vs_maps s' = vs_maps s \<and> vs_ents s' = vs_ents s"
  by (auto simp: vm_alloc_def)

lemma count_pages_same: "count_pages f s = Inr s' \<Longrightarrow> vs_maps s' = vs_maps s \<and> vs_ents s' = vs_ents s"
  by (auto simp: count_pages_def split: option.splits)

lemma map_page_at_same: "map_page_at nx h page v mode s = Some (Inr s') \<Longrightarrow> vs_maps s' = vs_maps s \<and> vs_ents s' = vs_ents s"
  by (auto simp: map_page_at_def dbind_Inr)

lemma faultInPage_with_grew:
  assumes run: "faultInPage_with detect new nx m vbase offset e s = Some (Inr s')" and wf: "vm_wf s"
    and new: "\<And>A. finite A \<Longrightarrow> new A \<notin> A" and K: "offset div 4096 \<notin> K"
    and detect: "\<And>s1 s2. vm_wf s1 \<Longrightarrow> vs_ents s1 e \<noteq> None \<Longrightarrow> detect s1 = Some (Inr s2) \<Longrightarrow> grew e K s1 s2"
  shows "grew e (insert (offset div 4096) K) s s'"
proof -
  let ?k = "offset div 4096" and ?K = "insert (offset div 4096) K"
  obtain mp en where en: "vs_maps s m = Some mp" "vs_ents s e = Some en"
    using run unfolding faultInPage_with_def run_Inr by blast
  have pw: "pages_wf en"
    using wf en(2) by (simp add: vm_wf_def)
  then obtain t where "rbt_rep (me_pages en) t"
    by (auto simp: pages_wf_def)
  then obtain q where q: "findKey ?k (me_pages en) = Some (Inr q)" "q = None \<Longrightarrow> ?k \<notin> fst ` owned (me_pages en)"
    using find_page [of "me_pages en" t ?k] by (auto split: option.splits)
  have unf: "with_map m s c = c mp" "with_ent e s c' = c' en" for c c' :: "_ \<Rightarrow> vm_state outcome option"
    using en by (simp_all add: with_map_def with_ent_def)
  note run' = run [unfolded faultInPage_with_def unf Let_def arch_page_size_def q(1) dbind_simps]
  show ?thesis
  proof (cases q)
    case (Some a)
    then obtain n :: "u64 leaf" where "map_page_at nx (vm_table mp) (lf_val n) (vbase + ?k * 4096) (ConvertVmMode (me_flags en) (\<not> me_kernel en)) s = Some (Inr s')"
      using run' by (auto simp: dbind_Inr)
    then show ?thesis
      using grew_same [OF grew_refl [OF en(2) pw]] map_page_at_same by blast
  next
    case None
    then obtain page s1 s2 s3 en3 pages where st: "vm_alloc s = Inr (page, s1)" "count_pages (\<lambda>n. n + 1) s1 = Inr s2"
        "detect s2 = Some (Inr s3)" "vs_ents s3 e = Some en3" "insert_page new ?k page (me_pages en3) = Some (Inr pages)"
        "map_page_at nx (vm_table mp) page (vbase + ?k * 4096) (ConvertVmMode (me_flags en) (\<not> me_kernel en)) (put_ent e (en3\<lparr>me_pages := pages\<rparr>) s3) = Some (Inr s')"
      using run' by (auto simp: run_Inr split: if_splits)
    have same: "vs_maps s2 = vs_maps s" "vs_ents s2 = vs_ents s"
      using vm_alloc_same [OF st(1)] count_pages_same [OF st(2)] by simp_all
    have g2: "grew e ?K s s2"
      by (rule grew_same [OF grew_refl [OF en(2) pw] same])
    have g3: "grew e K s2 s3"
      using detect [OF grew_wf [OF g2 wf] _ st(3)] same(2) en(2) by simp
    obtain en3' where e3: "grown K en en3" "pages_wf en3"
      using grew_entry [OF g3, of en] same(2) en(2) st(4) by auto
    have "?k \<notin> fst ` owned (me_pages en3)"
      using e3(1) q(2) None K unfolding grown_def by auto
    from grew_insert [OF st(4) e3(2) this new st(5)]
    have "grew e ?K s (put_ent e (en3\<lparr>me_pages := pages\<rparr>) s3)"
      using grew_trans [OF grew_trans [OF g2 grew_mono [OF g3]] grew_mono] by blast
    then show ?thesis
      using grew_same map_page_at_same [OF st(6)] by blast
  qed
qed

text \<open>The pages that are faulted in ahead are not the faulting page, even if offsets wrap around.\<close>

lemma same_page_close: "x div 4096 = y div 4096 \<Longrightarrow> x < y + (4096 :: nat)"
proof -
  assume eq: "x div 4096 = y div 4096"
  have "x = x div 4096 * 4096 + x mod 4096" "y = y div 4096 * 4096 + y mod 4096" "x mod 4096 < 4096"
    by simp_all
  then show ?thesis
    unfolding eq by linarith
qed

lemma other_page:
  assumes "i < 64"
  shows "(offset + (of_nat i + 1) * 4096) div 4096 \<noteq> (offset :: u64) div 4096"
proof
  let ?x = "unat (offset + (of_nat i + 1) * 4096)"
  assume "(offset + (of_nat i + 1) * 4096) div 4096 = offset div 4096"
  then have "unat ((offset + (of_nat i + 1) * 4096) div 4096) = unat (offset div 4096)"
    by (rule arg_cong)
  then have "?x div 4096 = unat offset div 4096"
    by (simp add: unat_div)
  then have close: "?x < unat offset + 4096" "unat offset < ?x + 4096"
    using same_page_close by simp_all
  have i: "unat ((of_nat i + 1 :: u64) * 4096) = (i + 1) * 4096"
    using assms by (simp add: unat_word_ariths unat_of_nat)
  have "?x = (if unat offset + (i + 1) * 4096 < 2 ^ 64 then unat offset + (i + 1) * 4096 else unat offset + (i + 1) * 4096 - 2 ^ 64)"
    using unat_plus_if' [of offset "(of_nat i + 1) * 4096"] unfolding i by simp
  then show False
    using close assms by (auto split: if_splits)
qed

lemma prefault_grew:
  assumes new: "\<And>A. finite A \<Longrightarrow> new A \<notin> A"
  shows "prefault new nx m vbase offset e n is s = Some (Inr (i, s')) \<Longrightarrow> vm_wf s \<Longrightarrow> vs_ents s e \<noteq> None \<Longrightarrow> \<forall>i \<in> set is. i < 64
    \<Longrightarrow> grew e {k. k \<noteq> offset div 4096} s s'"
proof (induction "is" arbitrary: s)
  case Nil
  then obtain en where en: "vs_ents s e = Some en"
    by blast
  moreover have "pages_wf en"
    using Nil.prems(2) en by (simp add: vm_wf_def)
  moreover have "s' = s"
    using Nil.prems(1) by simp
  ultimately show ?case
    using grew_refl by simp
next
  case (Cons j "is")
  let ?off = "offset + (of_nat j + 1) * 4096" and ?K = "{k. k \<noteq> offset div 4096}"
  obtain en where en: "vs_ents s e = Some en"
    using Cons.prems(3) by blast
  have pw: "pages_wf en"
    using Cons.prems(2) en by (simp add: vm_wf_def)
  have unf: "with_ent e s c = c en" for c :: "_ \<Rightarrow> (nat \<times> vm_state) outcome option"
    using en by (simp add: with_ent_def)
  note run = Cons.prems(1) [unfolded prefault.simps unf Let_def arch_page_size_def]
  show ?case
  proof (cases "?off \<ge> me_length en")
    case True
    then show ?thesis
      using run grew_refl [OF en pw] by simp
  next
    case False
    then obtain s1 where s1: "faultInPage_with (\<lambda>s. Some (Inr s)) new nx m vbase ?off e s = Some (Inr s1)"
        "prefault new nx m vbase offset e n is s1 = Some (Inr (i, s'))"
      using run by (auto simp: dbind_Inr)
    have none: "?off div 4096 \<notin> {}"
      by (rule notI) (erule emptyE)
    have g: "grew e {?off div 4096} s s1"
    proof (rule faultInPage_with_grew [OF s1(1) Cons.prems(2) new none])
      show "grew e {} a b" if a: "vm_wf a" "vs_ents a e \<noteq> None" "Some (Inr a) = Some (Inr b)" for a b
      proof -
        obtain x where x: "vs_ents a e = Some x"
          using a(2) by blast
        then have "pages_wf x"
          using a(1) by (simp add: vm_wf_def)
        then show ?thesis
          using grew_refl [OF x] a(3) by simp
      qed
    qed
    have "j < 64"
      using Cons.prems(4) by simp
    then have sub: "{?off div 4096} \<subseteq> ?K"
      by (intro insert_subsetI CollectI empty_subsetI other_page)
    have "vs_ents s1 e \<noteq> None"
      using grew_entry [OF g en] by blast
    moreover have "\<forall>i \<in> set is. i < 64"
      using Cons.prems(4) by simp
    ultimately have "grew e ?K s1 s'"
      by (rule Cons.IH [OF s1(2) grew_wf [OF g Cons.prems(2)]])
    then show ?thesis
      by (rule grew_trans [OF grew_mono [OF g sub]])
  qed
qed

lemma detect_grew:
  assumes run: "detectFaultSequence new nx m vbase offset k e s = Some (Inr s')" and wf: "vm_wf s" and e: "vs_ents s e \<noteq> None"
    and new: "\<And>A. finite A \<Longrightarrow> new A \<notin> A"
  shows "grew e {k. k \<noteq> offset div 4096} s s'"
proof -
  let ?K = "{k. k \<noteq> offset div 4096}"
  obtain en where en: "vs_ents s e = Some en"
    using e by blast
  have pw: "pages_wf en"
    using wf en by (simp add: vm_wf_def)
  have put: "grew e ?K a (put_ent e y a)" if "vs_ents a e = Some x" "pages_wf x" "me_pages y = me_pages x" "same_object x y" for a x y
    using that by (intro grew_put) (auto simp: grown_def pages_wf_def)
  have unf: "with_ent e s c = c en" for c :: "map_entry \<Rightarrow> vm_state outcome option"
    using en by (simp add: with_ent_def)
  let ?en = "en\<lparr>me_lastOffset := k, me_numSeq := me_numSeq en + 1\<rparr>"
  define nf where "nf = (if me_numSeq ?en < kMaxSequentialPrefault then me_numSeq ?en else kMaxSequentialPrefault)"
  note run' = run [unfolded detectFaultSequence_def unf Let_def nf_def [symmetric]]
  show ?thesis
  proof (cases "me_seq en = Detect2 \<and> \<not> k \<le> me_lastOffset en \<and> k - me_lastOffset en = me_lastStride en")
    case True
    then obtain i s1 where s1: "prefault new nx m vbase offset e (unat nf) [0..<unat nf] (put_ent e ?en s) = Some (Inr (i, s1))"
        "\<exists>x. vs_ents s1 e = Some x \<and> (s' = put_ent e (x\<lparr>me_lastOffset := me_lastOffset x + nf\<rparr>) s1 \<or> s' = put_ent e (x\<lparr>me_numSeq := 0, me_seq := Idle\<rparr>) s1)"
      using run' by (auto simp: run_Inr split: if_splits)
    have g0: "grew e ?K s (put_ent e ?en s)"
      by (rule put [OF en pw]) (simp_all add: same_object_def)
    have nf: "\<forall>i \<in> set [0..<unat nf]. i < 64"
      by (auto simp: nf_def kMaxSequentialPrefault_def word_less_nat_alt)
    have "vs_ents (put_ent e ?en s) e \<noteq> None"
      by (simp add: put_ent_def)
    from prefault_grew [OF new s1(1) grew_wf [OF g0 wf] this nf]
    have g1: "grew e ?K s s1"
      by (rule grew_trans [OF g0])
    obtain x where x: "vs_ents s1 e = Some x" "s' = put_ent e (x\<lparr>me_lastOffset := me_lastOffset x + nf\<rparr>) s1 \<or> s' = put_ent e (x\<lparr>me_numSeq := 0, me_seq := Idle\<rparr>) s1"
      using s1(2) by blast
    have px: "pages_wf x"
      using grew_entry [OF g1 en] x(1) by auto
    have "grew e ?K s1 s'"
      using x(2) put [OF x(1) px] by (auto simp: same_object_def)
    then show ?thesis
      by (rule grew_trans [OF g1])
  next
    case False
    then obtain y where "s' = put_ent e y s" "me_pages y = me_pages en" "same_object en y"
      using run' by (cases "me_seq en") (auto simp: same_object_def split: if_splits)
    then show ?thesis
      using put [OF en pw] by simp
  qed
qed

lemma entry_fault_wf:
  assumes "entry_handlePagefault new nx m vbase offset pres e s = Some (Inr (b, s'))" "vm_wf s" "\<And>A. finite A \<Longrightarrow> new A \<notin> A"
  shows "vm_wf s'"
proof -
  consider "s' = s" | "faultInPage new nx m vbase offset True e s = Some (Inr s')"
    using assms(1) unfolding entry_handlePagefault_def by (auto simp: run_Inr split: if_splits)
  then show ?thesis
  proof cases
    case 2
    then have run: "faultInPage_with (detectFaultSequence new nx m vbase offset (offset div 4096) e) new nx m vbase offset e s = Some (Inr s')"
      by (simp add: faultInPage_def arch_page_size_def)
    have none: "offset div 4096 \<notin> {k. k \<noteq> offset div 4096}"
      by blast
    have "grew e (insert (offset div 4096) {k. k \<noteq> offset div 4096}) s s'"
      by (rule faultInPage_with_grew [OF run assms(2,3) none detect_grew [OF _ _ _ assms(3)]])
    then show ?thesis
      by (rule grew_wf [OF _ assms(2)])
  qed (use assms(2) in simp)
qed

text \<open>All pages of an object: the offsets are all different.\<close>

lemma fault_all_wf:
  assumes new: "\<And>A. finite A \<Longrightarrow> new A \<notin> A"
  shows "fault_all new e is s = Some (Inr (st, s')) \<Longrightarrow> vm_wf s \<Longrightarrow> vs_ents s e = Some en \<Longrightarrow>
    distinct (map of_nat is :: u64 list) \<Longrightarrow> fst ` owned (me_pages en) \<inter> set (map of_nat is) = {} \<Longrightarrow> vm_wf s'"
proof (induction "is" arbitrary: s en)
  case Nil
  then show ?case
    by simp
next
  case (Cons i "is")
  obtain page s1 where s1: "vm_alloc s = Inr (page, s1)" "page = 0 \<and> s' = s1 \<or> page \<noteq> 0"
    using Cons.prems(1) by (auto simp: dbind_Inr split: if_splits)
  have same: "vs_maps s1 = vs_maps s" "vs_ents s1 = vs_ents s"
    using vm_alloc_same [OF s1(1)] by simp_all
  then have wf1: "vm_wf s1"
    using Cons.prems(2) by (simp add: vm_wf_def)
  show ?case
  proof (cases "page = 0")
    case True
    then show ?thesis
      using s1(2) wf1 by simp
  next
    case False
    then obtain pages where p: "insert_page new (of_nat i) page (me_pages en) = Some (Inr pages)"
        "fault_all new e is (put_ent e (en\<lparr>me_pages := pages\<rparr>) s1) = Some (Inr (st, s'))"
      using Cons.prems(1,3) s1(1) same(2) by (auto simp: run_Inr)
    have pw: "pages_wf en" and k: "of_nat i \<notin> fst ` owned (me_pages en)"
      using Cons.prems(2,3,5) by (auto simp: vm_wf_def)
    have en1: "vs_ents s1 e = Some en"
      using Cons.prems(3) same(2) by simp
    have g: "grew e {of_nat i} s1 (put_ent e (en\<lparr>me_pages := pages\<rparr>) s1)"
      by (rule grew_insert [OF en1 pw k new p(1)])
    have pg: "me_pages (en\<lparr>me_pages := pages\<rparr>) = pages"
      by simp
    have "fst ` owned pages \<subseteq> insert (of_nat i) (fst ` owned (me_pages en))"
      using grew_entry [OF g en1] by (force simp: put_ent_def grown_def)
    moreover have "insert (of_nat i) (fst ` owned (me_pages en)) \<inter> set (map of_nat is) = {}"
      using Cons.prems(4,5) by auto
    ultimately have "fst ` owned (me_pages (en\<lparr>me_pages := pages\<rparr>)) \<inter> set (map of_nat is) = {}"
      unfolding pg by blast
    moreover have "vs_ents (put_ent e (en\<lparr>me_pages := pages\<rparr>) s1) e = Some (en\<lparr>me_pages := pages\<rparr>)"
      by (simp add: put_ent_def)
    ultimately show ?thesis
      using Cons.IH [OF p(2) grew_wf [OF g wf1]] Cons.prems(4) by simp
  qed
qed

lemma faultInAllPages_wf:
  assumes run: "faultInAllPages new e s = Some (Inr (st, s'))" and wf: "vm_wf s" and new: "\<And>A. finite A \<Longrightarrow> new A \<notin> A"
  shows "vm_wf s'"
proof -
  obtain en where en: "vs_ents s e = Some en" "bst_empty (me_pages en)"
      "fault_all new e [0..<unat (me_length en div arch_page_size)] s = Some (Inr (st, s'))"
    using run by (auto simp: faultInAllPages_def run_Inr split: if_splits)
  have "pages_wf en"
    using wf en(1) by (simp add: vm_wf_def)
  then obtain t where t: "rbt_rep (me_pages en) t"
    unfolding pages_wf_def by blast
  then have "t = \<langle>\<rangle>"
    using en(2) by (cases t) (auto simp: rbt_rep_def bst_rep_def bst_empty_def)
  then have "owned (me_pages en) = {}"
    using t owned_contents [of "me_pages en" t] by (simp add: rbt_rep_def contents_def)
  moreover have "distinct (map of_nat [0..<unat (me_length en div arch_page_size)] :: u64 list)"
  proof -
    have n: "unat (me_length en div arch_page_size) < 2 ^ 64"
      using unsigned_less [of "me_length en div arch_page_size"] by simp
    have "inj_on (of_nat :: nat \<Rightarrow> u64) {0..<unat (me_length en div arch_page_size)}"
    proof (rule inj_onI)
      fix x y
      assume xy: "x \<in> {0..<unat (me_length en div arch_page_size)}" "y \<in> {0..<unat (me_length en div arch_page_size)}"
        "(of_nat x :: u64) = of_nat y"
      then have "x < 2 ^ 64" "y < 2 ^ 64"
        using n by simp_all
      then show "x = y"
        using arg_cong [OF xy(3), of unat] unat_of_nat_u64 by metis
    qed
    then show ?thesis
      by (simp add: distinct_map)
  qed
  ultimately show ?thesis
    using fault_all_wf [OF new en(3) wf en(1)] by simp
qed

section \<open>Address spaces\<close>

lemma search_base_free:
  assumes "search_base b sz searchEnd start = Some r"
  shows "case r of Inr (Some a) \<Rightarrow> a < searchEnd - sz \<and> (\<exists>nxt. isRegionFree a sz b = Some (Inr (True, nxt))) | _ \<Rightarrow> True"
proof (rule search_base.raw_induct [where P = "\<lambda>b sz searchEnd start r. case r of Inr (Some a) \<Rightarrow>
    a < searchEnd - sz \<and> (\<exists>nxt. isRegionFree a sz b = Some (Inr (True, nxt))) | _ \<Rightarrow> True", OF _ assms])
  fix f b sz se start r
  assume ih: "\<And>b sz se start r. f b sz se start = Some r \<Longrightarrow> case r of Inr (Some a) \<Rightarrow>
      a < se - sz \<and> (\<exists>nxt. isRegionFree a sz b = Some (Inr (True, nxt))) | _ \<Rightarrow> True"
    and run: "(if start < se - sz then dbind (isRegionFree start sz b) (\<lambda>(isFree, nextFree).
        if isFree then Some (Inr (Some start)) else f b sz se nextFree) else Some (Inr None)) = Some r"
  show "case r of Inr (Some a) \<Rightarrow> a < se - sz \<and> (\<exists>nxt. isRegionFree a sz b = Some (Inr (True, nxt))) | _ \<Rightarrow> True"
  proof (cases "\<exists>a. r = Inr (Some a)")
    case True
    then obtain a where r: "r = Inr (Some a)"
      by blast
    then obtain isFree nxt where "start < se - sz" "isRegionFree start sz b = Some (Inr (isFree, nxt))"
        "(if isFree then Some (Inr (Some start)) else f b sz se nxt) = Some (Inr (Some a))"
      using run by (auto simp: dbind_Inr split: if_splits)
    then show ?thesis
      using ih [of b sz se nxt "Inr (Some a)"] r by (cases isFree) auto
  qed (auto split: sum.splits option.splits)
qed

lemma vm_place_wf:
  assumes run: "vm_place new entry requested sz start searchEnd b = Some (Inr (r, b'))" and ok: "map_ok b t"
    and new: "\<And>A. finite A \<Longrightarrow> new A \<notin> A"
    and guard: "0 < sz" "sz \<le> searchEnd" "requested \<noteq> 0 \<Longrightarrow> fits requested sz"
  shows "\<exists>t'. map_ok b' t'"
proof (cases r)
  case None
  then have "b' = b"
    using run by (auto simp: vm_place_def dbind_Inr split: option.splits if_splits)
  then show ?thesis
    using ok by blast
next
  case (Some a)
  then have ins: "map_insert (new (dom (nodes b))) a sz entry mf_None b = Some (Inr b')"
      and found: "if requested \<noteq> 0 then a = requested \<and> (\<exists>nxt. isRegionFree a sz b = Some (Inr (True, nxt)))
        else search_base b sz searchEnd start = Some (Inr (Some a))"
    using run by (auto simp: vm_place_def dbind_Inr split: option.splits if_splits)
  have "fits a sz \<and> (\<exists>nxt. isRegionFree a sz b = Some (Inr (True, nxt)))"
  proof (cases "requested = 0")
    case True
    then show ?thesis
      using found search_base_free [of b sz searchEnd start "Inr (Some a)"] search_fits [OF guard(1,2)] by simp
  qed (use found guard(3) in auto)
  then obtain nxt where fit: "fits a sz" and free: "isRegionFree a sz b = Some (Inr (True, nxt))"
    by blast
  have vac: "vacant b t sz a"
    using isRegionFree_vacant [OF ok fit] free by auto
  have "finite (dom (nodes b))"
    using ok by (simp add: map_ok_def bst_rep_def)
  then have "new (dom (nodes b)) \<notin> dom (nodes b)"
    by (rule new)
  from map_insert_ok [OF ok this fit vac, of entry mf_None]
  obtain b'' t' where "map_insert (new (dom (nodes b))) a sz entry mf_None b = Some (Inr b'')" "map_ok b'' t'"
    by blast
  then show ?thesis
    using ins by auto
qed

lemma map_remove_wf:
  assumes run: "map_remove k b = Some (Inr (x, b'))" and ok: "map_ok b t"
  shows "\<exists>t'. map_ok b' t'"
proof -
  have rep: "bst_rep b t" and ents: "ok_entries (set (contents (nodes b) t))"
    using ok by (simp_all add: map_ok_entries)
  have run': "bst_remove k b = Some (Inr (x, b'))"
    using run by (simp add: map_remove_def bst_remove_def)
  show ?thesis
  proof (cases "k \<in> fst ` set (contents (nodes b) t)")
    case False
    then show ?thesis
      using bst_remove_absent [OF rep False] run' ok by auto
  next
    case True
    have "\<not> (one_child t \<and> map_option (key_of (nodes b)) (root b) = Some k)"
      using bst_remove_null_parent [OF rep] run' by auto
    from bst_remove_rep [OF rep True this]
    obtain t' where t': "bst_rep b' t'" "contents (nodes b') t' = filter (\<lambda>e. fst e \<noteq> k) (contents (nodes b) t)"
      using run' by auto
    then have "ok_entries (set (contents (nodes b') t'))"
      using ok_entries_subset [OF ents] by auto
    then show ?thesis
      using t'(1) map_ok_entries by blast
  qed
qed

section \<open>All operations\<close>

text \<open>The operations on objects and address spaces, with the arguments of the functions they call.\<close>

datatype vm_op =
    MakeAnon nat u64 u32 bool
  | MakePhys nat u64 u64 u32 bool
  | SetOwner nat "nat option"
  | Resize nat u64
  | UpdateFlags nat u32
  | FaultInAll nat
  | Destroy nat
  | CreateMap nat nat "nat option"
  | AddObject nat "nat option" u64 u32 u64 u64 u64 nat
  | RemoveObject nat "nat option" nat
  | PageFault u64 bool nat

definition state_only :: "('a \<times> vm_state) outcome option \<Rightarrow> vm_state outcome option" where
  "state_only r = dbind r (\<lambda>(_, s). Some (Inr s))"

fun vm_exec :: "(addr set \<Rightarrow> addr) \<Rightarrow> bool \<Rightarrow> vm_op \<Rightarrow> vm_state \<Rightarrow> vm_state outcome option" where
  "vm_exec new nx (MakeAnon e lng flags k) s = Some (Inr (makeAnon e lng flags k s))"
| "vm_exec new nx (MakePhys e phys lng flags k) s = Some (Inr (makePhys e phys lng flags k s))"
| "vm_exec new nx (SetOwner e t) s = with_ent e s (\<lambda>en. Some (Inr (put_ent e (setOwner t en) s)))"
| "vm_exec new nx (Resize e sz) s = with_ent e s (\<lambda>en. Some (Inr (put_ent e (snd (resize sz en)) s)))"
| "vm_exec new nx (UpdateFlags e flags) s = state_only (updateFlags nx flags e s)"
| "vm_exec new nx (FaultInAll e) s = state_only (faultInAllPages new e s)"
| "vm_exec new nx (Destroy e) s = entry_destroy e s"
| "vm_exec new nx (CreateMap m h kern) s = Some (vm_create nx m h kern s)"
| "vm_exec new nx (AddObject e task req msk view start stop m) s = state_only (vm_add new nx (Some e) task req msk view start stop m s)"
| "vm_exec new nx (RemoveObject e task m) s = state_only (vm_remove e task m s)"
| "vm_exec new nx (PageFault virt pres m) s = state_only (handlePagefault new nx virt pres m s)"

text \<open>An object is added with a size that fits into the search range and behind a requested base.\<close>

fun op_ok :: "vm_op \<Rightarrow> vm_state \<Rightarrow> bool" where
  "op_ok (AddObject e task req msk view start stop m) s =
     (\<forall>en. vs_ents s e = Some en \<longrightarrow> (let sz = (if view \<noteq> 0 then view else me_length en) in
        0 < sz \<and> sz \<le> stop \<and> (req \<noteq> 0 \<longrightarrow> fits req sz)))"
| "op_ok _ s = True"

lemma state_only_Inr: "state_only r = Some (Inr s') \<longleftrightarrow> (\<exists>x. r = Some (Inr (x, s')))"
  by (auto simp: state_only_def dbind_Inr)

lemma same_pages_wf:
  assumes "vm_wf s" "vs_ents s e = Some en" "me_pages en' = me_pages en"
  shows "vm_wf (put_ent e en' s)"
proof -
  have "pages_wf en"
    using assms(1,2) by (simp add: vm_wf_def)
  then show ?thesis
    using vm_wf_put_ent [OF assms(1)] pages_wf_same [OF assms(3)] by simp
qed

lemma field_wf:
  assumes "vm_wf s" "vs_ents s e = Some en"
  shows "vm_wf (put_ent e (en\<lparr>me_mappedIn := vs\<rparr>) s)" "vm_wf (put_ent e (en\<lparr>me_flags := fl\<rparr>) s)"
    "vm_wf (put_ent e (en\<lparr>me_owner := ow\<rparr>) s)" "vm_wf (put_ent e (en\<lparr>me_length := lng\<rparr>) s)" "vm_wf (put_ent e en s)"
  by (rule same_pages_wf [OF assms]; simp)+

lemma addedToMap_wf: "addedToMap nx m t vbase msk e s = Some (Inr s') \<Longrightarrow> vm_wf s \<Longrightarrow> vm_wf s'"
  unfolding addedToMap_def by (auto simp: run_Inr Let_def simp: field_wf split: if_splits)

lemma removedFromMap_wf: "removedFromMap m t vbase lng e s = Some (Inr s') \<Longrightarrow> vm_wf s \<Longrightarrow> vm_wf s'"
  unfolding removedFromMap_def by (auto simp: run_Inr simp: field_wf split: if_splits)

lemma updateFlags_wf: "updateFlags nx flags e s = Some (Inr (st, s')) \<Longrightarrow> vm_wf s \<Longrightarrow> vm_wf s'"
  unfolding updateFlags_def Let_def by (auto simp: run_Inr simp: field_wf)

lemma vm_add_wf:
  assumes run: "vm_add new nx (Some e) task req msk view start stop m s = Some (Inr (st, s'))" and wf: "vm_wf s"
    and new: "\<And>A. finite A \<Longrightarrow> new A \<notin> A" and ok: "op_ok (AddObject e task req msk view start stop m) s"
  shows "vm_wf s'"
proof -
  obtain t en mp found entries where r: "task = Some t" "vs_ents s e = Some en" "vs_maps s m = Some mp"
      "vm_place new (Some e) req (if view \<noteq> 0 then view else me_length en) start stop (vm_entries mp) = Some (Inr (found, entries))"
      "case found of None \<Rightarrow> s' = s
       | Some vbase \<Rightarrow> addedToMap nx m t vbase msk e (put_map m (mp\<lparr>vm_entries := entries\<rparr>) s) = Some (Inr s')"
    using run unfolding vm_add_def by (auto simp: run_Inr split: option.splits)
  obtain b where b: "map_ok (vm_entries mp) b"
    using wf r(3) unfolding vm_wf_def space_wf_def by blast
  have guard: "0 < (if view \<noteq> 0 then view else me_length en)" "(if view \<noteq> 0 then view else me_length en) \<le> stop"
      "req \<noteq> 0 \<Longrightarrow> fits req (if view \<noteq> 0 then view else me_length en)"
    using ok r(2) unfolding op_ok.simps Let_def by blast+
  obtain b' where "map_ok entries b'"
    using vm_place_wf [OF r(4) b new guard] by blast
  then have "space_wf (mp\<lparr>vm_entries := entries\<rparr>)"
    by (auto simp: space_wf_def)
  then have "vm_wf (put_map m (mp\<lparr>vm_entries := entries\<rparr>) s)"
    by (rule vm_wf_put_map [OF wf])
  then show ?thesis
    using r(5) wf addedToMap_wf by (cases found) auto
qed

lemma vm_remove_wf:
  assumes run: "vm_remove e task m s = Some (Inr (st, s'))" and wf: "vm_wf s"
  shows "vm_wf s'"
proof -
  obtain t where t: "task = Some t"
    using run by (cases task) (auto simp: vm_remove_def)
  obtain mp vbase lng flags where r0: "vs_maps s m = Some mp"
      "(if vbase = 0 then Some (Inr (-1, s))
        else dbind (map_remove vbase (vm_entries mp)) (\<lambda>(_, entries).
          dbind (removedFromMap m t vbase lng e (put_map m (mp\<lparr>vm_entries := entries\<rparr>) s)) (\<lambda>s. Some (Inr (0, s)))))
       = Some (Inr (st, s'))"
    using run unfolding vm_remove_def t by (auto simp: with_map_Inr dbind_Inr [of "baseAddressFor _ _"])
  then have r: "vs_maps s m = Some mp"
      "s' = s \<or> (\<exists>x entries. map_remove vbase (vm_entries mp) = Some (Inr (x, entries))
         \<and> removedFromMap m t vbase lng e (put_map m (mp\<lparr>vm_entries := entries\<rparr>) s) = Some (Inr s'))"
    by (auto simp: dbind_Inr split: if_splits)
  obtain b where b: "map_ok (vm_entries mp) b"
    using wf r(1) unfolding vm_wf_def space_wf_def by blast
  show ?thesis
    using r(2)
  proof (elim disjE exE conjE)
    fix x entries
    assume rem: "map_remove vbase (vm_entries mp) = Some (Inr (x, entries))"
      and tail: "removedFromMap m t vbase lng e (put_map m (mp\<lparr>vm_entries := entries\<rparr>) s) = Some (Inr s')"
    have "space_wf (mp\<lparr>vm_entries := entries\<rparr>)"
      using map_remove_wf [OF rem b] by (simp add: space_wf_def)
    then show ?thesis
      by (rule removedFromMap_wf [OF tail vm_wf_put_map [OF wf]])
  qed (use wf in simp)
qed

lemma page_fault_wf:
  assumes "handlePagefault new nx virt pres m s = Some (Inr (b, s'))" "vm_wf s" "\<And>A. finite A \<Longrightarrow> new A \<notin> A"
  shows "vm_wf s'"
proof -
  consider "s' = s" | e vbase off where "entry_handlePagefault new nx m vbase off pres e s = Some (Inr (b, s'))"
    using assms(1) unfolding handlePagefault_def by (auto simp: run_Inr split: option.splits)
  then show ?thesis
  proof cases
    case 2
    then show ?thesis
      using entry_fault_wf assms(2,3) by blast
  qed (use assms(2) in simp)
qed

lemma create_wf:
  assumes "vm_create nx m h kern s = Inr s'" "vm_wf s"
  shows "vm_wf s'"
proof -
  obtain pt where "s' = (put_map m \<lparr>vm_entries = no_nodes, vm_table = h\<rparr> s)\<lparr>vs_pt := pt\<rparr>"
    using assms(1) unfolding vm_create_def by auto
  then show ?thesis
    using vm_wf_put_map [OF assms(2) new_space_wf] by simp
qed

text \<open>Freeing the pages of an object changes the allocator and the task's counter only.\<close>

lemma freePage_same: "vm_freePage phys s = Inr s' \<Longrightarrow> vs_maps s' = vs_maps s \<and> vs_ents s' = vs_ents s"
  by (auto simp: vm_freePage_def dest: count_pages_same)

lemma free_pages_same:
  assumes "free_pages_from pages info s = Some r"
  shows "case r of Inl _ \<Rightarrow> True | Inr s' \<Rightarrow> vs_maps s' = vs_maps s \<and> vs_ents s' = vs_ents s"
proof (rule free_pages_from.raw_induct [where P = "\<lambda>pages info s r. case r of Inl _ \<Rightarrow> True
    | Inr s' \<Rightarrow> vs_maps s' = vs_maps s \<and> vs_ents s' = vs_ents s", OF _ assms])
  fix f pages info s r
  assume ih: "\<And>pages info s r. f pages info s = Some r \<Longrightarrow> case r of Inl _ \<Rightarrow> True
      | Inr s' \<Rightarrow> vs_maps s' = vs_maps s \<and> vs_ents s' = vs_ents s"
    and run: "(if info = None then Some (Inr s) else dbind (Some (deref pages info)) (\<lambda>n.
        dbind (Some (vm_freePage (lf_val n) s)) (\<lambda>s. dbind (iter_increment pages info) (\<lambda>info. f pages info s)))) = Some r"
  show "case r of Inl _ \<Rightarrow> True | Inr s' \<Rightarrow> vs_maps s' = vs_maps s \<and> vs_ents s' = vs_ents s"
  proof (cases r)
    case (Inr s')
    show ?thesis
    proof (cases "info = None")
      case False
      then obtain n :: "u64 leaf" and s1 info' where st: "vm_freePage (lf_val n) s = Inr s1" "f pages info' s1 = Some (Inr s')"
        using run unfolding Inr by (auto simp: dbind_Inr)
      show ?thesis
        using freePage_same [OF st(1)] ih [OF st(2)] Inr by simp
    qed (use run Inr in simp)
  qed simp
qed

lemma destroy_wf:
  assumes "entry_destroy e s = Some (Inr s')" "vm_wf s"
  shows "vm_wf s'"
proof -
  obtain pages info s1 where s1: "free_pages_from pages info s = Some (Inr s1)" "s' = s1\<lparr>vs_ents := (vs_ents s1)(e := None)\<rparr>"
    using assms(1) unfolding entry_destroy_def by (auto simp: run_Inr)
  have "vs_maps s1 = vs_maps s" "vs_ents s1 = vs_ents s"
    using free_pages_same [OF s1(1)] by simp_all
  then show ?thesis
    using assms(2) s1(2) by (auto simp: vm_wf_def split: if_splits)
qed

lemmas op_wf = updateFlags_wf faultInAllPages_wf vm_add_wf vm_remove_wf page_fault_wf

section \<open>Properties\<close>

text \<open>
  C7: Every operation of virtual memory that returns keeps the state well-formed: after creating,
  resizing, changing, populating or destroying an object, creating an address space, adding an
  object to one or removing it, and after a page fault, the pages of every object are a red-black
  tree and the mappings of every address space are disjoint and in a search tree. An object is
  added with a nonempty size that fits before the end of the search and behind a requested base.
\<close>

theorem vm_operations_well_formed:
  assumes "vm_wf s" "op_ok op s" "vm_exec new nx op s = Some (Inr s')" "\<And>A. finite A \<Longrightarrow> new A \<notin> A"
  shows "vm_wf s'"
proof (cases op)
  case (MakeAnon e lng flags k)
  then show ?thesis
    using assms(1,3) by (auto simp: makeAnon_def new_entry_def intro!: vm_wf_put_ent no_pages_wf)
next
  case (MakePhys e phys lng flags k)
  then show ?thesis
    using assms(1,3) by (auto simp: makePhys_def new_entry_def intro!: vm_wf_put_ent no_pages_wf)
next
  case (SetOwner e t)
  then show ?thesis
    using assms(1,3) by (auto simp: run_Inr setOwner_def field_wf)
next
  case (Resize e sz)
  then show ?thesis
    using assms(1,3) by (auto simp: run_Inr resize_def field_wf)
next
  case (UpdateFlags e flags)
  then show ?thesis
    using assms(1,3) op_wf(1) by (auto simp: state_only_Inr)
next
  case (FaultInAll e)
  then obtain st where "faultInAllPages new e s = Some (Inr (st, s'))"
    using assms(3) by (auto simp: state_only_Inr)
  then show ?thesis
    by (rule op_wf(2) [OF _ assms(1,4)])
next
  case (Destroy e)
  then show ?thesis
    using assms(1,3) destroy_wf by auto
next
  case (CreateMap m h kern)
  then show ?thesis
    using assms(1,3) create_wf by auto
next
  case (AddObject e task req msk view start stop m)
  then obtain st where "vm_add new nx (Some e) task req msk view start stop m s = Some (Inr (st, s'))"
    using assms(3) by (auto simp: state_only_Inr)
  then show ?thesis
    by (rule op_wf(3) [OF _ assms(1,4) assms(2) [unfolded AddObject]])
next
  case (RemoveObject e task m)
  then show ?thesis
    using assms(1,3) op_wf(4) by (auto simp: state_only_Inr)
next
  case (PageFault virt pres m)
  then obtain b where "handlePagefault new nx virt pres m s = Some (Inr (b, s'))"
    using assms(3) by (auto simp: state_only_Inr)
  then show ?thesis
    by (rule op_wf(5) [OF _ assms(1,4)])
qed

lemma fault_state_wf: "vm_wf fault_state"
proof -
  have "space_wf \<lparr>vm_entries = two_maps, vm_table = 0\<rparr>"
    using two_maps_ok by (auto simp: space_wf_def)
  then show ?thesis
    unfolding fault_state_def makeAnon_def by (intro vm_wf_put_ent) (auto simp: vm_wf_def new_entry_def intro: no_pages_wf)
qed

text \<open>Populating the object of one page, whether the machine has a free frame or not.\<close>

theorem vm_operations_well_formed_witness:
  "\<exists>s'. vm_exec bump True (FaultInAll 2) fault_state = Some (Inr s') \<and> vm_wf s'"
proof -
  have inv: "pt_inv (vs_pt fault_state) (pml4Phys small_handler)"
    using small_pt_inv(1) by (simp add: fault_state_def makeAnon_def put_ent_def)
  obtain page pt where a: "vm_alloc fault_state = Inr (page, fault_state\<lparr>vs_pt := pt\<rparr>)"
    using vm_alloc_ok [OF inv] by blast
  obtain en where en: "vs_ents fault_state 2 = Some en" "me_anon en" "me_length en = 0x1000" "me_pages en = no_nodes"
    by (simp add: fault_state_def makeAnon_def put_ent_def new_entry_def)
  have "0 \<notin> fst ` owned (no_nodes :: u64 bst)"
    by (simp add: owned_def no_nodes_def)
  from insert_page_ok [OF empty_pages this bump_fresh]
  obtain pages where p: "insert_page bump 0 page no_nodes = Some (Inr pages)"
    by blast
  have one: "[0..<unat ((0x1000 :: u64) div arch_page_size)] = [0]"
    by (simp add: arch_page_size_def)
  have "\<exists>s'. vm_exec bump True (FaultInAll 2) fault_state = Some (Inr s')"
    using a en p by (simp add: faultInAllPages_def with_ent_def bst_empty_def no_nodes_def one state_only_def)
  then obtain s' where s': "vm_exec bump True (FaultInAll 2) fault_state = Some (Inr s')"
    by blast
  have "op_ok (FaultInAll 2) fault_state"
    by simp
  then have "vm_wf s'"
    by (rule vm_operations_well_formed [OF fault_state_wf _ s' bump_fresh])
  then show ?thesis
    using s' by blast
qed

end
