(* ===== verification/Ipc_Port.thy ===== *)
theory Ipc_Port
  imports Rt_List "HOL-Library.Multiset"
begin

text \<open>
  Message ports, \<^verbatim>\<open>kernel/src/ipc/Port.h\<close> and \<^verbatim>\<open>Port.cpp\<close>: a queue of messages, the counters and the
  object on which the receiving thread blocks. The queue is the pointer level model of
  \<^verbatim>\<open>rt::Queue\<close>; the contents of messages are blocks of the kernel heap, whose choice of addresses is
  an argument.

  The parts of the operations that run under the lock of the port are single steps. The methods of
  the blocker run outside of it, so every load and store of its fields is a step of its own. An
  inductive relation interleaves these steps for one receiving thread, the number the port is made
  for, and any number of senders; memory is sequentially consistent and the shared pointer \<open>blocker\<close> is
  one word of it. The model of the thread ends
  with its block state: that a thread whose block state is \<^verbatim>\<open>Unblocked\<close> runs again is up to the
  scheduler. The lemmas show that messages arrive once and in order, which receptions leak their
  block, which announcements wake the receiver, and how a wake-up is lost.
\<close>

section \<open>State\<close>

record message =
  timestamp :: u64
  sender :: u64
  contentLen :: u64
  content :: "addr option"
  ownsContent :: bool

text \<open>The fields of the port and of its blocker, and the blocks of the kernel heap that hold messages.\<close>

record port =
  maxMessages :: u64
  messages :: "message llist"
  totalReceived :: u64
  totalSent :: u64
  blocker :: "nat option"
  unblockedSignalled :: bool
  signalled :: bool
  isBlocking :: bool
  blocks :: "addr \<rightharpoonup> u8 list"

definition kMaxMsgLen :: u64 where "kMaxMsgLen = 4096 * 9"
definition kDefaultMaxMessages :: u64 where "kDefaultMaxMessages = 100"

definition port_alloc :: port where
  "port_alloc = \<lparr>maxMessages = kDefaultMaxMessages, messages = list_empty, totalReceived = 0, totalSent = 0,
     blocker = None, unblockedSignalled = False, signalled = False, isBlocking = False, blocks = Map.empty\<rparr>"

section \<open>Messages\<close>

text \<open>A message with a copy of the sender's buffer; the heap returns \<open>buf\<close>, or null.\<close>

definition message_create :: "addr option \<Rightarrow> u64 \<Rightarrow> u64 \<Rightarrow> u8 list \<Rightarrow> port \<Rightarrow> (message \<times> port) outcome" where
  "message_create buf now thread bytes p =
     (case buf of None \<Rightarrow> Inl (Panic ''failed to alloc message buffer'')
      | Some b \<Rightarrow> Inr (\<lparr>timestamp = now, sender = thread, contentLen = of_nat (length bytes), content = Some b, ownsContent = True\<rparr>,
                      p\<lparr>blocks := (blocks p)(b \<mapsto> bytes)\<rparr>))"

definition message_done :: "message \<Rightarrow> port \<Rightarrow> message \<times> port" where
  "message_done m p =
     (if ownsContent m
      then (m\<lparr>ownsContent := False, content := None\<rparr>,
            case content m of None \<Rightarrow> p | Some b \<Rightarrow> p\<lparr>blocks := (blocks p)(b := None)\<rparr>)
      else (m, p))"

section \<open>The blocker\<close>

definition messagesPending :: "port \<Rightarrow> bool" where
  "messagesPending p = (\<not> list_is_empty (messages p))"

definition isSignalled :: "port \<Rightarrow> bool" where
  "isSignalled p = messagesPending p"

text \<open>
  Announcing a message takes no lock. The accesses of a sender to the blocker, by what it does next;
  \<open>Unblock t\<close> is the call of \<^verbatim>\<open>Thread::unblock\<close>, for which the pointer to the thread has been loaded a
  second time.
\<close>

datatype announce = TestBlocker | SetUnblocked | TestBlocking | TestSignalled | LoadBlocker | Unblock nat

fun announce_step :: "announce \<Rightarrow> port \<Rightarrow> (announce option \<times> port) outcome" where
  "announce_step TestBlocker p = Inr (Some (if blocker p = None then SetUnblocked else TestBlocking), p)"
| "announce_step SetUnblocked p = Inr (None, p\<lparr>unblockedSignalled := True\<rparr>)"
| "announce_step TestBlocking p = Inr (if isBlocking p then Some TestSignalled else None, p)"
| "announce_step TestSignalled p = Inr (if signalled p then None else Some LoadBlocker, p\<lparr>signalled := True\<rparr>)"
| "announce_step LoadBlocker p = (case blocker p of None \<Rightarrow> Inl NullDeref | Some t \<Rightarrow> Inr (Some (Unblock t), p))"
| "announce_step (Unblock t) p = Inr (None, p)"

text \<open>The rest of a call that no other thread interrupts; the result is the thread that is unblocked, if any.\<close>

fun announce_rank :: "announce \<Rightarrow> nat" where
  "announce_rank TestBlocker = 5"
| "announce_rank TestBlocking = 4"
| "announce_rank TestSignalled = 3"
| "announce_rank LoadBlocker = 2"
| "announce_rank SetUnblocked = 1"
| "announce_rank (Unblock t) = 0"

lemma announce_step_rank: "announce_step a p = Inr (Some a', p') \<Longrightarrow> announce_rank a' < announce_rank a"
  by (cases a) (auto split: option.splits if_splits)

function announce_alone :: "announce \<Rightarrow> port \<Rightarrow> (nat option \<times> port) outcome" where
  "announce_alone a p =
     (case a of Unblock t \<Rightarrow> Inr (Some t, p)
      | _ \<Rightarrow> (case announce_step a p of Inl f \<Rightarrow> Inl f
          | Inr (None, p) \<Rightarrow> Inr (None, p)
          | Inr (Some a', p) \<Rightarrow> announce_alone a' p))"
  by pat_completeness auto
termination
  by (relation "measure (announce_rank \<circ> fst)") (auto split: if_splits option.splits)

definition messageQueued :: "port \<Rightarrow> (nat option \<times> port) outcome" where
  "messageQueued p = announce_alone TestBlocker p"

text \<open>The accesses of the receiver: resetting, the end of a block, and preparing to block.\<close>

definition clear_unblocked :: "port \<Rightarrow> port" where
  "clear_unblocked p = p\<lparr>unblockedSignalled := False\<rparr>"

definition clear_signalled :: "port \<Rightarrow> port" where
  "clear_signalled p = p\<lparr>signalled := False\<rparr>"

definition blocker_reset :: "port \<Rightarrow> port" where
  "blocker_reset p = clear_signalled (clear_unblocked p)"

definition clear_blocker :: "port \<Rightarrow> port" where
  "clear_blocker p = p\<lparr>blocker := None\<rparr>"

definition clear_blocking :: "port \<Rightarrow> port" where
  "clear_blocking p = p\<lparr>isBlocking := False\<rparr>"

definition didUnblock :: "port \<Rightarrow> port" where
  "didUnblock p = clear_blocking (clear_blocker p)"

definition set_blocker :: "nat \<Rightarrow> port \<Rightarrow> port" where
  "set_blocker t p = p\<lparr>blocker := Some t\<rparr>"

definition set_blocking :: "port \<Rightarrow> port" where
  "set_blocking p = p\<lparr>isBlocking := True\<rparr>"

definition willBlockOn :: "nat \<Rightarrow> port \<Rightarrow> int \<times> port" where
  "willBlockOn t p =
     (let p = set_blocker t p in
      if signalled p \<or> unblockedSignalled p then (-1, p) else (0, set_blocking p))"

definition setQueueDepth :: "u64 \<Rightarrow> port \<Rightarrow> port" where
  "setQueueDepth depth p = p\<lparr>maxMessages := depth\<rparr>"

section \<open>Sending\<close>

text \<open>
  The part under the lock: the status and the port. The element of the queue is allocated at \<open>el\<close>,
  the block for the content at \<open>buf\<close>.
\<close>

definition send_locked :: "addr \<Rightarrow> addr option \<Rightarrow> u64 \<Rightarrow> u64 \<Rightarrow> u8 list \<Rightarrow> port \<Rightarrow> (int \<times> port) outcome" where
  "send_locked el buf now thread bytes p =
     (if maxMessages p \<noteq> 0 \<and> of_nat (list_size (messages p)) \<ge> maxMessages p then Inr (-1, p)
      else obind (message_create buf now thread bytes p) (\<lambda>(m, p).
           obind (queue_push_back el m (messages p)) (\<lambda>q.
           Inr (0, p\<lparr>messages := q, totalSent := totalSent p + 1\<rparr>))))"

text \<open>The whole operation; a null buffer is \<^term>\<open>None\<close>.\<close>

definition send :: "addr \<Rightarrow> addr option \<Rightarrow> u64 \<Rightarrow> u64 \<Rightarrow> u8 list option \<Rightarrow> port \<Rightarrow> (int \<times> nat option \<times> port) outcome" where
  "send el buf now thread msgBuf p =
     (case msgBuf of None \<Rightarrow> Inr (-2, None, p)
      | Some bytes \<Rightarrow>
          if length bytes > unat kMaxMsgLen then Inr (-2, None, p)
          else obind (send_locked el buf now thread bytes p) (\<lambda>(st, p).
               if st \<noteq> 0 then Inr (st, None, p)
               else obind (messageQueued p) (\<lambda>(unblocked, p). Inr (0, unblocked, p))))"

section \<open>Receiving\<close>

text \<open>Taking the first message off the queue: its sender, the bytes copied and the message.\<close>

definition take_message :: "u64 \<Rightarrow> port \<Rightarrow> ((u64 \<times> u8 list) \<times> message \<times> port) outcome option" where
  "take_message msgBufLen p =
     dbind (queue_pop (messages p)) (\<lambda>(m, q).
     let toCopy = (if contentLen m > msgBufLen then msgBufLen else contentLen m) in
     dbind (Some (deref (blocks p) (content m))) (\<lambda>bytes.
     Some (Inr ((sender m, take (unat toCopy) bytes), m, p\<lparr>messages := q, totalReceived := totalReceived p + 1\<rparr>))))"

text \<open>What a part of receiving ends with: a message, a status, or going on to block.\<close>

datatype received = Got u64 "u8 list" | Status int | MustBlock

text \<open>The part before blocking: after resetting the blocker it takes a message and releases its block.\<close>

definition receive_locked :: "u64 \<Rightarrow> u64 \<Rightarrow> port \<Rightarrow> (received \<times> port) outcome option" where
  "receive_locked msgBufLen blockUntil p =
     (if \<not> list_is_empty (messages p) then
        dbind (take_message msgBufLen p) (\<lambda>((from, bytes), m, p).
        Some (Inr (Got from bytes, snd (message_done m p))))
      else if blockUntil = 0 then Some (Inr (Status (-1), p))
      else Some (Inr (MustBlock, p)))"

definition receive_first :: "u64 \<Rightarrow> u64 \<Rightarrow> port \<Rightarrow> (received \<times> port) outcome option" where
  "receive_first msgBufLen blockUntil p = receive_locked msgBufLen blockUntil (blocker_reset p)"

text \<open>The part after blocking.\<close>

definition receive_second :: "u64 \<Rightarrow> port \<Rightarrow> (received \<times> port) outcome option" where
  "receive_second msgBufLen p =
     (if \<not> list_is_empty (messages p) then
        dbind (take_message msgBufLen p) (\<lambda>((from, bytes), m, p). Some (Inr (Got from bytes, p)))
      else Some (Inr (Status (-1), p)))"

text \<open>
  Blocking on the port: an attempt is aborted when the port refuses it, and otherwise other threads
  run until one unblocks this thread, which changes the port by \<open>resume\<close>. The port is told about the
  end of a block only if there was one.
\<close>

datatype block_return = Unblocked | Aborted | Timeout | Error

definition blockOn :: "nat \<Rightarrow> (port \<Rightarrow> port) \<Rightarrow> port \<Rightarrow> block_return \<times> port" where
  "blockOn t resume p =
     (let (err, p) = willBlockOn t p in
      if err \<noteq> 0 then (Aborted, p) else (Unblocked, didUnblock (resume p)))"

text \<open>The whole operation of the thread \<open>t\<close>.\<close>

definition receive :: "nat \<Rightarrow> (port \<Rightarrow> port) \<Rightarrow> u64 \<Rightarrow> u64 \<Rightarrow> port \<Rightarrow> (received \<times> port) outcome option" where
  "receive t resume msgBufLen blockUntil p =
     dbind (receive_first msgBufLen blockUntil p) (\<lambda>(r, p).
     if r \<noteq> MustBlock then Some (Inr (r, p))
     else let (unblockReason, p) = blockOn t resume p in
          if unblockReason = Error then Some (Inr (Status (-2), p)) else receive_second msgBufLen p)"

section \<open>Interleaving\<close>

text \<open>
  Where the receiving thread is, with the sizes of its buffer and, before blocking, the time: outside
  of \<^verbatim>\<open>receive\<close>; resetting the blocker and taking a message, with the lock of the port; between the
  release of that lock and blocking; about to read \<open>signalled\<close>, to read \<open>unblockedSignalled\<close> and to
  store \<open>isBlocking\<close>, with its own lock; asleep; about to clear \<open>isBlocking\<close>, with its own lock again;
  and after blocking.
\<close>

datatype receiver = Outside | Resetting u64 u64 | Popping u64 u64 | Checked u64
  | ReadSignalled u64 | ReadUnblocked u64 | StoreBlocking u64 | Asleep u64 | ClearBlocking u64 | Awake u64

fun locks_port :: "receiver \<Rightarrow> bool" where
  "locks_port (Resetting n u) = True"
| "locks_port (Popping n u) = True"
| "locks_port _ = False"

fun preparing :: "receiver \<Rightarrow> bool" where
  "preparing (ReadSignalled n) = True"
| "preparing (ReadUnblocked n) = True"
| "preparing (StoreBlocking n) = True"
| "preparing _ = False"

fun locks_thread :: "receiver \<Rightarrow> bool" where
  "locks_thread (ClearBlocking n) = True"
| "locks_thread r = preparing r"

fun sleeps :: "receiver \<Rightarrow> bool" where
  "sleeps (Asleep n) = True"
| "sleeps _ = False"

datatype block_state = BlockNone | Blocking | BlockUnblocked | BlockTimeout | BlockAborted

text \<open>
  \<open>announcing\<close> holds a sender for every message that was queued and whose announcement has not ended.
  The last fields are a history: the messages sent and received, with the sizes of the buffers, the
  number of receptions after blocking, whether an attempt to block was ever aborted, whether an
  announcement was ever under way while the receiver prepared to block, and whether an announcement
  has begun since the receiver fell asleep.
\<close>

record port_run =
  pr_port :: port
  pr_recv :: receiver
  pr_thread :: nat
  pr_block :: block_state
  announcing :: "announce multiset"
  sent :: "(u64 \<times> u8 list) list"
  got :: "(u64 \<times> u8 list \<times> u64) list"
  slow :: nat
  aborted :: bool
  overlapped :: bool
  begun :: bool

definition port_start :: "nat \<Rightarrow> port_run" where
  "port_start t = \<lparr>pr_port = port_alloc, pr_recv = Outside, pr_thread = t, pr_block = BlockNone, announcing = {#},
     sent = [], got = [], slow = 0, aborted = False, overlapped = False, begun = False\<rparr>"

definition notifying :: "port_run \<Rightarrow> nat" where
  "notifying s = size (announcing s)"

definition woken :: "port_run \<Rightarrow> bool" where
  "woken s = (pr_block s = BlockUnblocked)"

text \<open>The parts of \<^verbatim>\<open>receive\<close> with what they record.\<close>

definition record_got :: "received \<Rightarrow> u64 \<Rightarrow> (u64 \<times> u8 list \<times> u64) list \<Rightarrow> (u64 \<times> u8 list \<times> u64) list" where
  "record_got r n g = (case r of Got from bytes \<Rightarrow> g @ [(from, bytes, n)] | _ \<Rightarrow> g)"

fun still :: "announce option \<Rightarrow> announce multiset \<Rightarrow> announce multiset" where
  "still None A = A"
| "still (Some a) A = add_mset a A"

inductive port_step :: "port_run \<Rightarrow> port_run \<Rightarrow> bool" where
  enqueue: "\<not> locks_port (pr_recv s) \<Longrightarrow>
    length bytes \<le> unat kMaxMsgLen \<Longrightarrow> el \<notin> dom (elems (messages (pr_port s))) \<Longrightarrow> b \<notin> dom (blocks (pr_port s)) \<Longrightarrow>
    send_locked el (Some b) now thread bytes (pr_port s) = Inr (0, p) \<Longrightarrow>
    port_step s (s\<lparr>pr_port := p, announcing := add_mset TestBlocker (announcing s), sent := sent s @ [(thread, bytes)]\<rparr>)"
| announce: "announcing s = add_mset a A \<Longrightarrow> \<forall>t. a \<noteq> Unblock t \<Longrightarrow> announce_step a (pr_port s) = Inr (a', p) \<Longrightarrow>
    port_step s (s\<lparr>pr_port := p, announcing := still a' A,
      overlapped := (overlapped s \<or> a = TestBlocker \<and> preparing (pr_recv s)),
      begun := (begun s \<or> a = TestBlocker \<and> sleeps (pr_recv s))\<rparr>)"
| unblock: "announcing s = add_mset (Unblock t) A \<Longrightarrow> \<not> locks_thread (pr_recv s) \<Longrightarrow>
    port_step s (s\<lparr>announcing := A, pr_block := (if t = pr_thread s then BlockUnblocked else pr_block s)\<rparr>)"
| depth: "\<not> locks_port (pr_recv s) \<Longrightarrow> port_step s (s\<lparr>pr_port := setQueueDepth d (pr_port s)\<rparr>)"
| lock: "pr_recv s = Outside \<Longrightarrow>
    port_step s (s\<lparr>pr_port := clear_unblocked (pr_port s), pr_recv := Resetting n u\<rparr>)"
| reset: "pr_recv s = Resetting n u \<Longrightarrow>
    port_step s (s\<lparr>pr_port := clear_signalled (pr_port s), pr_recv := Popping n u\<rparr>)"
| first: "pr_recv s = Popping n u \<Longrightarrow> receive_locked n u (pr_port s) = Some (Inr (r, p)) \<Longrightarrow>
    port_step s (s\<lparr>pr_port := p, pr_recv := (if r = MustBlock then Checked n else Outside), got := record_got r n (got s)\<rparr>)"
| block: "pr_recv s = Checked n \<Longrightarrow>
    port_step s (s\<lparr>pr_port := set_blocker (pr_thread s) (pr_port s), pr_recv := ReadSignalled n,
      overlapped := (overlapped s \<or> (\<exists>a \<in># announcing s. a \<noteq> TestBlocker))\<rparr>)"
| not_signalled: "pr_recv s = ReadSignalled n \<Longrightarrow> \<not> signalled (pr_port s) \<Longrightarrow> port_step s (s\<lparr>pr_recv := ReadUnblocked n\<rparr>)"
| not_unblocked: "pr_recv s = ReadUnblocked n \<Longrightarrow> \<not> unblockedSignalled (pr_port s) \<Longrightarrow> port_step s (s\<lparr>pr_recv := StoreBlocking n\<rparr>)"
| block_abort: "pr_recv s = ReadSignalled n \<and> signalled (pr_port s) \<or> pr_recv s = ReadUnblocked n \<and> unblockedSignalled (pr_port s) \<Longrightarrow>
    port_step s (s\<lparr>pr_recv := Awake n, pr_block := BlockAborted, aborted := True\<rparr>)"
| sleep: "pr_recv s = StoreBlocking n \<Longrightarrow>
    port_step s (s\<lparr>pr_port := set_blocking (pr_port s), pr_recv := Asleep n, pr_block := Blocking, begun := False\<rparr>)"
| wake: "pr_recv s = Asleep n \<Longrightarrow> pr_block s = BlockUnblocked \<Longrightarrow>
    port_step s (s\<lparr>pr_port := clear_blocker (pr_port s), pr_recv := ClearBlocking n\<rparr>)"
| unblocked: "pr_recv s = ClearBlocking n \<Longrightarrow>
    port_step s (s\<lparr>pr_port := clear_blocking (pr_port s), pr_recv := Awake n\<rparr>)"
| second: "pr_recv s = Awake n \<Longrightarrow> receive_second n (pr_port s) = Some (Inr (r, p)) \<Longrightarrow>
    port_step s (s\<lparr>pr_port := p, pr_recv := Outside, got := record_got r n (got s), slow := slow s + (case r of Got _ _ \<Rightarrow> 1 | _ \<Rightarrow> 0)\<rparr>)"

inductive port_reach :: "port_run \<Rightarrow> bool" where
  start: "port_reach (port_start t)"
| step: "port_reach s \<Longrightarrow> port_step s s' \<Longrightarrow> port_reach s'"

text \<open>
  The steps as functions, for schedules that are run: a sender queues the bytes with the element and
  the block of the heap it gets, the sender at the given place takes its next step, or the receiver does.
\<close>

datatype port_act = Send addr addr u64 "u8 list" | Announce announce | Receive u64 u64

fun port_do :: "port_act \<Rightarrow> port_run \<Rightarrow> port_run option" where
  "port_do (Send el b thread bytes) s =
     (if \<not> locks_port (pr_recv s) \<and> int (length bytes) \<le> uint kMaxMsgLen \<and> elems (messages (pr_port s)) el = None \<and> blocks (pr_port s) b = None
      then case send_locked el (Some b) 0 thread bytes (pr_port s) of
          Inr (st, p) \<Rightarrow> if st = 0 then Some (s\<lparr>pr_port := p, announcing := add_mset TestBlocker (announcing s), sent := sent s @ [(thread, bytes)]\<rparr>) else None
        | Inl f \<Rightarrow> None
      else None)"
| "port_do (Announce a) s =
     (if a \<in># announcing s then
        case a of Unblock t \<Rightarrow>
            if locks_thread (pr_recv s) then None
            else Some (s\<lparr>announcing := announcing s - {#a#}, pr_block := (if t = pr_thread s then BlockUnblocked else pr_block s)\<rparr>)
        | _ \<Rightarrow> (case announce_step a (pr_port s) of Inl f \<Rightarrow> None
            | Inr (a', p) \<Rightarrow> Some (s\<lparr>pr_port := p, announcing := still a' (announcing s - {#a#}),
                overlapped := (overlapped s \<or> a = TestBlocker \<and> preparing (pr_recv s)),
                begun := (begun s \<or> a = TestBlocker \<and> sleeps (pr_recv s))\<rparr>))
      else None)"
| "port_do (Receive n u) s =
     (case pr_recv s of
        Outside \<Rightarrow> Some (s\<lparr>pr_port := clear_unblocked (pr_port s), pr_recv := Resetting n u\<rparr>)
      | Resetting n u \<Rightarrow> Some (s\<lparr>pr_port := clear_signalled (pr_port s), pr_recv := Popping n u\<rparr>)
      | Popping n u \<Rightarrow> (case receive_locked n u (pr_port s) of Some (Inr (r, p)) \<Rightarrow>
            Some (s\<lparr>pr_port := p, pr_recv := (if r = MustBlock then Checked n else Outside), got := record_got r n (got s)\<rparr>) | _ \<Rightarrow> None)
      | Checked n \<Rightarrow> Some (s\<lparr>pr_port := set_blocker (pr_thread s) (pr_port s), pr_recv := ReadSignalled n,
            overlapped := (overlapped s \<or> (\<exists>a \<in># announcing s. a \<noteq> TestBlocker))\<rparr>)
      | ReadSignalled n \<Rightarrow> Some (if signalled (pr_port s) then s\<lparr>pr_recv := Awake n, pr_block := BlockAborted, aborted := True\<rparr>
            else s\<lparr>pr_recv := ReadUnblocked n\<rparr>)
      | ReadUnblocked n \<Rightarrow> Some (if unblockedSignalled (pr_port s) then s\<lparr>pr_recv := Awake n, pr_block := BlockAborted, aborted := True\<rparr>
            else s\<lparr>pr_recv := StoreBlocking n\<rparr>)
      | StoreBlocking n \<Rightarrow> Some (s\<lparr>pr_port := set_blocking (pr_port s), pr_recv := Asleep n, pr_block := Blocking, begun := False\<rparr>)
      | Asleep n \<Rightarrow> if pr_block s = BlockUnblocked then Some (s\<lparr>pr_port := clear_blocker (pr_port s), pr_recv := ClearBlocking n\<rparr>) else None
      | ClearBlocking n \<Rightarrow> Some (s\<lparr>pr_port := clear_blocking (pr_port s), pr_recv := Awake n\<rparr>)
      | Awake n \<Rightarrow> (case receive_second n (pr_port s) of Some (Inr (r, p)) \<Rightarrow>
            Some (s\<lparr>pr_port := p, pr_recv := Outside, got := record_got r n (got s), slow := slow s + (case r of Got _ _ \<Rightarrow> 1 | _ \<Rightarrow> 0)\<rparr>) | _ \<Rightarrow> None))"

fun port_sched :: "port_act list \<Rightarrow> port_run \<Rightarrow> port_run option" where
  "port_sched [] s = Some s"
| "port_sched (x # xs) s = Option.bind (port_do x s) (port_sched xs)"

section \<open>Messages in the queue\<close>

definition msg_ok :: "(addr \<rightharpoonup> u8 list) \<Rightarrow> message \<Rightarrow> bool" where
  "msg_ok bl m \<longleftrightarrow> ownsContent m \<and> (\<exists>b bytes. content m = Some b \<and> bl b = Some bytes \<and> length bytes \<le> unat kMaxMsgLen
     \<and> contentLen m = of_nat (length bytes))"

definition msg_view :: "(addr \<rightharpoonup> u8 list) \<Rightarrow> message \<Rightarrow> u64 \<times> u8 list" where
  "msg_view bl m = (sender m, the (bl (the (content m))))"

text \<open>The port holds the messages \<open>ms\<close>, and \<open>n\<close> more blocks of the heap that belong to no message.\<close>

definition port_holds :: "port \<Rightarrow> message list \<Rightarrow> nat \<Rightarrow> bool" where
  "port_holds p ms n \<longleftrightarrow> list_rep (messages p) ms \<and> (\<forall>m \<in> set ms. msg_ok (blocks p) m) \<and> distinct (map content ms)
     \<and> finite (dom (blocks p)) \<and> card (dom (blocks p)) = length ms + n"

lemma list_is_empty_rep: "list_rep q xs \<Longrightarrow> list_is_empty q = (xs = [])"
  using list_rep_size [of q xs] by (auto simp: list_is_empty_def)

lemma msg_ok_upd: "msg_ok bl m \<Longrightarrow> content m \<noteq> Some b \<Longrightarrow> msg_ok (bl(b := v)) m"
  by (auto simp: msg_ok_def)

lemma msg_view_upd: "msg_ok bl m \<Longrightarrow> content m \<noteq> Some b \<Longrightarrow> msg_view (bl(b := v)) m = msg_view bl m"
  by (auto simp: msg_ok_def msg_view_def)

lemma msg_ok_content: "msg_ok bl m \<Longrightarrow> bl b = None \<Longrightarrow> content m \<noteq> Some b"
  by (auto simp: msg_ok_def)

lemma unat_msg_len: "length bytes \<le> unat kMaxMsgLen \<Longrightarrow> unat (of_nat (length bytes) :: u64) = length bytes"
  by (simp add: kMaxMsgLen_def unat_of_nat)

lemma send_locked_holds:
  assumes h: "port_holds p ms n" and len: "length bytes \<le> unat kMaxMsgLen"
    and el: "el \<notin> dom (elems (messages p))" and b: "b \<notin> dom (blocks p)"
    and run: "send_locked el (Some b) now thread bytes p = Inr (0, p')"
  shows "\<exists>m. port_holds p' (ms @ [m]) n \<and> map (msg_view (blocks p')) (ms @ [m]) = map (msg_view (blocks p)) ms @ [(thread, bytes)]
    \<and> p' = p\<lparr>messages := messages p', blocks := blocks p', totalSent := totalSent p + 1\<rparr>"
proof -
  let ?m = "\<lparr>timestamp = now, sender = thread, contentLen = of_nat (length bytes), content = Some b, ownsContent = True\<rparr>"
  have rep: "list_rep (messages p) ms" and ok: "\<forall>m \<in> set ms. msg_ok (blocks p) m"
    using h by (simp_all add: port_holds_def)
  obtain q where q: "queue_push_back el ?m (messages p) = Inr q" "list_rep q (ms @ [?m])"
    using kernel_queue.push_rep [OF rep el] by blast
  have p': "p' = p\<lparr>messages := q, blocks := (blocks p)(b \<mapsto> bytes), totalSent := totalSent p + 1\<rparr>"
    using run q(1) by (auto simp: send_locked_def message_create_def split: if_splits)
  have other: "\<forall>m \<in> set ms. content m \<noteq> Some b"
    using ok b msg_ok_content by blast
  have "\<forall>m \<in> set (ms @ [?m]). msg_ok ((blocks p)(b \<mapsto> bytes)) m"
    using ok other msg_ok_upd len by (auto simp: msg_ok_def)
  moreover have "distinct (map content (ms @ [?m]))"
    using h other by (force simp: port_holds_def)
  moreover have "card (dom ((blocks p)(b \<mapsto> bytes))) = length (ms @ [?m]) + n"
    using h b by (simp add: port_holds_def)
  ultimately have "port_holds p' (ms @ [?m]) n"
    using q(2) h unfolding p' by (simp add: port_holds_def)
  moreover have "map (msg_view ((blocks p)(b \<mapsto> bytes))) (ms @ [?m]) = map (msg_view (blocks p)) ms @ [(thread, bytes)]"
    using ok other msg_view_upd by (auto simp: msg_view_def)
  ultimately show ?thesis
    unfolding p' by (intro exI [of _ ?m]) simp
qed

lemma take_message_holds:
  assumes h: "port_holds p (m # ms) n"
  shows "\<exists>q. take_message k p = Some (Inr ((fst (msg_view (blocks p) m), take (unat k) (snd (msg_view (blocks p) m))), m,
        p\<lparr>messages := q, totalReceived := totalReceived p + 1\<rparr>)) \<and> list_rep q ms"
proof -
  obtain q where q: "queue_pop (messages p) = Some (Inr (m, q))" "list_rep q ms"
    using kernel_queue.pop_rep [of "messages p" m ms] h by (auto simp: port_holds_def)
  obtain b bytes where m: "content m = Some b" "blocks p b = Some bytes" "length bytes \<le> unat kMaxMsgLen" "contentLen m = of_nat (length bytes)"
    using h by (auto simp: port_holds_def msg_ok_def)
  have "take (unat (if contentLen m > k then k else contentLen m)) bytes = take (unat k) bytes"
    using unat_msg_len [OF m(3)] m(4) by (auto simp: word_less_nat_alt)
  then show ?thesis
    using q m(1,2) by (intro exI [of _ q]) (simp add: take_message_def msg_view_def Let_def)
qed

lemma done_holds:
  assumes h: "port_holds p (m # ms) n" and q: "list_rep q ms"
  shows "port_holds (snd (message_done m (p\<lparr>messages := q, totalReceived := r\<rparr>))) ms n"
    "map (msg_view (blocks (snd (message_done m (p\<lparr>messages := q, totalReceived := r\<rparr>))))) ms = map (msg_view (blocks p)) ms"
proof -
  have ok: "\<forall>x \<in> set (m # ms). msg_ok (blocks p) x" "distinct (map content (m # ms))" "finite (dom (blocks p))"
      "card (dom (blocks p)) = length (m # ms) + n"
    using h by (simp_all add: port_holds_def)
  obtain b bytes where b: "content m = Some b" "blocks p b = Some bytes" "ownsContent m"
    using ok(1) by (auto simp: msg_ok_def)
  have other: "\<forall>x \<in> set ms. content x \<noteq> Some b"
    using ok(2) b(1) by force
  have freed: "snd (message_done m (p\<lparr>messages := q, totalReceived := r\<rparr>)) =
      p\<lparr>messages := q, totalReceived := r, blocks := (blocks p)(b := None)\<rparr>"
    using b by (simp add: message_done_def)
  have "dom ((blocks p)(b := None)) = dom (blocks p) - {b}" "b \<in> dom (blocks p)"
    using b(2) by auto
  then have "card (dom ((blocks p)(b := None))) = length ms + n"
    using ok(3,4) by simp
  then show "port_holds (snd (message_done m (p\<lparr>messages := q, totalReceived := r\<rparr>))) ms n"
    unfolding freed port_holds_def using q ok other msg_ok_upd by auto
  show "map (msg_view (blocks (snd (message_done m (p\<lparr>messages := q, totalReceived := r\<rparr>))))) ms = map (msg_view (blocks p)) ms"
    unfolding freed using ok(1) other msg_view_upd by auto
qed

section \<open>Delivery\<close>

text \<open>What was received is what was sent, cut to the size of the receiver's buffer.\<close>

definition cut :: "u64 \<times> u8 list \<Rightarrow> u64 \<times> u8 list \<times> u64 \<Rightarrow> bool" where
  "cut x y = (case y of (from, bytes, n) \<Rightarrow> from = fst x \<and> bytes = take (unat n) (snd x))"

definition port_inv :: "port_run \<Rightarrow> bool" where
  "port_inv s \<longleftrightarrow> (\<exists>ms d. port_holds (pr_port s) ms (slow s) \<and> sent s = d @ map (msg_view (blocks (pr_port s))) ms
     \<and> list_all2 cut d (got s)
     \<and> totalSent (pr_port s) = of_nat (length (sent s)) \<and> totalReceived (pr_port s) = of_nat (length (got s)))"

text \<open>Changing only the fields of the blocker and the depth changes nothing here.\<close>

lemma port_holds_same:
  "messages p' = messages p \<Longrightarrow> blocks p' = blocks p \<Longrightarrow> port_holds p' ms n = port_holds p ms n"
  by (simp add: port_holds_def)

lemma port_inv_same:
  assumes "port_inv s" "messages p = messages (pr_port s)" "blocks p = blocks (pr_port s)"
    "totalSent p = totalSent (pr_port s)" "totalReceived p = totalReceived (pr_port s)"
    "sent s' = sent s" "got s' = got s" "slow s' = slow s" "pr_port s' = p"
  shows "port_inv s'"
  using assms port_holds_same [of p "pr_port s"] unfolding port_inv_def by simp

text \<open>The first part: it delivers the first message and frees its block, or leaves the queue as it is.\<close>

lemma receive_locked_ok:
  assumes h: "port_holds p ms n"
  shows "case ms of
      [] \<Rightarrow> receive_locked k u p = Some (Inr (if u = 0 then Status (-1) else MustBlock, p))
    | m # ms' \<Rightarrow> \<exists>p'. receive_locked k u p = Some (Inr (Got (fst (msg_view (blocks p) m)) (take (unat k) (snd (msg_view (blocks p) m))), p'))
        \<and> port_holds p' ms' n \<and> map (msg_view (blocks p')) ms' = map (msg_view (blocks p)) ms'
        \<and> p' = p\<lparr>messages := messages p', blocks := blocks p', totalReceived := totalReceived p + 1\<rparr>"
proof (cases ms)
  case Nil
  then have "list_is_empty (messages p)"
    using h list_is_empty_rep by (auto simp: port_holds_def)
  then show ?thesis
    using Nil by (simp add: receive_locked_def)
next
  case (Cons m ms')
  have h': "port_holds p (m # ms') n"
    using h Cons by simp
  then obtain q where q: "take_message k p = Some (Inr ((fst (msg_view (blocks p) m), take (unat k) (snd (msg_view (blocks p) m))), m,
        p\<lparr>messages := q, totalReceived := totalReceived p + 1\<rparr>))" "list_rep q ms'"
    using take_message_holds by blast
  have ne: "\<not> list_is_empty (messages p)"
    using h' list_is_empty_rep by (auto simp: port_holds_def)
  define p' where "p' = snd (message_done m (p\<lparr>messages := q, totalReceived := totalReceived p + 1\<rparr>))"
  have "p' = p\<lparr>messages := messages p', blocks := blocks p', totalReceived := totalReceived p + 1\<rparr>"
    by (simp add: p'_def message_done_def split: option.splits)
  moreover have "receive_locked k u p = Some (Inr (Got (fst (msg_view (blocks p) m)) (take (unat k) (snd (msg_view (blocks p) m))), p'))"
    using q(1) ne by (simp add: receive_locked_def p'_def)
  ultimately show ?thesis
    using Cons done_holds [OF h' q(2), of "totalReceived p + 1"] unfolding p'_def [symmetric] by auto
qed

text \<open>The second part: it delivers the first message but its block stays allocated.\<close>

lemma receive_second_ok:
  assumes h: "port_holds p ms n"
  shows "case ms of
      [] \<Rightarrow> receive_second k p = Some (Inr (Status (-1), p))
    | m # ms' \<Rightarrow> \<exists>q. receive_second k p = Some (Inr (Got (fst (msg_view (blocks p) m)) (take (unat k) (snd (msg_view (blocks p) m))),
          p\<lparr>messages := q, totalReceived := totalReceived p + 1\<rparr>))
        \<and> port_holds (p\<lparr>messages := q, totalReceived := totalReceived p + 1\<rparr>) ms' (Suc n)"
proof (cases ms)
  case Nil
  then have "list_is_empty (messages p)"
    using h list_is_empty_rep by (auto simp: port_holds_def)
  then show ?thesis
    using Nil by (simp add: receive_second_def)
next
  case (Cons m ms')
  obtain q where q: "take_message k p = Some (Inr ((fst (msg_view (blocks p) m), take (unat k) (snd (msg_view (blocks p) m))), m,
        p\<lparr>messages := q, totalReceived := totalReceived p + 1\<rparr>))" "list_rep q ms'"
    using take_message_holds h unfolding Cons by blast
  have "\<not> list_is_empty (messages p)"
    using h Cons list_is_empty_rep by (auto simp: port_holds_def)
  then have "receive_second k p = Some (Inr (Got (fst (msg_view (blocks p) m)) (take (unat k) (snd (msg_view (blocks p) m))),
          p\<lparr>messages := q, totalReceived := totalReceived p + 1\<rparr>))"
    using q(1) by (simp add: receive_second_def)
  moreover have "port_holds (p\<lparr>messages := q, totalReceived := totalReceived p + 1\<rparr>) ms' (Suc n)"
    using h q(2) unfolding Cons by (simp add: port_holds_def)
  ultimately show ?thesis
    using Cons by auto
qed

lemma delivered_inv:
  assumes holds: "port_holds p' ms' n" and views: "map (msg_view (blocks p')) ms' = vs"
    and sent: "sent s = d @ v # vs" and cut: "list_all2 cut d (got s)" "cut v x"
    and counts: "totalSent p' = of_nat (length (sent s))" "totalReceived p' = of_nat (length (got s)) + 1"
    and s': "pr_port s' = p'" "sent s' = sent s" "got s' = got s @ [x]" "slow s' = n"
  shows "port_inv s'"
proof -
  have "sent s' = (d @ [v]) @ map (msg_view (blocks p')) ms'"
    using s'(2) sent views by simp
  moreover have "list_all2 cut (d @ [v]) (got s')"
    unfolding s'(3) using cut by (simp add: list_all2_appendI)
  ultimately show ?thesis
    unfolding port_inv_def using holds counts s' by (intro exI [of _ ms'] exI [of _ "d @ [v]"]) simp
qed

lemma announce_step_same:
  assumes "announce_step a p = Inr (a', p')"
  shows "messages p' = messages p" "blocks p' = blocks p" "totalSent p' = totalSent p" "totalReceived p' = totalReceived p"
  using assms by (cases a; auto split: option.splits)+

lemma port_step_inv:
  assumes "port_step s s'" "port_inv s"
  shows "port_inv s'"
proof -
  obtain ms d where h: "port_holds (pr_port s) ms (slow s)" "sent s = d @ map (msg_view (blocks (pr_port s))) ms"
      "list_all2 cut d (got s)" "totalSent (pr_port s) = of_nat (length (sent s))" "totalReceived (pr_port s) = of_nat (length (got s))"
    using assms(2) unfolding port_inv_def by blast
  show ?thesis
    using assms(1)
  proof cases
    case (enqueue bytes el b now thread p)
    obtain m where m: "port_holds p (ms @ [m]) (slow s)" "map (msg_view (blocks p)) (ms @ [m]) = map (msg_view (blocks (pr_port s))) ms @ [(thread, bytes)]"
        "p = (pr_port s)\<lparr>messages := messages p, blocks := blocks p, totalSent := totalSent (pr_port s) + 1\<rparr>"
      using send_locked_holds [OF h(1) enqueue(3,4,5,6)] by blast
    have "totalSent p = totalSent (pr_port s) + 1" "totalReceived p = totalReceived (pr_port s)"
      using arg_cong [OF m(3), of totalSent] arg_cong [OF m(3), of totalReceived] by simp_all
    then show ?thesis
      unfolding port_inv_def enqueue(1) using m(1,2) h by (intro exI [of _ "ms @ [m]"] exI [of _ d]) simp
  next
    case (first n u r p)
    show ?thesis
    proof (cases ms)
      case Nil
      then have "r \<in> {Status (-1), MustBlock}" "p = pr_port s"
        using receive_locked_ok [OF h(1), of n u] first(3) by (simp_all split: if_splits)
      then show ?thesis
        using port_inv_same [OF assms(2), of p s'] first(1) by (auto simp: record_got_def)
    next
      case (Cons m ms')
      let ?v = "msg_view (blocks (pr_port s)) m"
      have p: "r = Got (fst ?v) (take (unat n) (snd ?v))" "port_holds p ms' (slow s)"
          "map (msg_view (blocks p)) ms' = map (msg_view (blocks (pr_port s))) ms'"
          "p = (pr_port s)\<lparr>messages := messages p, blocks := blocks p, totalReceived := totalReceived (pr_port s) + 1\<rparr>"
        using receive_locked_ok [OF h(1), of n u] first(3) Cons by auto
      have t: "totalSent p = totalSent (pr_port s)" "totalReceived p = totalReceived (pr_port s) + 1"
        using arg_cong [OF p(4), of totalSent] arg_cong [OF p(4), of totalReceived] by simp_all
      have d: "sent s = d @ ?v # map (msg_view (blocks (pr_port s))) ms'"
        using h(2) Cons by simp
      show ?thesis
        unfolding first(1) by (rule delivered_inv [OF p(2,3) d h(3), of "(fst ?v, take (unat n) (snd ?v), n)"])
          (use t h(4,5) p(1) in \<open>simp_all add: cut_def record_got_def\<close>)
    qed
  next
    case (second n r p)
    show ?thesis
    proof (cases ms)
      case Nil
      then have "r = Status (-1)" "p = pr_port s"
        using receive_second_ok [OF h(1), of n] second(3) by simp_all
      then show ?thesis
        using port_inv_same [OF assms(2), of p s'] second(1) by (simp add: record_got_def)
    next
      case (Cons m ms')
      let ?v = "msg_view (blocks (pr_port s)) m"
      obtain q where p: "r = Got (fst ?v) (take (unat n) (snd ?v))" "p = (pr_port s)\<lparr>messages := q, totalReceived := totalReceived (pr_port s) + 1\<rparr>"
          "port_holds p ms' (Suc (slow s))"
        using receive_second_ok [OF h(1), of n] second(3) Cons by auto
      have v: "map (msg_view (blocks p)) ms' = map (msg_view (blocks (pr_port s))) ms'"
        unfolding p(2) by simp
      have d: "sent s = d @ ?v # map (msg_view (blocks (pr_port s))) ms'"
        using h(2) Cons by simp
      show ?thesis
        unfolding second(1) by (rule delivered_inv [OF p(3) v d h(3), of "(fst ?v, take (unat n) (snd ?v), n)"])
          (use p(1,2) h(4,5) in \<open>simp_all add: cut_def record_got_def\<close>)
    qed
  next
    case (announce a A a' p)
    then show ?thesis
      using port_inv_same [OF assms(2), of p s'] announce_step_same [OF announce(4)] by simp
  qed (rule port_inv_same [OF assms(2) _ _ _ _ _ _ _ refl]; simp add: setQueueDepth_def clear_unblocked_def clear_signalled_def
      clear_blocker_def clear_blocking_def set_blocker_def set_blocking_def)+
qed

lemma port_start_inv: "port_inv (port_start t)"
  using list_rep_empty by (simp add: port_inv_def port_holds_def port_start_def port_alloc_def)

lemma port_reach_inv: "port_reach s \<Longrightarrow> port_inv s"
  by (induction rule: port_reach.induct) (auto intro: port_start_inv port_step_inv)

section \<open>Wake-ups\<close>

text \<open>Senders that will unblock the thread.\<close>

definition winning :: "announce multiset \<Rightarrow> bool" where
  "winning A \<longleftrightarrow> LoadBlocker \<in># A \<or> (\<exists>t. Unblock t \<in># A)"

definition threads_ok :: "port_run \<Rightarrow> bool" where
  "threads_ok s \<longleftrightarrow> (\<forall>t. blocker (pr_port s) = Some t \<longrightarrow> t = pr_thread s) \<and> (\<forall>t. Unblock t \<in># announcing s \<longrightarrow> t = pr_thread s)"

text \<open>From the test of \<open>signalled\<close> on, whoever sets it goes on to unblock the receiver.\<close>

definition sleep_inv :: "port_run \<Rightarrow> bool" where
  "sleep_inv s \<longleftrightarrow> (let p = pr_port s; A = announcing s in case pr_recv s of
       ReadSignalled n \<Rightarrow> blocker p \<noteq> None
     | ReadUnblocked n \<Rightarrow> blocker p \<noteq> None \<and> (signalled p \<longrightarrow> winning A)
     | StoreBlocking n \<Rightarrow> blocker p \<noteq> None \<and> (signalled p \<longrightarrow> winning A)
     | Asleep n \<Rightarrow> blocker p \<noteq> None \<and> isBlocking p \<and> (signalled p \<longrightarrow> woken s \<or> winning A)
         \<and> (begun s \<longrightarrow> woken s \<or> signalled p \<or> TestBlocking \<in># A \<or> TestSignalled \<in># A)
     | _ \<Rightarrow> True)"

text \<open>
  As long as no attempt to block was aborted and none overlapped with an announcement, a message in the
  queue of a thread that is about to sleep is announced.
\<close>

definition quiet_inv :: "port_run \<Rightarrow> bool" where
  "quiet_inv s \<longleftrightarrow> aborted s \<or> overlapped s \<or> (let p = pr_port s; A = announcing s in case pr_recv s of
       Checked n \<Rightarrow> blocker p = None \<and> (messagesPending p \<longrightarrow> TestBlocker \<in># A \<or> SetUnblocked \<in># A \<or> unblockedSignalled p)
     | ReadSignalled n \<Rightarrow> messagesPending p \<longrightarrow> TestBlocker \<in># A \<or> unblockedSignalled p
     | ReadUnblocked n \<Rightarrow> messagesPending p \<longrightarrow> TestBlocker \<in># A \<or> unblockedSignalled p
     | StoreBlocking n \<Rightarrow> messagesPending p \<longrightarrow> TestBlocker \<in># A
     | Asleep n \<Rightarrow> messagesPending p \<longrightarrow> TestBlocker \<in># A \<or> begun s
     | _ \<Rightarrow> blocker p = None)"

lemma take_message_fields:
  "take_message k p = Some (Inr (x, m, p')) \<Longrightarrow> \<exists>q. p' = p\<lparr>messages := q, totalReceived := totalReceived p + 1\<rparr>"
  by (auto simp: take_message_def dbind_def Let_def split: Option.bind_splits sum.splits)

lemma receive_locked_fields:
  assumes "receive_locked n u p = Some (Inr (r, p'))"
  shows "blocker p' = blocker p" "r = MustBlock \<Longrightarrow> \<not> messagesPending p'"
  using assms by (auto simp: receive_locked_def dbind_def message_done_def messagesPending_def
      split: Option.bind_splits sum.splits if_splits option.splits dest!: take_message_fields)

lemma receive_second_fields:
  "receive_second n p = Some (Inr (r, p')) \<Longrightarrow> blocker p' = blocker p"
  by (auto simp: receive_second_def dbind_def split: Option.bind_splits sum.splits if_splits dest!: take_message_fields)

lemma send_locked_fields:
  assumes "send_locked el b now thread bytes p = Inr (st, p')"
  shows "blocker p' = blocker p" "isBlocking p' = isBlocking p" "signalled p' = signalled p" "unblockedSignalled p' = unblockedSignalled p"
  using assms by (auto simp: send_locked_def message_create_def obind_def split: if_splits option.splits sum.splits)

lemmas port_access = clear_unblocked_def clear_signalled_def clear_blocker_def clear_blocking_def set_blocker_def set_blocking_def
  setQueueDepth_def messagesPending_def

lemma threads_step:
  assumes "port_step s s'" "threads_ok s"
  shows "threads_ok s'"
  using assms(1)
proof cases
  case (enqueue bytes el b now thread p)
  then show ?thesis
    using assms(2) send_locked_fields(1) [OF enqueue(6)] by (simp add: threads_ok_def)
next
  case (announce a A a' p)
  then show ?thesis
    using assms(2) by (cases a) (auto simp: threads_ok_def split: option.splits if_splits)
next
  case (unblock t A)
  then show ?thesis
    using assms(2) by (auto simp: threads_ok_def)
next
  case (first n u r p)
  then show ?thesis
    using assms(2) receive_locked_fields(1) [OF first(3)] by (simp add: threads_ok_def)
next
  case (second n r p)
  then show ?thesis
    using assms(2) receive_second_fields [OF second(3)] by (simp add: threads_ok_def)
qed (use assms(2) in \<open>simp_all add: threads_ok_def port_access\<close>)

lemma sleep_step:
  assumes "port_step s s'" "sleep_inv s" "threads_ok s"
  shows "sleep_inv s'"
  using assms(1)
proof cases
  case (enqueue bytes el b now thread p)
  then show ?thesis
    using assms(2) send_locked_fields [OF enqueue(6)]
    by (cases "pr_recv s") (simp_all add: sleep_inv_def winning_def woken_def Let_def)
next
  case (announce a A a' p)
  then show ?thesis
    using assms(2) unfolding sleep_inv_def Let_def
    by (cases "pr_recv s"; cases a) (auto simp: winning_def woken_def split: option.splits if_splits)
next
  case (unblock t A)
  then have "t = pr_thread s"
    using assms(3) by (simp add: threads_ok_def)
  then show ?thesis
    using unblock assms(2) by (cases "pr_recv s") (simp_all add: sleep_inv_def winning_def woken_def Let_def)
next
  case (depth d)
  then show ?thesis
    using assms(2) by (cases "pr_recv s") (simp_all add: sleep_inv_def woken_def port_access Let_def)
qed (use assms(2) in \<open>simp_all add: sleep_inv_def woken_def port_access Let_def\<close>)

lemma quiet_step:
  assumes "port_step s s'" "quiet_inv s"
  shows "quiet_inv s'"
  using assms(1)
proof cases
  case (enqueue bytes el b now thread p)
  then show ?thesis
    using assms(2) send_locked_fields [OF enqueue(6)] by (auto simp: quiet_inv_def Let_def split: receiver.splits)
next
  case (announce a A a' p)
  then show ?thesis
    using assms(2) by (cases a) (auto simp: quiet_inv_def messagesPending_def Let_def split: receiver.splits option.splits if_splits)
next
  case (unblock t A)
  then show ?thesis
    using assms(2) by (auto simp: quiet_inv_def Let_def split: receiver.splits)
next
  case (first n u r p)
  then show ?thesis
    using assms(2) receive_locked_fields [OF first(3)] by (auto simp: quiet_inv_def Let_def)
next
  case (block n)
  then show ?thesis
    using assms(2) by (auto simp: quiet_inv_def Let_def port_access)
next
  case (second n r p)
  then show ?thesis
    using assms(2) receive_second_fields [OF second(3)] by (auto simp: quiet_inv_def)
qed (use assms(2) in \<open>auto simp: quiet_inv_def Let_def port_access split: receiver.splits\<close>)

lemma wake_reach: "port_reach s \<Longrightarrow> threads_ok s \<and> sleep_inv s \<and> quiet_inv s"
proof (induction rule: port_reach.induct)
  case (start t)
  show ?case
    by (simp add: sleep_inv_def quiet_inv_def threads_ok_def port_start_def port_alloc_def)
next
  case (step s s')
  then show ?case
    using threads_step sleep_step quiet_step by blast
qed

lemma sleeper_announced:
  assumes "sleep_inv s" "pr_recv s = Asleep n" "begun s \<or> TestBlocker \<in># announcing s"
  shows "woken s \<or> (\<exists>a \<in># announcing s. a \<noteq> SetUnblocked)"
  using assms unfolding sleep_inv_def winning_def Let_def by auto

section \<open>Schedules\<close>

lemma port_do_send:
  assumes "port_do (Send el b thread bytes) s = Some s'"
  shows "port_step s s'"
proof -
  obtain p where p: "\<not> locks_port (pr_recv s)" "int (length bytes) \<le> uint kMaxMsgLen" "el \<notin> dom (elems (messages (pr_port s)))" "b \<notin> dom (blocks (pr_port s))"
      "send_locked el (Some b) 0 thread bytes (pr_port s) = Inr (0, p)"
      "s' = s\<lparr>pr_port := p, announcing := add_mset TestBlocker (announcing s), sent := sent s @ [(thread, bytes)]\<rparr>"
    using assms by (cases "send_locked el (Some b) 0 thread bytes (pr_port s)") (auto simp: domIff split: if_splits)
  have "length bytes \<le> unat kMaxMsgLen"
    using p(2) unfolding nat_uint_eq [symmetric] by linarith
  then show ?thesis
    unfolding p(6) by (rule port_step.enqueue [OF p(1) _ p(3-5)])
qed

lemma port_do_receive:
  assumes "port_do (Receive n u) s = Some s'"
  shows "port_step s s'"
proof (cases "pr_recv s")
  case Outside
  then show ?thesis
    using assms port_step.lock [OF Outside, of n u] by simp
next
  case (Resetting n u)
  then show ?thesis
    using assms port_step.reset [OF Resetting] by simp
next
  case (Popping n u)
  then obtain r p where "receive_locked n u (pr_port s) = Some (Inr (r, p))"
      "s' = s\<lparr>pr_port := p, pr_recv := (if r = MustBlock then Checked n else Outside), got := record_got r n (got s)\<rparr>"
    using assms by (simp split: option.splits sum.splits prod.splits)
  then show ?thesis
    using port_step.first [OF Popping] by simp
next
  case (Checked n)
  then show ?thesis
    using assms port_step.block [OF Checked] by simp
next
  case (ReadSignalled n)
  then show ?thesis
    using assms port_step.not_signalled [OF ReadSignalled] port_step.block_abort [of s n] by (simp split: if_splits)
next
  case (ReadUnblocked n)
  then show ?thesis
    using assms port_step.not_unblocked [OF ReadUnblocked] port_step.block_abort [of s n] by (simp split: if_splits)
next
  case (StoreBlocking n)
  then show ?thesis
    using assms port_step.sleep [OF StoreBlocking] by simp
next
  case (Asleep n)
  then show ?thesis
    using assms port_step.wake [OF Asleep] by (simp split: if_splits)
next
  case (ClearBlocking n)
  then show ?thesis
    using assms port_step.unblocked [OF ClearBlocking] by simp
next
  case (Awake n)
  then obtain r p where "receive_second n (pr_port s) = Some (Inr (r, p))"
      "s' = s\<lparr>pr_port := p, pr_recv := Outside, got := record_got r n (got s), slow := slow s + (case r of Got _ _ \<Rightarrow> 1 | _ \<Rightarrow> 0)\<rparr>"
    using assms by (simp split: option.splits sum.splits prod.splits)
  then show ?thesis
    using port_step.second [OF Awake] by simp
qed

lemma port_do_announce:
  assumes "port_do (Announce a) s = Some s'"
  shows "port_step s s'"
proof -
  have a: "a \<in># announcing s" "announcing s = add_mset a (announcing s - {#a#})"
    using assms by (simp_all split: if_splits)
  show ?thesis
  proof (cases "\<exists>t. a = Unblock t")
    case True
    then obtain t where t: "a = Unblock t"
      by blast
    show ?thesis
      using assms a(1) port_step.unblock [OF a(2) [unfolded t]] unfolding t by (simp split: if_splits)
  next
    case False
    then obtain a' p where p: "announce_step a (pr_port s) = Inr (a', p)"
        "s' = s\<lparr>pr_port := p, announcing := still a' (announcing s - {#a#}),
           overlapped := (overlapped s \<or> a = TestBlocker \<and> preparing (pr_recv s)),
           begun := (begun s \<or> a = TestBlocker \<and> sleeps (pr_recv s))\<rparr>"
      using assms a(1) by (cases a; cases "announce_step a (pr_port s)") (auto simp del: announce_step.simps)
    show ?thesis
      unfolding p(2) using False by (intro port_step.announce [OF a(2) _ p(1)]) simp
  qed
qed

lemma port_do_step: "port_do x s = Some s' \<Longrightarrow> port_step s s'"
  using port_do_send port_do_announce port_do_receive by (cases x) (simp_all del: port_do.simps)

lemma port_sched_reach: "port_sched xs s = Some s' \<Longrightarrow> port_reach s \<Longrightarrow> port_reach s'"
proof (induction xs arbitrary: s)
  case (Cons x xs)
  from Cons.prems(1) obtain s1 where s1: "port_do x s = Some s1" "port_sched xs s1 = Some s'"
    by (auto simp: bind_eq_Some_conv)
  show ?case
    by (rule Cons.IH [OF s1(2) port_reach.step [OF Cons.prems(2) port_do_step [OF s1(1)]]])
qed simp

lemma scheduled:
  assumes "case port_sched xs (port_start t) of None \<Rightarrow> False | Some s \<Rightarrow> P s"
  shows "\<exists>s. port_reach s \<and> P s"
  using assms port_sched_reach [OF _ port_reach.start, of xs t] by (cases "port_sched xs (port_start t)") auto

definition recv :: "nat \<Rightarrow> port_act list" where
  "recv k = replicate k (Receive 64 1)"

text \<open>
  The receiver finds the queue empty; a message is queued and announced before it blocks, which aborts
  the attempt, and the receiver takes the message. It finds the queue empty again, and a second
  message is queued and announced before it blocks.
\<close>

definition abort_schedule :: "port_act list" where
  "abort_schedule = recv 3 @ [Send 1 1 3 [1], Announce TestBlocker, Announce SetUnblocked] @ recv 4
     @ recv 3 @ [Send 2 2 3 [2], Announce TestBlocker, Announce TestBlocking] @ recv 4"

text \<open>The announcement of a message tests \<open>isBlocking\<close> before the receiver stores it.\<close>

definition race_schedule :: "port_act list" where
  "race_schedule = recv 3 @ [Send 1 1 3 [1]] @ recv 1 @ [Announce TestBlocker, Announce TestBlocking] @ recv 3"

text \<open>
  Two messages are announced to a sleeping receiver. The second announcement unblocks it and, when it
  receives again, the first one goes on.
\<close>

definition null_schedule :: "port_act list" where
  "null_schedule = recv 7 @ [Send 1 1 3 [1], Send 2 2 3 [2], Announce TestBlocker, Announce TestBlocking, Announce TestBlocker,
     Announce TestBlocking, Announce TestSignalled, Announce LoadBlocker, Announce (Unblock 5)] @ recv 5 @ [Announce TestSignalled]"

lemma schedules_run:
  "case port_sched abort_schedule (port_start 5) of None \<Rightarrow> False
   | Some s \<Rightarrow> pr_recv s = Asleep 64 \<and> messagesPending (pr_port s) \<and> announcing s = {#} \<and> \<not> woken s \<and> aborted s \<and> \<not> overlapped s"
  "case port_sched race_schedule (port_start 5) of None \<Rightarrow> False
   | Some s \<Rightarrow> pr_recv s = Asleep 64 \<and> messagesPending (pr_port s) \<and> announcing s = {#} \<and> \<not> woken s \<and> \<not> aborted s"
  "case port_sched null_schedule (port_start 5) of None \<Rightarrow> False
   | Some s \<Rightarrow> LoadBlocker \<in># announcing s \<and> blocker (pr_port s) = None"
  by code_simp+

lemma stuck_asleep:
  assumes "port_step s s'" "pr_recv s = Asleep n" "notifying s = 0" "\<not> woken s" "sent s' = sent s"
  shows "pr_recv s' = Asleep n \<and> notifying s' = 0 \<and> \<not> woken s'"
  using assms by cases (auto simp: notifying_def woken_def)

text \<open>A sender of an announced message can dereference a null pointer: the receiver has cleared \<open>blocker\<close> in the meantime.\<close>

lemma announce_null_blocker:
  "\<exists>s. port_reach s \<and> LoadBlocker \<in># announcing s \<and> announce_step LoadBlocker (pr_port s) = Inl NullDeref"
  using scheduled [OF schedules_run(3)] by auto

section \<open>Properties\<close>

text \<open>
  C8: In every interleaving of senders and a receiver, messages arrive once, in the order they were
  queued, from the right sender and with their contents cut to the receiver's buffer; the messages
  in the queue are those not yet received, and the counters count them. The heap holds a block for
  every message in the queue and one for every message that was received after blocking: those
  blocks are never freed.
\<close>

theorem port_delivers_in_order:
  assumes "port_reach s"
  shows "\<exists>ms d. list_rep (messages (pr_port s)) ms \<and> sent s = d @ map (msg_view (blocks (pr_port s))) ms
    \<and> list_all2 cut d (got s)
    \<and> totalSent (pr_port s) = of_nat (length (sent s)) \<and> totalReceived (pr_port s) = of_nat (length (got s))
    \<and> card (dom (blocks (pr_port s))) = length ms + slow s"
  using port_reach_inv [OF assms] unfolding port_inv_def port_holds_def by blast

theorem port_delivers_in_order_witness:
  "\<exists>s ms d. port_reach s \<and> sent s = [(3, [1])] \<and> list_rep (messages (pr_port s)) ms
    \<and> sent s = d @ map (msg_view (blocks (pr_port s))) ms \<and> list_all2 cut d (got s)"
proof -
  have "case port_sched [Send 1 1 3 [1]] (port_start 5) of None \<Rightarrow> False | Some s \<Rightarrow> sent s = [(3, [1])]"
    by code_simp
  then obtain s where s: "port_reach s" "sent s = [(3, [1])]"
    using scheduled by blast
  show ?thesis
    using port_delivers_in_order [OF s(1)] s by blast
qed



text \<open>
  C40: A wake-up can be lost in two ways, after which the receiver sleeps although a message is in the
  queue that has already been announced, and no step but another message being queued wakes it. After
  an aborted attempt to block, the blocker keeps the thread of that attempt, so that the next
  announcement is taken to concern a thread that blocks and is recorded nowhere; this needs no
  announcement that overlaps with blocking. And an announcement can find \<open>blocker\<close> set and
  \<open>isBlocking\<close> not yet set while the receiver is between the two stores; this needs no aborted attempt.
\<close>

theorem port_lost_wakeup:
  "(\<exists>s n. port_reach s \<and> pr_recv s = Asleep n \<and> messagesPending (pr_port s) \<and> notifying s = 0 \<and> \<not> woken s \<and> \<not> overlapped s
    \<and> (\<forall>s'. port_step s s' \<and> sent s' = sent s \<longrightarrow> pr_recv s' = Asleep n \<and> notifying s' = 0 \<and> \<not> woken s'))
   \<and> (\<exists>s n. port_reach s \<and> pr_recv s = Asleep n \<and> messagesPending (pr_port s) \<and> notifying s = 0 \<and> \<not> woken s \<and> \<not> aborted s
    \<and> (\<forall>s'. port_step s s' \<and> sent s' = sent s \<longrightarrow> pr_recv s' = Asleep n \<and> notifying s' = 0 \<and> \<not> woken s'))"
proof
  obtain s where s: "port_reach s" "pr_recv s = Asleep 64" "messagesPending (pr_port s)" "announcing s = {#}" "\<not> woken s" "\<not> overlapped s"
    using scheduled [OF schedules_run(1)] by blast
  then show "\<exists>s n. port_reach s \<and> pr_recv s = Asleep n \<and> messagesPending (pr_port s) \<and> notifying s = 0 \<and> \<not> woken s \<and> \<not> overlapped s
    \<and> (\<forall>s'. port_step s s' \<and> sent s' = sent s \<longrightarrow> pr_recv s' = Asleep n \<and> notifying s' = 0 \<and> \<not> woken s')"
    using stuck_asleep [of s]
    by (intro exI [of _ s] exI [of _ 64]) (simp add: notifying_def)
next
  obtain s where s: "port_reach s" "pr_recv s = Asleep 64" "messagesPending (pr_port s)" "announcing s = {#}" "\<not> woken s" "\<not> aborted s"
    using scheduled [OF schedules_run(2)] by blast
  then show "\<exists>s n. port_reach s \<and> pr_recv s = Asleep n \<and> messagesPending (pr_port s) \<and> notifying s = 0 \<and> \<not> woken s \<and> \<not> aborted s
    \<and> (\<forall>s'. port_step s s' \<and> sent s' = sent s \<longrightarrow> pr_recv s' = Asleep n \<and> notifying s' = 0 \<and> \<not> woken s')"
    using stuck_asleep [of s]
    by (intro exI [of _ s] exI [of _ 64]) (simp add: notifying_def)
qed

theorem port_lost_wakeup_witness:
  "\<exists>s n. port_reach s \<and> pr_recv s = Asleep n \<and> messagesPending (pr_port s) \<and> notifying s = 0 \<and> \<not> woken s"
  using port_lost_wakeup by blast

end
