(* ===== verification/C_String.thy ===== *)
theory C_String
  imports Kush_Prelude
begin

text \<open>
  The memory functions of the kernel's C runtime, \<^verbatim>\<open>kernel/src/c/string.c\<close>, over a memory of bytes.
  Most loops count with an \<^verbatim>\<open>int\<close>, whose overflow is a fault; the copy moves words of 32 bits and
  then the remaining bytes. The lemmas show that copying and moving are what they are for blocks
  below 2 GiB: a simultaneous assignment of the bytes.
\<close>

type_synonym bytes = "u64 \<Rightarrow> u8"

definition int_max :: nat where "int_max = 0x7FFFFFFF"

section \<open>Searching and comparing\<close>

function memchr_loop :: "bytes \<Rightarrow> u64 \<Rightarrow> u8 \<Rightarrow> nat \<Rightarrow> nat \<Rightarrow> u64 option outcome" where
  "memchr_loop m ptr value num i =
     (if i < num then
        if m (ptr + of_nat i) = value then Inr (Some (ptr + of_nat i))
        else if i = int_max then Inl SignedOverflow
        else memchr_loop m ptr value num (Suc i)
      else Inr None)"
  by pat_completeness auto

termination
  by (relation "measure (\<lambda>(m, ptr, value, num, i). num - i)") auto

definition memchr :: "bytes \<Rightarrow> u64 \<Rightarrow> u8 \<Rightarrow> u64 \<Rightarrow> u64 option outcome" where
  "memchr m ptr value num = memchr_loop m ptr value (unat num) 0"

function memcmp_loop :: "bytes \<Rightarrow> u64 \<Rightarrow> u64 \<Rightarrow> nat \<Rightarrow> nat \<Rightarrow> int outcome" where
  "memcmp_loop m ptr1 ptr2 num i =
     (if i < num then
        if m (ptr1 + of_nat i) \<noteq> m (ptr2 + of_nat i) then Inr (if m (ptr1 + of_nat i) > m (ptr2 + of_nat i) then 1 else -1)
        else if i = int_max then Inl SignedOverflow
        else memcmp_loop m ptr1 ptr2 num (Suc i)
      else Inr 0)"
  by pat_completeness auto

termination
  by (relation "measure (\<lambda>(m, ptr1, ptr2, num, i). num - i)") auto

definition memcmp :: "bytes \<Rightarrow> u64 \<Rightarrow> u64 \<Rightarrow> u64 \<Rightarrow> int outcome" where
  "memcmp m ptr1 ptr2 num = memcmp_loop m ptr1 ptr2 (unat num) 0"

section \<open>Copying and filling\<close>

text \<open>A little-endian word of 32 bits.\<close>

definition load32 :: "u64 \<Rightarrow> bytes \<Rightarrow> u32" where
  "load32 p m = ucast (m p) OR push_bit 8 (ucast (m (p + 1))) OR push_bit 16 (ucast (m (p + 2))) OR push_bit 24 (ucast (m (p + 3)))"

definition store32 :: "u64 \<Rightarrow> u32 \<Rightarrow> bytes \<Rightarrow> bytes" where
  "store32 p w m = m(p := ucast w, p + 1 := ucast (drop_bit 8 w), p + 2 := ucast (drop_bit 16 w), p + 3 := ucast (drop_bit 24 w))"

function copy_words :: "nat \<Rightarrow> u64 \<Rightarrow> u64 \<Rightarrow> nat \<Rightarrow> bytes \<Rightarrow> (nat \<times> u64 \<times> u64 \<times> bytes) outcome" where
  "copy_words n dst src i m =
     (if i < n then
        let m = store32 dst (load32 src m) m in
        if i = int_max then Inl SignedOverflow else copy_words n (dst + 4) (src + 4) (Suc i) m
      else Inr (i, dst, src, m))"
  by pat_completeness auto

termination
  by (relation "measure (\<lambda>(n, dst, src, i, m). n - i)") auto

function copy_bytes :: "nat \<Rightarrow> u64 \<Rightarrow> u64 \<Rightarrow> nat \<Rightarrow> bytes \<Rightarrow> bytes outcome" where
  "copy_bytes num dst_byte src_byte x m =
     (if x < num then
        let m = m(dst_byte := m src_byte) in
        if x = int_max then Inl SignedOverflow else copy_bytes num (dst_byte + 1) (src_byte + 1) (Suc x) m
      else Inr m)"
  by pat_completeness auto

termination
  by (relation "measure (\<lambda>(num, dst_byte, src_byte, x, m). num - x)") auto

definition memcpy :: "u64 \<Rightarrow> u64 \<Rightarrow> u64 \<Rightarrow> bytes \<Rightarrow> (u64 \<times> bytes) outcome" where
  "memcpy destination source num m =
     obind (copy_words (unat (num div 4)) destination source 0 m) (\<lambda>(i, dst, src, m).
     if i * 4 > int_max then Inl SignedOverflow
     else if i * 4 \<noteq> unat num then obind (copy_bytes (unat num) dst src (i * 4) m) (\<lambda>m. Inr (destination, m))
     else Inr (destination, m))"

fun clear_bytes :: "nat \<Rightarrow> u64 \<Rightarrow> bytes \<Rightarrow> bytes" where
  "clear_bytes 0 p m = m"
| "clear_bytes (Suc n) p m = clear_bytes n (p + 1) (m(p := 0))"

definition memclr :: "u64 \<Rightarrow> u64 \<Rightarrow> bytes \<Rightarrow> u64 \<times> bytes" where
  "memclr start cnt m = (if cnt = 0 then (start, m) else (start + cnt, clear_bytes (unat cnt) start m))"

function fill_bytes :: "u64 \<Rightarrow> u8 \<Rightarrow> nat \<Rightarrow> nat \<Rightarrow> bytes \<Rightarrow> bytes outcome" where
  "fill_bytes ptr value num i m =
     (if i < num then
        let m = m(ptr + of_nat i := value) in
        if i = int_max then Inl SignedOverflow else fill_bytes ptr value num (Suc i) m
      else Inr m)"
  by pat_completeness auto

termination
  by (relation "measure (\<lambda>(ptr, value, num, i, m). num - i)") auto

definition memset :: "u64 \<Rightarrow> u8 \<Rightarrow> u64 \<Rightarrow> bytes \<Rightarrow> (u64 \<times> bytes) outcome" where
  "memset ptr value num m =
     (if value = 0 then Inr (ptr, snd (memclr ptr num m))
      else obind (fill_bytes ptr value (unat num) 0 m) (\<lambda>m. Inr (ptr, m)))"

text \<open>The temporary buffer is on the stack, at \<open>tmp\<close>.\<close>

definition memmove :: "u64 \<Rightarrow> u64 \<Rightarrow> u64 \<Rightarrow> u64 \<Rightarrow> bytes \<Rightarrow> (u64 \<times> bytes) outcome" where
  "memmove tmp dest src n m =
     obind (memcpy tmp src n m) (\<lambda>(_, m). obind (memcpy dest tmp n m) (\<lambda>(_, m). Inr (dest, m)))"

section \<open>Strings\<close>

fun strncmp :: "bytes \<Rightarrow> u64 \<Rightarrow> u64 \<Rightarrow> nat \<Rightarrow> int" where
  "strncmp m s1 s2 0 = 0"
| "strncmp m s1 s2 (Suc n) =
     (if m s1 \<noteq> m s2 then uint (m s1) - uint (m s2) else strncmp m (s1 + 1) (s2 + 1) n)"

fun strncpy :: "u64 \<Rightarrow> u64 \<Rightarrow> nat \<Rightarrow> bytes \<Rightarrow> bytes" where
  "strncpy dest src 0 m = m"
| "strncpy dest src (Suc n) m =
     (let m' = m(dest := m src) in
      if m src \<noteq> 0 then strncpy (dest + 1) (src + 1) n m' else clear_bytes n (dest + 1) m')"

section \<open>Blocks of memory\<close>

text \<open>The block of \<open>n\<close> bytes at \<open>p\<close>, two blocks that do not overlap, and a copied block.\<close>

definition in_block :: "u64 \<Rightarrow> nat \<Rightarrow> u64 \<Rightarrow> bool" where
  "in_block p n a \<longleftrightarrow> unat (a - p) < n"

definition apart :: "u64 \<Rightarrow> u64 \<Rightarrow> nat \<Rightarrow> bool" where
  "apart p q n \<longleftrightarrow> (\<forall>a. in_block p n a \<longrightarrow> \<not> in_block q n a)"

definition copied :: "u64 \<Rightarrow> u64 \<Rightarrow> nat \<Rightarrow> bytes \<Rightarrow> bytes" where
  "copied dst src n m = (\<lambda>a. if in_block dst n a then m (src + (a - dst)) else m a)"

lemma in_block_shift:
  assumes "p + n < 2 ^ 63"
  shows "in_block (d + of_nat p) n a \<longleftrightarrow> p \<le> unat (a - d) \<and> unat (a - d) < p + n"
proof -
  have p: "unat (of_nat p :: u64) = p"
    using assms by (simp add: unat_of_nat)
  have e: "a - (d + of_nat p) = (a - d) - of_nat p"
    by simp
  show ?thesis
  proof (cases "p \<le> unat (a - d)")
    case True
    then have "unat ((a - d) - of_nat p) = unat (a - d) - p"
      by (simp add: unat_sub p word_le_nat_alt)
    then show ?thesis
      using True unfolding in_block_def e by auto
  next
    case False
    have "unat ((a - d) - of_nat p) = 2 ^ 64 + unat (a - d) - p"
      using False unat_sub_if' [of "a - d" "of_nat p"] by (simp add: p)
    then show ?thesis
      using False assms unfolding in_block_def e by auto
  qed
qed

lemma apart_shift:
  assumes "apart d s (p + n)" "p + n < 2 ^ 63"
  shows "apart (d + of_nat p) (s + of_nat p) n"
  using assms(1) unfolding apart_def in_block_shift [OF assms(2)] by (auto simp: in_block_def)

lemma apart_less: "apart d s n \<Longrightarrow> k \<le> n \<Longrightarrow> apart d s k"
  unfolding apart_def in_block_def by (meson order_less_le_trans)

lemma copied_append:
  assumes ap: "apart d s (p + n)" and len: "p + n < 2 ^ 63"
  shows "copied (d + of_nat p) (s + of_nat p) n (copied d s p m) = copied d s (p + n) m"
proof
  fix a
  show "copied (d + of_nat p) (s + of_nat p) n (copied d s p m) a = copied d s (p + n) m a"
  proof (cases "in_block (d + of_nat p) n a")
    case True
    then have a: "p \<le> unat (a - d)" "unat (a - d) < p + n"
      using in_block_shift [OF len] by simp_all
    let ?b = "s + (a - d)"
    have "in_block s (p + n) ?b"
      using a(2) by (simp add: in_block_def)
    then have "\<not> in_block d (p + n) ?b"
      using ap unfolding apart_def by blast
    then have "\<not> in_block d p ?b"
      unfolding in_block_def by linarith
    moreover have "(s + of_nat p) + (a - (d + of_nat p)) = ?b"
      by simp
    ultimately show ?thesis
      using True a(2) by (simp add: copied_def in_block_def)
  next
    case False
    then show ?thesis
      using in_block_shift [OF len, of d a] by (auto simp: copied_def in_block_def)
  qed
qed

text \<open>Storing the word that was loaded moves its four bytes.\<close>

lemma word_bytes:
  "ucast (load32 p m) = m p" "ucast (drop_bit 8 (load32 p m)) = m (p + 1)"
  "ucast (drop_bit 16 (load32 p m)) = m (p + 2)" "ucast (drop_bit 24 (load32 p m)) = m (p + 3)"
  unfolding load32_def by (rule bit_word_eqI, auto simp: bit_simps dest: bit_imp_le_length)+

lemma unat_less_4: "unat (x :: u64) < 4 \<longleftrightarrow> x = 0 \<or> x = 1 \<or> x = 2 \<or> x = 3"
proof
  assume "unat x < 4"
  then have "unat x = 0 \<or> unat x = 1 \<or> unat x = 2 \<or> unat x = 3"
    by linarith
  then show "x = 0 \<or> x = 1 \<or> x = 2 \<or> x = 3"
    by (auto simp: word_unat_eq_iff)
qed auto

lemma store_load: "store32 d (load32 s m) m = copied d s 4 m"
proof
  fix a
  have eq: "a - d = k \<longleftrightarrow> a = d + k" for k
    by (metis add_diff_cancel_left' diff_add_cancel add.commute)
  show "store32 d (load32 s m) m a = copied d s 4 m a"
    unfolding store32_def word_bytes copied_def in_block_def unat_less_4 eq by auto
qed

lemma copy_byte: "m(d := m s) = copied d s 1 m"
  by (auto simp: copied_def in_block_def fun_eq_iff unat_eq_0)

section \<open>Loops\<close>

declare copy_words.simps [simp del] copy_bytes.simps [simp del] memchr_loop.simps [simp del] memcmp_loop.simps [simp del] fill_bytes.simps [simp del]

lemma copied_0 [simp]: "copied d s 0 m = m"
  by (simp add: copied_def in_block_def)

lemma copy_words_ok:
  assumes "i + k = n" "n \<le> int_max" "apart d s (4 * k)"
  shows "copy_words n d s i m = Inr (n, d + of_nat (4 * k), s + of_nat (4 * k), copied d s (4 * k) m)"
  using assms
proof (induction k arbitrary: i d s m)
  case 0
  then show ?case
    by (simp add: copy_words.simps [of n])
next
  case (Suc k)
  have len: "4 + 4 * k < 2 ^ 63"
    using Suc.prems(1,2) by (simp add: int_max_def)
  have ap: "apart d s (4 + 4 * k)"
    using Suc.prems(3) by simp
  have "copy_words n d s i m = copy_words n (d + 4) (s + 4) (Suc i) (copied d s 4 m)"
    using Suc.prems(1,2) by (simp add: copy_words.simps [of n d s i m] store_load)
  also have "\<dots> = Inr (n, d + 4 + of_nat (4 * k), s + 4 + of_nat (4 * k), copied (d + 4) (s + 4) (4 * k) (copied d s 4 m))"
    using Suc.prems(1,2) apart_shift [OF ap len] by (intro Suc.IH) simp_all
  also have "copied (d + 4) (s + 4) (4 * k) (copied d s 4 m) = copied d s (4 * Suc k) m"
    using copied_append [OF ap len] by simp
  finally show ?case
    by simp
qed

lemma copy_bytes_ok:
  assumes "x + k = n" "n \<le> int_max" "apart d s k"
  shows "copy_bytes n d s x m = Inr (copied d s k m)"
  using assms
proof (induction k arbitrary: x d s m)
  case 0
  then show ?case
    by (simp add: copy_bytes.simps [of n])
next
  case (Suc k)
  have len: "1 + k < 2 ^ 63"
    using Suc.prems(1,2) by (simp add: int_max_def)
  have ap: "apart d s (1 + k)"
    using Suc.prems(3) by simp
  have "copy_bytes n d s x m = copy_bytes n (d + 1) (s + 1) (Suc x) (copied d s 1 m)"
    using Suc.prems(1,2) by (simp add: copy_bytes.simps [of n d s x m] copy_byte)
  also have "\<dots> = Inr (copied (d + 1) (s + 1) k (copied d s 1 m))"
    using Suc.prems(1,2) apart_shift [OF ap len] by (intro Suc.IH) simp_all
  also have "copied (d + 1) (s + 1) k (copied d s 1 m) = copied d s (Suc k) m"
    using copied_append [OF ap len] by simp
  finally show ?case .
qed

lemma memcpy_ok:
  assumes "unat num \<le> int_max" "apart d s (unat num)"
  shows "memcpy d s num m = Inr (d, copied d s (unat num) m)"
proof -
  let ?k = "unat num div 4" and ?r = "unat num mod 4"
  have split: "4 * ?k + ?r = unat num"
    by simp
  have len: "4 * ?k + ?r < 2 ^ 63"
    using assms(1) unfolding split by (simp add: int_max_def)
  have ap: "apart d s (4 * ?k + ?r)"
    using assms(2) by simp
  have "copy_words ?k d s 0 m = Inr (?k, d + of_nat (4 * ?k), s + of_nat (4 * ?k), copied d s (4 * ?k) m)"
    using assms apart_less [OF ap, of "4 * ?k"] by (intro copy_words_ok) (simp_all add: int_max_def)
  then have words: "copy_words (unat (num div 4)) d s 0 m = Inr (?k, d + of_nat (4 * ?k), s + of_nat (4 * ?k), copied d s (4 * ?k) m)"
    by (simp add: unat_div)
  have bytes: "copy_bytes (unat num) (d + of_nat (4 * ?k)) (s + of_nat (4 * ?k)) (?k * 4) (copied d s (4 * ?k) m)
      = Inr (copied d s (unat num) m)"
    using copy_bytes_ok [OF _ assms(1) apart_shift [OF ap len]] copied_append [OF ap len] by simp
  have "?k * 4 \<le> int_max"
    using assms(1) div_times_less_eq_dividend [of "unat num" 4] by linarith
  moreover have "copied d s (4 * ?k) m = copied d s (unat num) m" if "?k * 4 = unat num"
    using that by (simp add: mult.commute)
  ultimately show ?thesis
    unfolding memcpy_def words using bytes by simp
qed

text \<open>Moving: both copies are between blocks that are apart, since the buffer is.\<close>

lemma memmove_ok:
  assumes "unat n \<le> int_max" "apart tmp src (unat n)" "apart dest tmp (unat n)"
  shows "memmove tmp dest src n m = Inr (dest, copied dest tmp (unat n) (copied tmp src (unat n) m))"
  using memcpy_ok [OF assms(1,2)] memcpy_ok [OF assms(1,3)] by (simp add: memmove_def)

lemma moved_bytes:
  assumes "\<not> in_block tmp n a"
  shows "copied dest tmp n (copied tmp src n m) a = copied dest src n m a"
  using assms by (simp add: copied_def in_block_def)

text \<open>Clearing and filling.\<close>

definition filled :: "u64 \<Rightarrow> nat \<Rightarrow> u8 \<Rightarrow> bytes \<Rightarrow> bytes" where
  "filled p n v m = (\<lambda>a. if in_block p n a then v else m a)"

lemma filled_Suc:
  assumes "Suc n < 2 ^ 63"
  shows "filled (p + 1) n v (m(p := v)) = filled p (Suc n) v m"
proof
  fix a
  have "in_block (p + 1) n a \<longleftrightarrow> 1 \<le> unat (a - p) \<and> unat (a - p) < Suc n"
    using in_block_shift [of 1 n p a] assms by simp
  moreover have "unat (a - p) = 0 \<longleftrightarrow> a = p"
    by (simp add: unat_eq_0)
  ultimately show "filled (p + 1) n v (m(p := v)) a = filled p (Suc n) v m a"
    by (auto simp: filled_def in_block_def)
qed

lemma clear_bytes_ok: "n < 2 ^ 63 \<Longrightarrow> clear_bytes n p m = filled p n 0 m"
proof (induction n arbitrary: p m)
  case 0
  then show ?case
    by (simp add: filled_def in_block_def)
next
  case (Suc n)
  then show ?case
    using filled_Suc by simp
qed

lemma fill_bytes_ok:
  assumes "i + k = n" "n \<le> int_max"
  shows "fill_bytes p v n i m = Inr (filled (p + of_nat i) k v m)"
  using assms
proof (induction k arbitrary: i m)
  case 0
  then show ?case
    by (simp add: fill_bytes.simps [of p v n] filled_def in_block_def)
next
  case (Suc k)
  have "fill_bytes p v n i m = fill_bytes p v n (Suc i) (m(p + of_nat i := v))"
    using Suc.prems by (simp add: fill_bytes.simps [of p v n i m])
  also have "\<dots> = Inr (filled ((p + of_nat i) + 1) k v (m(p + of_nat i := v)))"
    using Suc.IH [of "Suc i"] Suc.prems by (simp add: add.assoc add.commute [of 1])
  also have "filled ((p + of_nat i) + 1) k v (m(p + of_nat i := v)) = filled (p + of_nat i) (Suc k) v m"
    using Suc.prems by (intro filled_Suc) (simp add: int_max_def)
  finally show ?case .
qed

lemma memset_ok:
  assumes "unat num \<le> int_max"
  shows "memset p v num m = Inr (p, filled p (unat num) v m)"
proof (cases "v = 0")
  case True
  have "unat num < 2 ^ 63"
    using assms by (simp add: int_max_def)
  then have "snd (memclr p num m) = filled p (unat num) 0 m"
    using clear_bytes_ok by (auto simp: memclr_def filled_def in_block_def)
  then show ?thesis
    using True by (simp add: memset_def)
next
  case False
  then show ?thesis
    using fill_bytes_ok [of 0 "unat num" "unat num" p v m] assms by (simp add: memset_def)
qed

text \<open>Searching and comparing stop at the first byte that is equal, or different.\<close>

lemma memchr_loop_ok:
  "i + k = n \<Longrightarrow> n \<le> int_max \<Longrightarrow>
   memchr_loop m p v n i = Inr (map_option (\<lambda>j. p + of_nat j) (List.find (\<lambda>j. m (p + of_nat j) = v) [i..<n]))"
proof (induction k arbitrary: i)
  case 0
  then show ?case
    by (simp add: memchr_loop.simps [of m p v n])
next
  case (Suc k)
  then have "[i..<n] = i # [Suc i..<n]"
    by (simp add: upt_conv_Cons)
  then show ?case
    using Suc by (simp add: memchr_loop.simps [of m p v n i])
qed

lemma memcmp_loop_ok:
  "i + k = n \<Longrightarrow> n \<le> int_max \<Longrightarrow>
   memcmp_loop m p q n i = Inr (case List.find (\<lambda>j. m (p + of_nat j) \<noteq> m (q + of_nat j)) [i..<n] of None \<Rightarrow> 0
      | Some j \<Rightarrow> if m (p + of_nat j) > m (q + of_nat j) then 1 else -1)"
proof (induction k arbitrary: i)
  case 0
  then show ?case
    by (simp add: memcmp_loop.simps [of m p q n])
next
  case (Suc k)
  then have "[i..<n] = i # [Suc i..<n]"
    by (simp add: upt_conv_Cons)
  then show ?case
    using Suc by (simp add: memcmp_loop.simps [of m p q n i])
qed

lemma memcmp_equal:
  assumes "unat num \<le> int_max"
  shows "memcmp m p q num = Inr 0 \<longleftrightarrow> (\<forall>j < unat num. m (p + of_nat j) = m (q + of_nat j))"
proof (cases "List.find (\<lambda>j. m (p + of_nat j) \<noteq> m (q + of_nat j)) [0..<unat num]")
  case None
  then have "\<forall>j < unat num. m (p + of_nat j) = m (q + of_nat j)"
    by (simp add: find_None_iff)
  then show ?thesis
    using memcmp_loop_ok [of 0 "unat num" "unat num" m p q] assms None by (simp add: memcmp_def)
next
  case (Some j)
  then have "j < unat num" "m (p + of_nat j) \<noteq> m (q + of_nat j)"
    by (auto simp: find_Some_iff)
  then show ?thesis
    using memcmp_loop_ok [of 0 "unat num" "unat num" m p q] assms Some by (auto simp: memcmp_def)
qed

text \<open>The comparison of strings does not stop at their end: equal strings can compare as different.\<close>

lemma strncmp_past_end: "strncmp ((\<lambda>_. 0)(2 := 5)) 0 1 (Suc (Suc 0)) = -5"
  by simp

section \<open>Properties\<close>

lemma in_block_range:
  assumes "unat p + n \<le> 2 ^ 64" "in_block p n a"
  shows "unat p \<le> unat a \<and> unat a < unat p + n"
proof -
  define x where "x = a - p"
  have x: "unat x < n"
    using assms(2) by (simp add: in_block_def x_def)
  then have "unat (p + x) = unat p + unat x"
    using assms(1) by (simp add: unat_word_ariths(1))
  then show ?thesis
    using x by (simp add: x_def)
qed

lemma apart_below: "unat p + n \<le> unat q \<Longrightarrow> unat q + n \<le> 2 ^ 64 \<Longrightarrow> apart p q n"
  using in_block_range [of p n] in_block_range [of q n] unfolding apart_def by fastforce

lemma apart_sym: "apart p q n = apart q p n"
  by (auto simp: apart_def)

text \<open>
  C10: Moving a block below 2 GiB over a destination that may overlap it assigns all bytes at once:
  with a temporary buffer on the stack that meets neither block, every byte outside of the buffer
  is the one of the source block at the same offset if it is in the destination, and unchanged
  otherwise. The copies through words of 32 bits and a rest of bytes never overflow their signed
  counter.
\<close>

theorem memmove_assigns_at_once:
  assumes "unat n \<le> int_max" "apart tmp src (unat n)" "apart dest tmp (unat n)"
  shows "\<exists>m'. memmove tmp dest src n m = Inr (dest, m') \<and>
    (\<forall>a. \<not> in_block tmp (unat n) a \<longrightarrow> m' a = (if in_block dest (unat n) a then m (src + (a - dest)) else m a))"
  using memmove_ok [OF assms, of m] moved_bytes [of tmp "unat n"] by (simp add: copied_def)

theorem memmove_assigns_at_once_witness:
  "\<exists>m'. memmove 0x9000 0x1002 0x1000 7 (\<lambda>a. ucast a) = Inr (0x1002, m') \<and> m' 0x1002 = 0 \<and> m' 0x1004 = 2 \<and> m' 0x1008 = 6 \<and> m' 0x1009 = 9"
proof -
  have "apart 0x1000 0x9000 (unat (7 :: u64))" "apart 0x1002 0x9000 (unat (7 :: u64))"
    by (rule apart_below; simp)+
  then have "\<exists>m'. memmove 0x9000 0x1002 0x1000 7 (\<lambda>a. ucast a) = Inr (0x1002, m') \<and>
      (\<forall>a. \<not> in_block 0x9000 (unat (7 :: u64)) a \<longrightarrow> m' a = (if in_block 0x1002 (unat (7 :: u64)) a then ucast (0x1000 + (a - 0x1002)) else ucast a))"
    by (intro memmove_assigns_at_once) (simp_all add: int_max_def apart_sym)
  then obtain m' where m': "memmove 0x9000 0x1002 0x1000 7 (\<lambda>a. ucast a) = Inr (0x1002, m')"
      "\<And>a. \<not> in_block 0x9000 (unat (7 :: u64)) a \<Longrightarrow> m' a = (if in_block 0x1002 (unat (7 :: u64)) a then ucast (0x1000 + (a - 0x1002)) else ucast a)"
    by blast
  show ?thesis
    using m'(1) m'(2) [of "0x1002"] m'(2) [of "0x1004"] m'(2) [of "0x1008"] m'(2) [of "0x1009"] by (simp add: in_block_def)
qed

end
