(* ===== verification/Spec2Isabelle.thy ===== *)
theory Spec2Isabelle
  imports Handle_Manager Rt_MinHeap Rt_List Page_Table Smart_Pointers Rw_Lock Rt_RBT Map_Tree Vm_Types Ipc_Port C_String
begin

text \<open>
  A verification library for the kush-os kernel, a microkernel for amd64 written in C++. It models
  the kernel's runtime containers, its physical and virtual memory management, the handles by which
  user space names kernel objects, message ports, the reader/writer lock and the memory functions
  of the C runtime. Source paths below are relative to \<^verbatim>\<open>src/kernel\<close>; \<^verbatim>\<open>arch\<close> stands for
  \<^verbatim>\<open>src/kernel/arch/x86_64\<close>.

  \<^bold>\<open>The program and its parts.\<close> System calls name tasks, threads, ports, memory objects and interrupt
  handlers by handles, which the handle manager resolves through weak pointers. An address space
  (\<^verbatim>\<open>vm::Map\<close>) keeps its mappings in a binary search tree and its translations in a page table. The
  mappings refer to memory objects (\<^verbatim>\<open>vm::MapEntry\<close>), which keep the frames they own in a red-black
  tree. Frames, for pages as for page tables, come from the physical allocator. Ports keep their
  messages in a queue, a doubly linked list, and wake the receiving thread through a blocker object.
  Deadlines of the scheduler are in a binary heap over a vector. The theories follow that structure:
  each models one component and imports the components it calls.

  \<^bold>\<open>Theories, sources and results.\<close>

  \<^item> \<open>Kush_Prelude\<close>: machine integers, the outcome \<open>fault + 'a\<close> of code that can panic, dereference a
    null pointer, access memory that was freed or overflow a signed counter, the combination of
    outcomes with runs that do not end (\<open>dbind\<close>), and shared lemmas on lists and words.
  \<^item> \<open>Handle_Manager\<close>, \<^verbatim>\<open>src/handle/Manager.h\<close>, \<^verbatim>\<open>Manager.cpp\<close>: packing of handles, the tables of weak
    references and the fifteen entry points. Locales \<open>handle_space\<close> and \<open>releasable_handle_space\<close>, with
    an interpretation for each kind of object. Handles that were made resolve to their objects and to
    no other kind (C5, C16, C20), and a released handle resolves to nothing through any later
    history shorter than a full turn of the epoch counter (C1).
  \<^item> \<open>Rt_Vector\<close>, \<^verbatim>\<open>src/runtime/Vector.h\<close>: counters and backing storage with all slots; refinement of
    lists (C15) through the locale \<open>array_list\<close>.
  \<^item> \<open>Rt_MinHeap\<close>, \<^verbatim>\<open>src/runtime/MinHeap.h\<close>: the operations over the vector model, shown to be those of a
    priority queue (locale \<open>priority_queue\<close>): sorting, removal at any index, enumeration with removals
    (C6, C17, C19).
  \<^item> \<open>Rt_List\<close>, \<^verbatim>\<open>src/runtime/List.h\<close>, \<^verbatim>\<open>Queue.h\<close>: elements in a heap with both pointer chains;
    refinement of lists without leaks (C11, C14), and the queue (C18) through the locale \<open>fifo\<close>.
  \<^item> \<open>Smart_Pointers\<close>, \<^verbatim>\<open>src/runtime/SmartPointers.h\<close>: info blocks, shared and weak pointers; exact
    counts, no use after free and no leak for every program over the operations (C22, C23, C24), and
    the uncounted copy of a weak pointer (C25).
  \<^item> \<open>Rt_BST\<close>, \<open>Rt_BST_Ops\<close>, \<^verbatim>\<open>src/runtime/BinarySearchTree.h\<close>: nodes in a heap with parent and child
    pointers; a relation \<open>shape\<close> to trees of addresses; insertion and removal (C32, C33), and the
    removal of a root with one child (C34). The locale \<open>tree_insert\<close> holds what the two classes of trees
    share of an insertion.
  \<^item> \<open>Rt_RBT\<close>, \<^verbatim>\<open>src/runtime/RedBlackTree.h\<close>: rotations and the repair loop at pointer level; insertion keeps
    the colour and height invariants (C35), the height is logarithmic (C36). Interprets \<open>tree_insert\<close>.
  \<^item> \<open>Phys_Mem\<close>, \<^verbatim>\<open>src/mem/PhysRegion.h\<close>, \<^verbatim>\<open>PhysRegion.cpp\<close>, \<^verbatim>\<open>PhysicalAllocator.h\<close>,
    \<^verbatim>\<open>PhysicalAllocator.cpp\<close>: bitmaps refine a set of free frames; allocation, freeing and start (C2,
    C12, C13, C21). The locale \<open>frame_allocator\<close> is the contract that the page tables rely on.
  \<^item> \<open>Page_Table\<close>, \<^verbatim>\<open>arch/src/vm/PTEHandler.h\<close>, \<^verbatim>\<open>PTEHandler.cpp\<close>: the four levels of tables as words of
    physical memory; for user addresses they refine a map from pages to entries (C29, C30, C31).
  \<^item> \<open>Map_Tree\<close>, \<^verbatim>\<open>src/vm/MapTree.h\<close>: search and free region test over disjoint mappings (C37, C38).
  \<^item> \<open>Vm_Map\<close>, \<^verbatim>\<open>src/vm/Map.cpp\<close>, \<^verbatim>\<open>MapEntry.cpp\<close>, \<^verbatim>\<open>Mapper.cpp\<close>: address spaces and memory objects, composed
    from the trees, the page tables and the allocator. \<open>Vm_Props\<close>: page faults (C3), placement of objects
    (C4), views with a permission mask (C39). \<open>Vm_Types\<close>: every operation keeps the state well formed
    (C7).
  \<^item> \<open>Ipc_Port\<close>, \<^verbatim>\<open>src/ipc/Port.h\<close>, \<^verbatim>\<open>Port.cpp\<close> and blocking in \<^verbatim>\<open>src/sched/Thread.cpp\<close>: the parts of the
    operations between lock releases as steps of the relation \<open>port_step\<close>, for one receiver and any
    number of senders; order and leaks (C8), wake-ups (C9) and the one that is lost (C40).
  \<^item> \<open>Rw_Lock\<close>, \<^verbatim>\<open>arch/include/arch/rwlock.h\<close>: each load, store and atomic instruction is a step; mutual
    exclusion and progress (C26, C27), and the carry into the fourth byte (C28).
  \<^item> \<open>C_String\<close>, \<^verbatim>\<open>src/c/string.c\<close>: the functions over a memory of bytes; moving overlapping blocks is a
    simultaneous assignment (C10).

  \<^bold>\<open>Conventions.\<close> A structure is a record with the source's fields, a pointer an optional address into a
  heap that is part of the state. An operation returns an outcome: every panic, null pointer and access
  to freed memory is a value, so that theorems stating a result also exclude them. Operations that
  allocate take the address, or the function choosing it, as an argument, which theorems only ask to
  be unused. Machine words keep their width wherever the code computes with them; counts of slots of
  a block in memory are natural numbers.

  \<^bold>\<open>Loops and bounds.\<close> Loops over pointers, and the search for a free base, are partial functions whose
  value is \<open>None\<close> when they do not end; the theorems state that a result exists, so termination is part
  of them. The loop of \<^verbatim>\<open>PhysRegion::initNextIfNeeded\<close>, which chains regions, is given as many rounds as there
  are pages left, and each takes at least four pages. Bounds in theorems come from the code: 20 bits of
  epoch in a handle, 8 bits of ticket in the lock (hence 255 threads), 24576 pages in a bitmap, 2 GiB
  for loops that count with an \<^verbatim>\<open>int\<close>.

  \<^bold>\<open>Simplifications.\<close> A lock makes the code it guards atomic; interleaving is modelled where code runs
  outside of locks, in the ports and in the lock itself, whose memory is sequentially consistent.
  Logging and translation caches have no effect on the state. The aperture and the identity
  mapping name the same physical memory.

  \<^bold>\<open>Not modelled.\<close> The scheduler, context switches and processor set-up depend on assembly, timers and
  interrupts; of \<^verbatim>\<open>sched::Thread\<close> only blocking and unblocking are modelled, with the ports. The system
  calls decode arguments of the current thread and call the modelled operations. The kernel heap is a
  third-party allocator, represented by the choice of unused addresses. The slab allocator, the
  stack pool, the hash table and the lock-free queue are not used by the modelled components. Platform code
  is device access; the memory map and section addresses it supplies are arguments. Cryptography
  and formatted printing are third-party code. User space servers, drivers, libraries and the build
  tools are programs of their own. The repair after a removal from a red-black tree is translated but has
  no theorem: no code calls it. Activating an address space only loads a control register.
\<close>

end
